(* ===== verification/Prelude.thy ===== *)
theory Prelude
  imports Main "HOL-Library.Word" "HOL-Library.Sublist"
begin

text \<open>
  What every component of the development shares: the machine integers of the Rust code, the
  outcome of a Rust call that may panic, \<open>Result\<close> and \<open>Option\<close> helpers of the standard
  library, checked and saturating arithmetic, and decimal formatting of unsigned integers.
  Nothing here is specific to one component.
\<close>

section \<open>Machine integers\<close>

type_synonym u8 = "8 word"
type_synonym u32 = "32 word"
type_synonym i32 = "32 word"
type_synonym u64 = "64 word"
type_synonym usize = "64 word"

text \<open>\<open>Default\<close> of the integer types.\<close>

instantiation word :: (len) default
begin

definition default_word :: "'a word" where
  "default_word = 0"

instance ..

end

section \<open>Calls that may panic\<close>

text \<open>
  A Rust call either returns or unwinds with a panic message. \<open>exec_bind\<close> is sequencing:
  a panic of the first call skips the rest.
\<close>

datatype 'a exec = Done 'a | Panic string

primrec exec_bind :: "'a exec \<Rightarrow> ('a \<Rightarrow> 'b exec) \<Rightarrow> 'b exec" where
  "exec_bind (Done a) f = f a"
| "exec_bind (Panic p) f = Panic p"

lemma exec_bind_Done_right [simp]: "exec_bind x Done = x"
  by (cases x) simp_all

lemma exec_bind_assoc: "exec_bind (exec_bind x f) g = exec_bind x (\<lambda>a. exec_bind (f a) g)"
  by (cases x) simp_all

lemma exec_bind_eq_Done [simp]:
  "(exec_bind x f = Done b) \<longleftrightarrow> (\<exists>a. x = Done a \<and> f a = Done b)"
  by (cases x) simp_all

lemma exec_bind_eq_Panic:
  "(exec_bind x f = Panic p) \<longleftrightarrow> (x = Panic p \<or> (\<exists>a. x = Done a \<and> f a = Panic p))"
  by (cases x) simp_all

lemma exec_bind_cong [fundef_cong]:
  "x = y \<Longrightarrow> (\<And>a. y = Done a \<Longrightarrow> f a = g a) \<Longrightarrow> exec_bind x f = exec_bind y g"
  by (cases y) simp_all

primrec exec_fold :: "('a \<Rightarrow> 's \<Rightarrow> 's exec) \<Rightarrow> 'a list \<Rightarrow> 's \<Rightarrow> 's exec" where
  "exec_fold f [] s = Done s"
| "exec_fold f (x # xs) s = exec_bind (f x s) (exec_fold f xs)"

lemma exec_fold_append:
  "exec_fold f (xs @ ys) s = exec_bind (exec_fold f xs s) (exec_fold f ys)"
proof (induction xs arbitrary: s)
  case (Cons x xs)
  then show ?case by (cases "f x s") simp_all
qed simp

lemma exec_fold_Done:
  assumes "\<And>x s. f x s = Done (g x s)"
  shows "exec_fold f xs s = Done (fold g xs s)"
  by (induction xs arbitrary: s) (simp_all add: assms)

section \<open>\<open>Result\<close> and \<open>Option\<close>\<close>

text \<open>\<open>Result<T, E>\<close> is \<open>'e + 'a\<close> with \<open>Inl\<close> for \<open>Err\<close>.\<close>

primrec result_ok :: "'e + 'a \<Rightarrow> 'a option" where
  "result_ok (Inl e) = None"
| "result_ok (Inr a) = Some a"

primrec map_err :: "('e \<Rightarrow> 'f) \<Rightarrow> 'e + 'a \<Rightarrow> 'f + 'a" where
  "map_err f (Inl e) = Inl (f e)"
| "map_err f (Inr a) = Inr a"

lemma map_err_Inr_iff [simp]: "(map_err f r = Inr a) = (r = Inr a)"
  by (cases r) simp_all

lemma not_Ok_iff: "r \<noteq> Inr () \<longleftrightarrow> (\<exists>e. r = Inl e)"
  by (cases r) simp_all

lemma map_err_Inl_iff: "map_err f r = Inl b \<longleftrightarrow> (\<exists>e. r = Inl e \<and> b = f e)"
  by (cases r) auto

lemma result_ok_Some_iff [simp]: "(result_ok r = Some a) = (r = Inr a)"
  by (cases r) simp_all

text \<open>
  \<open>Result::expect\<close>. Of the panic message only the text given to \<open>expect\<close> is kept, where the error is
  one of another crate with a \<open>Debug\<close> of its own.
\<close>

primrec result_expect :: "string \<Rightarrow> 'e + 'a \<Rightarrow> 'a exec" where
  "result_expect msg (Inl e) = Panic msg"
| "result_expect msg (Inr a) = Done a"

text \<open>\<open>Option::get_or_insert\<close>, of which the code uses only the stored value.\<close>

primrec get_or_insert :: "'a \<Rightarrow> 'a option \<Rightarrow> 'a option" where
  "get_or_insert d None = Some d"
| "get_or_insert d (Some a) = Some a"

lemma get_or_insert_neq_None [simp]: "get_or_insert d x \<noteq> None"
  by (cases x) simp_all

text \<open>The element stays when it was there, so the first value wins over any list of later ones.\<close>

lemma fold_get_or_insert_Some [simp]: "fold get_or_insert ds (Some a) = Some a"
  by (induction ds) simp_all

section \<open>Arithmetic\<close>

text \<open>
  Rust's \<open>+\<close> on unsigned integers: it panics on overflow when the build has overflow checks
  (debug profile) and wraps otherwise (release profile). \<open>overflow_checks\<close> is the profile.
\<close>

definition add_word :: "bool \<Rightarrow> 'a::len word \<Rightarrow> 'a word \<Rightarrow> 'a word exec" where
  "add_word overflow_checks a b =
     (if unat a + unat b < 2 ^ LENGTH('a) \<or> \<not> overflow_checks then Done (a + b)
      else Panic ''attempt to add with overflow'')"

lemma add_word_no_overflow:
  "unat a + unat b < 2 ^ LENGTH('a) \<Longrightarrow> add_word oc (a :: 'a::len word) b = Done (a + b)"
  by (simp add: add_word_def)

text \<open>The same test on the words themselves, for evaluation.\<close>

lemma add_word_code [code]:
  "add_word oc a b =
     (if a \<le> a + b \<or> \<not> oc then Done (a + b) else Panic ''attempt to add with overflow'')"
  by (simp add: add_word_def no_olen_add_nat)

text \<open>At the largest value the increment overflows.\<close>

lemma add_word_max:
  "add_word oc (- 1 :: 'a::len word) 1 =
     (if oc then Panic ''attempt to add with overflow'' else Done 0)"
proof -
  have "unat (- 1 :: 'a word) + 1 = 2 ^ LENGTH('a)"
    by (simp add: unsigned_minus_1_eq_mask mask_eq_exp_minus_1)
  then show ?thesis by (simp add: add_word_def)
qed

definition saturating_sub :: "'a::len word \<Rightarrow> 'a word \<Rightarrow> 'a word" where
  "saturating_sub a b = (if b \<le> a then a - b else 0)"

lemma unat_saturating_sub [simp]: "unat (saturating_sub a b) = unat a - unat b"
  by (auto simp: saturating_sub_def unat_sub word_le_nat_alt)

text \<open>\<open>v as usize\<close> from \<open>u32\<close>, on the 64-bit targets the program is built for, loses nothing.\<close>

lemma unat_ucast_u32: "unat (ucast (v :: u32) :: usize) = unat v"
proof -
  have "unat v < 2 ^ LENGTH(32)" by (rule unsigned_less)
  then show ?thesis by (simp add: unsigned_ucast_eq take_bit_nat_eq_self)
qed

lemma saturating_sub_self [simp]: "saturating_sub a a = 0"
  by (simp add: saturating_sub_def)

section \<open>Decimal formatting\<close>

text \<open>\<open>Display\<close> of an unsigned integer, with the parser that shows it loses nothing.\<close>

definition digit_char :: "nat \<Rightarrow> char" where
  "digit_char d = char_of (48 + d)"

fun show_nat :: "nat \<Rightarrow> string" where
  "show_nat n = (if n < 10 then [digit_char n] else show_nat (n div 10) @ [digit_char (n mod 10)])"

declare show_nat.simps [simp del]

definition show_word :: "'a::len word \<Rightarrow> string" where
  "show_word w = show_nat (unat w)"

definition parse_nat :: "string \<Rightarrow> nat" where
  "parse_nat = foldl (\<lambda>acc c. 10 * acc + (of_char c - 48)) 0"

lemma of_char_digit [simp]: "d < 10 \<Longrightarrow> (of_char (digit_char d) :: nat) = 48 + d"
  by (simp add: digit_char_def take_bit_eq_mod)

lemma parse_nat_snoc: "parse_nat (s @ [c]) = 10 * parse_nat s + (of_char c - 48)"
  by (simp add: parse_nat_def)

lemma parse_show_nat [simp]: "parse_nat (show_nat n) = n"
proof (induction n rule: show_nat.induct)
  case (1 n)
  show ?case
  proof (cases "n < 10")
    case True
    then show ?thesis by (simp add: show_nat.simps [of n] parse_nat_def)
  next
    case False
    with 1 show ?thesis by (simp add: show_nat.simps [of n] parse_nat_snoc)
  qed
qed

lemma show_nat_inject [simp]: "show_nat m = show_nat n \<longleftrightarrow> m = n"
  by (metis parse_show_nat)

lemma show_nat_digits: "c \<in> set (show_nat n) \<Longrightarrow> 48 \<le> (of_char c :: nat) \<and> (of_char c :: nat) < 58"
proof (induction n rule: show_nat.induct)
  case (1 n)
  then show ?case by (cases "n < 10") (auto simp: show_nat.simps [of n])
qed

lemma colon_notin_show_nat [simp]: "CHR '':'' \<notin> set (show_nat n)"
  using show_nat_digits [of "CHR '':''" n] by auto

text \<open>
  A text made of a number, a separator that is no digit and a rest determines both: the shape of
  every numbered reply the services format.
\<close>

lemma append_sep_inject:
  assumes "c \<notin> set xs" "c \<notin> set ys" "xs @ c # us = ys @ c # vs"
  shows "xs = ys \<and> us = vs"
  using assms
proof (induction xs arbitrary: ys)
  case Nil
  then show ?case by (cases ys) auto
next
  case (Cons x xs)
  then show ?case by (cases ys) auto
qed

section \<open>Lists\<close>

lemma prefix_drop_append: "prefix xs ys \<Longrightarrow> xs @ drop (length xs) ys = ys"
  by (auto simp: prefix_def)

end
