(* ===== verification/Copper.thy ===== *)
theory Copper
  imports Prelude
begin

text \<open>
  The interfaces of the two libraries the program is built on, copper-rs (\<open>cu29\<close>) and
  \<open>statig\<close>, whose code is not in the repository. Every operation the program calls is a field of
  a record that the modelled functions take as an argument; the locales state, as laws, the
  documented behaviour the program relies on. Effects outside the program (clock, channels) are
  threaded through a world of type \<open>'w\<close>. For each interface one executable instance is given,
  on which the laws are discharged and which every concrete run of the development uses.
\<close>

section \<open>copper-rs: errors, clock and messages\<close>

text \<open>
  A \<open>CuError\<close> is only ever built from a message (\<open>CuError::from\<close>). \<open>Tov\<close> is matched on by
  \<open>trigger_for\<close> with the three constructors below; its time and range types stay abstract.
\<close>

datatype cu_error = Cu_Error string

datatype ('t, 'r) tov = Tov_Time 't | Tov_Range 'r | Tov_None

text \<open>\<open>ctx.now()\<close>, \<open>CuTime::as_nanos\<close> and the \<open>start\<close> of a time range.\<close>

record ('w, 't, 'r) clock_api =
  now :: "'w \<Rightarrow> 't \<times> 'w"
  as_nanos :: "'t \<Rightarrow> u64"
  range_start :: "'r \<Rightarrow> 't"

text \<open>\<open>CuMsg<T>\<close>: \<open>payload\<close>, \<open>set_payload\<close>, \<open>clear_payload\<close> and the public field \<open>tov\<close>.\<close>

record ('m, 'p, 't, 'r) msg_api =
  payload :: "'m \<Rightarrow> 'p option"
  set_payload :: "'p \<Rightarrow> 'm \<Rightarrow> 'm"
  clear_payload :: "'m \<Rightarrow> 'm"
  msg_tov :: "'m \<Rightarrow> ('t, 'r) tov"
  set_tov :: "('t, 'r) tov \<Rightarrow> 'm \<Rightarrow> 'm"

locale cu_msg =
  fixes api :: "('m, 'p, 't, 'r) msg_api"
  assumes payload_set [simp]: "payload api (set_payload api p m) = Some p"
    and payload_clear [simp]: "payload api (clear_payload api m) = None"
    and payload_set_tov [simp]: "payload api (set_tov api t m) = payload api m"
    and tov_set_tov [simp]: "msg_tov api (set_tov api t m) = t"
begin

text \<open>Writing a slot and stamping it, as every source and transform task does.\<close>

lemma stamped_payload:
  "payload api (set_tov api t (set_payload api p m)) = Some p"
  "payload api (set_tov api t (clear_payload api m)) = None"
  by simp_all

end

record ('p, 't, 'r) slot =
  slot_payload :: "'p option"
  slot_tov :: "('t, 'r) tov"

definition slot_api :: "(('p, 't, 'r) slot, 'p, 't, 'r) msg_api" where
  "slot_api =
     \<lparr>payload = slot_payload,
      set_payload = (\<lambda>p m. m\<lparr>slot_payload := Some p\<rparr>),
      clear_payload = (\<lambda>m. m\<lparr>slot_payload := None\<rparr>),
      msg_tov = slot_tov,
      set_tov = (\<lambda>t m. m\<lparr>slot_tov := t\<rparr>)\<rparr>"

interpretation slot_msg: cu_msg slot_api
  by unfold_locales (simp_all add: slot_api_def)

text \<open>A slot as the runtime hands it to a task for the first time.\<close>

definition fresh_slot :: "('p, 't, 'r) slot" where
  "fresh_slot = \<lparr>slot_payload = None, slot_tov = Tov_None\<rparr>"

section \<open>statig: dispatch of an event to the current state\<close>

text \<open>
  A handler returns an \<open>Outcome\<close>. \<open>handle_with_context\<close> takes the handler table the
  \<open>state_machine\<close> macro generates (the handler of each state), the current state, the event and
  the context; \<open>init_with_context\<close> enters the initial state. The laws are those of
  \<open>docs/superpowers/notes/copper-statig-signatures.md\<close>, section 12, for machines without entry or
  exit actions, superstates and hooks, which are the machines of this program.
\<close>

datatype 's outcome = Handled | Super | Transition 's

type_synonym ('s, 'e, 'c) handlers = "'s \<Rightarrow> 'e \<Rightarrow> 'c \<Rightarrow> ('s outcome \<times> 'c) exec"

record ('s, 'e, 'c) statig_api =
  handle_with_context :: "('s, 'e, 'c) handlers \<Rightarrow> 's \<Rightarrow> 'e \<Rightarrow> 'c \<Rightarrow> ('s \<times> 'c) exec"
  init_with_context :: "'s \<Rightarrow> 'c \<Rightarrow> 's \<times> 'c"

locale statig =
  fixes sg :: "('s, 'e, 'c) statig_api"
  assumes init: "init_with_context sg s c = (s, c)"
    and handled: "h s e c = Done (Handled, c') \<Longrightarrow> handle_with_context sg h s e c = Done (s, c')"
    and super: "h s e c = Done (Super, c') \<Longrightarrow> handle_with_context sg h s e c = Done (s, c')"
    and transition:
      "h s e c = Done (Transition s', c') \<Longrightarrow> handle_with_context sg h s e c = Done (s', c')"
    and handler_panic: "h s e c = Panic p \<Longrightarrow> handle_with_context sg h s e c = Panic p"
begin

lemma dispatch:
  "handle_with_context sg h s e c =
     exec_bind (h s e c) (\<lambda>(oc, c'). Done (case oc of Transition s' \<Rightarrow> s' | _ \<Rightarrow> s, c'))"
proof (cases "h s e c")
  case (Panic p)
  then show ?thesis using handler_panic [of h s e c p] by simp
next
  case (Done r)
  obtain oc c' where "r = (oc, c')" by (cases r)
  with Done handled [of h s e c c'] super [of h s e c c'] transition [of h s e c]
  show ?thesis by (cases oc) simp_all
qed

text \<open>A handler that never panics never makes the dispatch panic.\<close>

lemma dispatch_total:
  assumes "h s e c = Done (oc, c')"
  shows "handle_with_context sg h s e c = Done (case oc of Transition s' \<Rightarrow> s' | _ \<Rightarrow> s, c')"
  by (simp add: dispatch assms)

end

definition dispatch_leaf :: "('s, 'e, 'c) handlers \<Rightarrow> 's \<Rightarrow> 'e \<Rightarrow> 'c \<Rightarrow> ('s \<times> 'c) exec" where
  "dispatch_leaf h s e c =
     exec_bind (h s e c)
       (\<lambda>(oc, c'). Done (case oc of Transition s' \<Rightarrow> s' | _ \<Rightarrow> s, c'))"

definition leaf_statig :: "('s, 'e, 'c) statig_api" where
  "leaf_statig =
     \<lparr>handle_with_context = dispatch_leaf, init_with_context = (\<lambda>s c. (s, c))\<rparr>"

interpretation leaf: statig leaf_statig
  by unfold_locales (simp_all add: leaf_statig_def dispatch_leaf_def)

end
