(* ===== verification/Registry.thy ===== *)
theory Registry
  imports Copper
begin

text \<open>
  \<open>crates/msrs-transport/src/registry.rs\<close>: the process-wide registry that hands channel ends to
  tasks. The static is a \<open>OnceLock\<close> (an option, \<open>None\<close> before the first use) over a \<open>Mutex\<close>
  (its map, whether it is locked, whether it is poisoned); values are boxed with their dynamic
  type. A call is one critical section. The result \<open>None\<close> of a call stands for a caller that
  blocks because another thread holds the lock. The locale \<open>slot_registry\<close> is the contract the
  tasks rely on.
\<close>

section \<open>State\<close>

text \<open>A Rust type: its \<open>TypeId\<close> and its \<open>type_name\<close>.\<close>

datatype rust_type = Rust_Type (type_id: nat) (type_name: string)

record 'v boxed_any =
  boxed_type :: nat
  boxed_value :: 'v

record 'v slots_mutex =
  slots_map :: "nat \<rightharpoonup> 'v boxed_any"
  locked :: bool
  poisoned :: bool

type_synonym 'v registry = "'v slots_mutex option"

definition fresh_mutex :: "'v slots_mutex" where
  "fresh_mutex = \<lparr>slots_map = Map.empty, locked = False, poisoned = False\<rparr>"

section \<open>Operations\<close>

text \<open>
  \<open>slots()\<close> creates the map on first use and locks it; \<open>PoisonError::into_inner\<close> makes a poisoned
  lock as good as a healthy one.
\<close>

definition slots :: "'v registry \<Rightarrow> 'v slots_mutex option" where
  "slots r =
     (let m = (case r of None \<Rightarrow> fresh_mutex | Some m \<Rightarrow> m) in
      if locked m then None else Some (m\<lparr>locked := True\<rparr>))"

definition drop_guard :: "'v slots_mutex \<Rightarrow> 'v slots_mutex" where
  "drop_guard m = m\<lparr>locked := False\<rparr>"

text \<open>Unwinding past a guard that is still alive poisons the lock and releases it.\<close>

definition unwind :: "'v slots_mutex \<Rightarrow> 'v slots_mutex" where
  "unwind m = m\<lparr>locked := False, poisoned := poisoned m \<or> locked m\<rparr>"

definition install :: "rust_type \<Rightarrow> rust_type \<Rightarrow> 'v \<Rightarrow> 'v registry \<Rightarrow> (unit exec \<times> 'v registry) option"
  where
  "install K V value r =
     (case slots r of
        None \<Rightarrow> None
      | Some guard \<Rightarrow>
          let key = type_id K in
          if slots_map guard key \<noteq> None then
            let guard = drop_guard guard in
            Some (Panic (type_name K @ '' channel already installed''), Some (unwind guard))
          else
            let guard = guard\<lparr>slots_map := (slots_map guard)
                  (key \<mapsto> \<lparr>boxed_type = type_id V, boxed_value = value\<rparr>)\<rparr> in
            Some (Done (), Some (drop_guard guard)))"

definition not_installed :: "rust_type \<Rightarrow> cu_error" where
  "not_installed K =
     Cu_Error (type_name K @
       '' channel not installed; call install() before building the copper runtime'')"

definition wrong_type :: "rust_type \<Rightarrow> rust_type \<Rightarrow> cu_error" where
  "wrong_type K V =
     Cu_Error (type_name K @ '' registry slot holds a different type than '' @ type_name V)"

definition registry_take ::
    "rust_type \<Rightarrow> rust_type \<Rightarrow> 'v registry \<Rightarrow> ((cu_error + 'v) \<times> 'v registry) option" where
  "registry_take K V r =
     (case slots r of
        None \<Rightarrow> None
      | Some guard \<Rightarrow>
          let removed = slots_map guard (type_id K);
              guard = guard\<lparr>slots_map := (slots_map guard)(type_id K := None)\<rparr>;
              m = drop_guard guard in
          (case removed of
             None \<Rightarrow> Some (Inl (not_installed K), Some m)
           | Some boxed \<Rightarrow>
               if boxed_type boxed = type_id V then Some (Inr (boxed_value boxed), Some m)
               else Some (Inl (wrong_type K V), Some m)))"

section \<open>Invariant\<close>

text \<open>No call in progress, and the lock never poisoned.\<close>

definition registry_ok :: "'v registry \<Rightarrow> bool" where
  "registry_ok r = (case r of None \<Rightarrow> True | Some m \<Rightarrow> \<not> locked m \<and> \<not> poisoned m)"

definition installed :: "'v registry \<Rightarrow> nat \<rightharpoonup> nat \<times> 'v" where
  "installed r k =
     (case r of None \<Rightarrow> None
      | Some m \<Rightarrow> map_option (\<lambda>b. (boxed_type b, boxed_value b)) (slots_map m k))"

lemma registry_ok_None [simp]: "registry_ok None"
  by (simp add: registry_ok_def)

lemma installed_None [simp]: "installed None = Map.empty"
  by (simp add: installed_def fun_eq_iff)

lemmas registry_defs =
  slots_def drop_guard_def unwind_def install_def registry_take_def registry_ok_def installed_def
  fresh_mutex_def Let_def

section \<open>The contract\<close>

text \<open>
  Over what is installed under each key: installing into a free slot fills it; a double install
  panics and changes nothing; taking empties the slot and returns the value exactly when one of
  the asked type was there. Every call leaves the registry ready for the next.
\<close>

locale slot_registry =
  fixes put :: "rust_type \<Rightarrow> rust_type \<Rightarrow> 'v \<Rightarrow> 'r \<Rightarrow> (unit exec \<times> 'r) option"
    and get :: "rust_type \<Rightarrow> rust_type \<Rightarrow> 'r \<Rightarrow> ((cu_error + 'v) \<times> 'r) option"
    and content :: "'r \<Rightarrow> nat \<rightharpoonup> nat \<times> 'v"
    and ready :: "'r \<Rightarrow> bool"
  assumes put_free: "ready r \<Longrightarrow> content r (type_id K) = None \<Longrightarrow>
      \<exists>r'. put K V v r = Some (Done (), r') \<and> ready r' \<and>
           content r' = (content r)(type_id K \<mapsto> (type_id V, v))"
    and put_taken: "ready r \<Longrightarrow> content r (type_id K) \<noteq> None \<Longrightarrow>
      \<exists>r'. put K V v r = Some (Panic (type_name K @ '' channel already installed''), r') \<and>
           ready r' \<and> content r' = content r"
    and get_found: "ready r \<Longrightarrow> content r (type_id K) = Some (type_id V, v) \<Longrightarrow>
      \<exists>r'. get K V r = Some (Inr v, r') \<and> ready r' \<and> content r' = (content r)(type_id K := None)"
    and get_missing: "ready r \<Longrightarrow> content r (type_id K) = None \<Longrightarrow>
      \<exists>r'. get K V r = Some (Inl (not_installed K), r') \<and> ready r' \<and> content r' = content r"
    and get_wrong: "ready r \<Longrightarrow> content r (type_id K) = Some (t, v) \<Longrightarrow> t \<noteq> type_id V \<Longrightarrow>
      \<exists>r'. get K V r = Some (Inl (wrong_type K V), r') \<and> ready r' \<and>
           content r' = (content r)(type_id K := None)"
begin

lemma put_get_roundtrip:
  assumes "ready r" and "content r (type_id K) = None"
  obtains r1 r2 where "put K V v r = Some (Done (), r1)" "get K V r1 = Some (Inr v, r2)"
    "ready r2" "content r2 = content r"
proof -
  obtain r1 where p: "put K V v r = Some (Done (), r1)" "ready r1"
      "content r1 = (content r)(type_id K \<mapsto> (type_id V, v))"
    using put_free [OF assms] by blast
  then obtain r2 where g: "get K V r1 = Some (Inr v, r2)" "ready r2"
      "content r2 = (content r1)(type_id K := None)"
    using get_found [of r1 K V v] by auto
  from p(3) g(3) assms(2) have "content r2 = content r"
    by (auto simp: fun_eq_iff)
  with p(1) g(1,2) show thesis by (rule that)
qed

text \<open>Whatever a take returns, the slot is empty afterwards, so the next take fails.\<close>

lemma get_consumes:
  assumes "ready r"
  obtains res r' where "get K V r = Some (res, r')" "ready r'" "content r' (type_id K) = None"
    "\<And>k. k \<noteq> type_id K \<Longrightarrow> content r' k = content r k"
proof (cases "content r (type_id K)")
  case None
  with get_missing [OF assms None, of V] show thesis by (auto intro: that)
next
  case (Some tv)
  obtain t v where tv: "tv = (t, v)" by (cases tv)
  show thesis
  proof (cases "t = type_id V")
    case True
    with get_found [OF assms, of K V v] Some tv show thesis by (auto intro: that)
  next
    case False
    with get_wrong [OF assms, of K t v V] Some tv show thesis by (auto intro: that)
  qed
qed

text \<open>Two parked values reach their tasks, and the content is what it was: how a service is built.\<close>

lemma two_hand_overs:
  assumes "ready r" and "type_id K \<noteq> type_id L"
    and "content r (type_id K) = None" and "content r (type_id L) = None"
  obtains r1 r2 r3 r4 where "put K V v r = Some (Done (), r1)" "put L W w r1 = Some (Done (), r2)"
    "get K V r2 = Some (Inr v, r3)" "get L W r3 = Some (Inr w, r4)" "ready r4" "content r4 = content r"
proof -
  obtain r1 where p1: "put K V v r = Some (Done (), r1)" "ready r1"
      "content r1 = (content r)(type_id K \<mapsto> (type_id V, v))"
    using put_free [OF assms(1,3)] by blast
  have "content r1 (type_id L) = None" using p1(3) assms(2,4) by simp
  then obtain r2 where p2: "put L W w r1 = Some (Done (), r2)" "ready r2"
      "content r2 = (content r1)(type_id L \<mapsto> (type_id W, w))"
    using put_free [OF p1(2)] by blast
  have "content r2 (type_id K) = Some (type_id V, v)" using p1(3) p2(3) assms(2) by simp
  then obtain r3 where g1: "get K V r2 = Some (Inr v, r3)" "ready r3"
      "content r3 = (content r2)(type_id K := None)"
    using get_found [OF p2(2)] by blast
  have "content r3 (type_id L) = Some (type_id W, w)" using p2(3) g1(3) assms(2) by simp
  then obtain r4 where g2: "get L W r3 = Some (Inr w, r4)" "ready r4"
      "content r4 = (content r3)(type_id L := None)"
    using get_found [OF g1(2)] by blast
  have "content r4 = content r"
    using p1(3) p2(3) g1(3) g2(3) assms(3,4) by (auto simp: fun_eq_iff)
  from that [OF p1(1) p2(1) g1(1) g2(1,2) this] show thesis .
qed

lemma get_twice_fails:
  assumes "ready r"
  obtains res r1 r2 where "get K V r = Some (res, r1)" "get K W r1 = Some (Inl (not_installed K), r2)"
  using get_consumes [OF assms, of K V] get_missing [of _ K W] by metis

end

interpretation slot_reg: slot_registry install registry_take installed registry_ok
proof unfold_locales
  fix r :: "'a registry" and K V v
  assume "registry_ok r" "installed r (type_id K) = None"
  then show "\<exists>r'. install K V v r = Some (Done (), r') \<and> registry_ok r' \<and>
      installed r' = (installed r)(type_id K \<mapsto> (type_id V, v))"
    by (auto simp: registry_defs fun_eq_iff split: option.splits)
next
  fix r :: "'a registry" and K V v
  assume "registry_ok r" "installed r (type_id K) \<noteq> None"
  then show "\<exists>r'. install K V v r
        = Some (Panic (type_name K @ '' channel already installed''), r') \<and>
      registry_ok r' \<and> installed r' = installed r"
    by (auto simp: registry_defs fun_eq_iff split: option.splits)
next
  fix r :: "'a registry" and K V v
  assume "registry_ok r" "installed r (type_id K) = Some (type_id V, v)"
  then show "\<exists>r'. registry_take K V r = Some (Inr v, r') \<and> registry_ok r' \<and>
      installed r' = (installed r)(type_id K := None)"
    by (auto simp: registry_defs fun_eq_iff split: option.splits)
next
  fix r :: "'a registry" and K V
  assume "registry_ok r" "installed r (type_id K) = None"
  then show "\<exists>r'. registry_take K V r = Some (Inl (not_installed K), r') \<and> registry_ok r' \<and>
      installed r' = installed r"
    by (auto simp: registry_defs fun_eq_iff split: option.splits)
next
  fix r :: "'a registry" and K V t v
  assume "registry_ok r" "installed r (type_id K) = Some (t, v)" "t \<noteq> type_id V"
  then show "\<exists>r'. registry_take K V r = Some (Inl (wrong_type K V), r') \<and> registry_ok r' \<and>
      installed r' = (installed r)(type_id K := None)"
    by (auto simp: registry_defs fun_eq_iff split: option.splits)
qed

section \<open>Properties\<close>

text \<open>
  A value installed for a task type is handed to that task exactly once: after installing into
  a free slot, taking with the same value type returns the value and restores the registry's
  content, and every later take for that task type is the "not installed" error.
\<close>

lemma install_take_roundtrip:
  assumes "registry_ok r" and "installed r (type_id K) = None"
  shows "\<exists>r1 r2. install K V v r = Some (Done (), r1)
           \<and> registry_take K V r1 = Some (Inr v, r2)
           \<and> registry_ok r2 \<and> installed r2 = installed r
           \<and> (\<forall>W. \<exists>r3. registry_take K W r2 = Some (Inl (not_installed K), r3))"
proof -
  obtain r1 r2 where r: "install K V v r = Some (Done (), r1)"
      "registry_take K V r1 = Some (Inr v, r2)" "registry_ok r2" "installed r2 = installed r"
    by (rule slot_reg.put_get_roundtrip [OF assms])
  with slot_reg.get_missing [OF r(3), of K] assms(2) show ?thesis by auto
qed

lemma install_take_roundtrip_witness:
  "\<exists>r1 r2. install (Rust_Type 1 ''KeyA'') (Rust_Type 9 ''u8'') (5::nat) None = Some (Done (), r1)
     \<and> registry_take (Rust_Type 1 ''KeyA'') (Rust_Type 9 ''u8'') r1 = Some (Inr 5, r2)
     \<and> registry_ok r2 \<and> installed r2 = installed None
     \<and> (\<forall>W. \<exists>r3. registry_take (Rust_Type 1 ''KeyA'') W r2
               = Some (Inl (not_installed (Rust_Type 1 ''KeyA'')), r3))"
  by (rule install_take_roundtrip) simp_all

text \<open>
  A double install panics with the task's name, keeps the value that was installed first (for
  its own slot and every other one), and leaves the lock free and unpoisoned, because the guard is
  dropped before the panic.
\<close>

lemma double_install_panics:
  assumes "registry_ok r" and "installed r (type_id K) \<noteq> None"
  shows "\<exists>r'. install K V v r = Some (Panic (type_name K @ '' channel already installed''), r')
           \<and> registry_ok r' \<and> installed r' = installed r"
  by (rule slot_reg.put_taken [OF assms])

lemma double_install_panics_witness:
  "\<exists>r'. install (Rust_Type 3 ''KeyC'') (Rust_Type 9 ''u8'') (2::nat)
          (Some \<lparr>slots_map = [3 \<mapsto> \<lparr>boxed_type = 9, boxed_value = 1\<rparr>],
                 locked = False, poisoned = False\<rparr>)
        = Some (Panic (''KeyC'' @ '' channel already installed''), r')
     \<and> registry_ok r'
     \<and> installed r' = installed (Some \<lparr>slots_map = [3 \<mapsto> \<lparr>boxed_type = 9, boxed_value = 1::nat\<rparr>],
                 locked = False, poisoned = False\<rparr>)"
  using double_install_panics
    [of "Some \<lparr>slots_map = [3 \<mapsto> \<lparr>boxed_type = 9, boxed_value = 1::nat\<rparr>],
               locked = False, poisoned = False\<rparr>"
        "Rust_Type 3 ''KeyC''" "Rust_Type 9 ''u8''" 2]
  by (simp add: registry_ok_def installed_def)

text \<open>
  A history of calls, as the threads of the process issue them one critical section after the
  other, and its meaning on a plain map.
\<close>

datatype 'v registry_call =
  Install rust_type rust_type 'v
| Take rust_type rust_type

datatype 'v registry_result =
  Installed "unit exec"
| Taken "cu_error + 'v"

fun registry_run ::
    "'v registry_call list \<Rightarrow> 'v registry \<Rightarrow> ('v registry_result list \<times> 'v registry) option" where
  "registry_run [] r = Some ([], r)"
| "registry_run (Install K V v # cs) r =
     (case install K V v r of
        None \<Rightarrow> None
      | Some (u, r) \<Rightarrow> map_option (\<lambda>(us, r). (Installed u # us, r)) (registry_run cs r))"
| "registry_run (Take K V # cs) r =
     (case registry_take K V r of
        None \<Rightarrow> None
      | Some (u, r) \<Rightarrow> map_option (\<lambda>(us, r). (Taken u # us, r)) (registry_run cs r))"

fun spec_call ::
    "'v registry_call \<Rightarrow> (nat \<rightharpoonup> nat \<times> 'v) \<Rightarrow> 'v registry_result \<times> (nat \<rightharpoonup> nat \<times> 'v)" where
  "spec_call (Install K V v) m =
     (case m (type_id K) of
        None \<Rightarrow> (Installed (Done ()), m(type_id K \<mapsto> (type_id V, v)))
      | Some _ \<Rightarrow> (Installed (Panic (type_name K @ '' channel already installed'')), m))"
| "spec_call (Take K V) m =
     (case m (type_id K) of
        None \<Rightarrow> (Taken (Inl (not_installed K)), m)
      | Some (t, v) \<Rightarrow>
          (Taken (if t = type_id V then Inr v else Inl (wrong_type K V)), m(type_id K := None)))"

fun spec_run ::
    "'v registry_call list \<Rightarrow> (nat \<rightharpoonup> nat \<times> 'v) \<Rightarrow>
     'v registry_result list \<times> (nat \<rightharpoonup> nat \<times> 'v)" where
  "spec_run [] m = ([], m)"
| "spec_run (c # cs) m =
     (let (u, m) = spec_call c m; (us, m) = spec_run cs m in (u # us, m))"

lemma registry_run_refines:
  "registry_ok r \<Longrightarrow>
     \<exists>us r'. registry_run cs r = Some (us, r') \<and> registry_ok r' \<and>
       spec_run cs (installed r) = (us, installed r')"
proof (induction cs arbitrary: r)
  case (Cons c cs)
  show ?case
  proof (cases c)
    case (Install K V v)
    obtain u r1 where "install K V v r = Some (u, r1)" "registry_ok r1"
        "spec_call c (installed r) = (Installed u, installed r1)"
      using slot_reg.put_free [OF Cons.prems, of K V v] slot_reg.put_taken [OF Cons.prems, of K V v]
      by (cases "installed r (type_id K)") (auto simp: Install)
    with Cons.IH [of r1] Install show ?thesis by auto
  next
    case (Take K V)
    obtain u r1 where "registry_take K V r = Some (u, r1)" "registry_ok r1"
        "spec_call c (installed r) = (Taken u, installed r1)"
    proof (cases "installed r (type_id K)")
      case None
      with slot_reg.get_missing [OF Cons.prems None, of V] Take that show thesis by auto
    next
      case (Some tv)
      then obtain t v where "installed r (type_id K) = Some (t, v)" by (cases tv) auto
      with slot_reg.get_found [OF Cons.prems, of K V v]
        slot_reg.get_wrong [OF Cons.prems, of K t v V] Take that
      show thesis by (cases "t = type_id V") auto
    qed
    with Cons.IH [of r1] Take show ?thesis by auto
  qed
qed simp

text \<open>
  From process start, every history of install and take calls, misuse included, runs without
  a blocked call or a poisoned lock, and returns call by call what a plain map from task types to
  typed values would return: the lock, the lazy initialisation and the boxed dynamic typing are an
  implementation of that map.
\<close>

lemma registry_refines_map:
  "\<exists>us r'. registry_run cs None = Some (us, r') \<and> registry_ok r' \<and>
     spec_run cs Map.empty = (us, installed r')"
  using registry_run_refines [of None cs] by simp

end
