(* ===== verification/Registry_Concurrent.thy ===== *)
theory Registry_Concurrent
  imports Registry
begin

text \<open>
  \<open>crates/msrs-transport/src/registry.rs\<close> under concurrent use: any number of threads call
  \<open>install\<close> and \<open>take\<close>, and the atomic actions of the calls (creating the map, locking, the lookup,
  the update, releasing the guard, the panic or the downcast) interleave in any order. The history
  of a run records every call, the moment at which it takes effect and its return.
\<close>

section \<open>Threads and their steps\<close>

text \<open>
  Where a thread is in the code. \<open>Outside\<close>: it runs no call; \<open>Entered\<close>: before \<open>get_or_init\<close>;
  \<open>Waiting\<close>: at \<open>lock()\<close>; \<open>Holding\<close>: with the guard, before the lookup; \<open>Refusing\<close>: the key was
  found, before \<open>drop(guard)\<close>; \<open>Panicking\<close>: before \<open>panic!\<close>; \<open>Inserting\<close>: the key was free, before
  \<open>insert\<close>; \<open>Inserted\<close>: before the end of \<open>install\<close>; \<open>Removed\<close>: before the guard of \<open>take\<close>, a
  temporary, is dropped; \<open>Downcasting\<close>: before \<open>downcast\<close>.
\<close>

datatype 'v reg_pc =
    Outside
  | Entered "'v registry_call"
  | Waiting "'v registry_call"
  | Holding "'v registry_call"
  | Refusing rust_type
  | Panicking rust_type
  | Inserting rust_type rust_type 'v
  | Inserted
  | Removed rust_type rust_type "'v boxed_any option"
  | Downcasting rust_type rust_type "'v boxed_any option"

datatype 'v reg_event =
    Invoked nat "'v registry_call"
  | Effect nat "'v registry_call" "'v registry_result"
  | Returned nat "'v registry_result"

record 'v reg_state =
  shared :: "'v registry"
  pcs :: "nat \<Rightarrow> 'v reg_pc"
  history :: "'v reg_event list"

definition reg_start :: "'v reg_state" where
  "reg_start = \<lparr>shared = None, pcs = (\<lambda>_. Outside), history = []\<rparr>"

definition install_refused :: "rust_type \<Rightarrow> 'v registry_result" where
  "install_refused K = Installed (Panic (type_name K @ '' channel already installed''))"

text \<open>What \<open>take\<close> makes of the removed box: \<open>ok_or_else\<close>, then \<open>downcast\<close>.\<close>

fun take_result :: "rust_type \<Rightarrow> rust_type \<Rightarrow> 'v boxed_any option \<Rightarrow> cu_error + 'v" where
  "take_result K V None = Inl (not_installed K)"
| "take_result K V (Some boxed) =
     (if boxed_type boxed = type_id V then Inr (boxed_value boxed) else Inl (wrong_type K V))"

definition get_or_init :: "'v registry \<Rightarrow> 'v slots_mutex" where
  "get_or_init r = (case r of None \<Rightarrow> fresh_mutex | Some m \<Rightarrow> m)"

text \<open>
  The step of one thread: the registry and its own position before, the events it records, the
  registry and position after. \<open>lock\<close> is possible only while no other guard is alive; a panic
  without a live guard leaves the lock alone.
\<close>

inductive reg_move ::
    "nat \<Rightarrow> 'v registry \<Rightarrow> 'v reg_pc \<Rightarrow> 'v reg_event list \<Rightarrow> 'v registry \<Rightarrow> 'v reg_pc \<Rightarrow> bool"
  for t :: nat where
  call: "reg_move t r Outside [Invoked t c] r (Entered c)"
| init: "reg_move t r (Entered c) [] (Some (get_or_init r)) (Waiting c)"
| lock: "\<not> locked m \<Longrightarrow>
    reg_move t (Some m) (Waiting c) [] (Some (m\<lparr>locked := True\<rparr>)) (Holding c)"
| found: "slots_map m (type_id K) \<noteq> None \<Longrightarrow>
    reg_move t (Some m) (Holding (Install K V v)) [Effect t (Install K V v) (install_refused K)]
      (Some m) (Refusing K)"
| dropped: "reg_move t (Some m) (Refusing K) [] (Some (drop_guard m)) (Panicking K)"
| panics: "reg_move t r (Panicking K) [Returned t (install_refused K)] r Outside"
| free: "slots_map m (type_id K) = None \<Longrightarrow>
    reg_move t (Some m) (Holding (Install K V v)) [] (Some m) (Inserting K V v)"
| insert: "reg_move t (Some m) (Inserting K V v) [Effect t (Install K V v) (Installed (Done ()))]
      (Some (m\<lparr>slots_map := (slots_map m)
         (type_id K \<mapsto> \<lparr>boxed_type = type_id V, boxed_value = v\<rparr>)\<rparr>)) Inserted"
| leave: "reg_move t (Some m) Inserted [Returned t (Installed (Done ()))]
      (Some (drop_guard m)) Outside"
| remove: "b = slots_map m (type_id K) \<Longrightarrow>
    reg_move t (Some m) (Holding (Take K V)) [Effect t (Take K V) (Taken (take_result K V b))]
      (Some (m\<lparr>slots_map := (slots_map m)(type_id K := None)\<rparr>)) (Removed K V b)"
| released: "reg_move t (Some m) (Removed K V b) [] (Some (drop_guard m)) (Downcasting K V b)"
| downcast: "reg_move t r (Downcasting K V b) [Returned t (Taken (take_result K V b))] r Outside"

inductive_cases reg_moveE [elim!]:
  "reg_move t r Outside es r' p'"
  "reg_move t r (Entered c) es r' p'"
  "reg_move t r (Waiting c) es r' p'"
  "reg_move t r (Holding c) es r' p'"
  "reg_move t r (Refusing K) es r' p'"
  "reg_move t r (Panicking K) es r' p'"
  "reg_move t r (Inserting K V v) es r' p'"
  "reg_move t r Inserted es r' p'"
  "reg_move t r (Removed K V b) es r' p'"
  "reg_move t r (Downcasting K V b) es r' p'"

text \<open>A step of the system is a step of one of its threads.\<close>

inductive reg_step :: "nat \<Rightarrow> 'v reg_state \<Rightarrow> 'v reg_state \<Rightarrow> bool" where
  "reg_move t (shared s) (pcs s t) es r' p' \<Longrightarrow>
   reg_step t s \<lparr>shared = r', pcs = (pcs s)(t := p'), history = history s @ es\<rparr>"

lemma reg_stepE:
  assumes "reg_step t s s'"
  obtains es r' p' where "reg_move t (shared s) (pcs s t) es r' p'"
    "s' = \<lparr>shared = r', pcs = (pcs s)(t := p'), history = history s @ es\<rparr>"
  using assms by (auto elim: reg_step.cases)

text \<open>The states reached from process start in \<open>n\<close> steps.\<close>

inductive reg_reach :: "nat \<Rightarrow> 'v reg_state \<Rightarrow> bool" where
  start: "reg_reach 0 reg_start"
| step: "reg_reach n s \<Longrightarrow> reg_step t s s' \<Longrightarrow> reg_reach (Suc n) s'"

section \<open>A single call is the sequential operation\<close>

text \<open>Steps of one thread with no other thread in between.\<close>

inductive reg_alone ::
    "nat \<Rightarrow> 'v registry \<Rightarrow> 'v reg_pc \<Rightarrow> 'v reg_event list \<Rightarrow> 'v registry \<Rightarrow> 'v reg_pc \<Rightarrow> bool"
  for t :: nat where
  alone_end: "reg_alone t r p [] r p"
| alone_step: "reg_move t r p es r1 p1 \<Longrightarrow> reg_alone t r1 p1 es' r' p' \<Longrightarrow>
    reg_alone t r p (es @ es') r' p'"

lemma reg_alone_one: "reg_move t r p es r1 p1 \<Longrightarrow> reg_alone t r1 p1 es' r' p' \<Longrightarrow> fs = es @ es' \<Longrightarrow>
    reg_alone t r p fs r' p'"
  by (auto intro: reg_alone.alone_step)

lemma slots_get_or_init:
  "slots r = (if locked (get_or_init r) then None else Some ((get_or_init r)\<lparr>locked := True\<rparr>))"
  by (simp add: slots_def get_or_init_def Let_def)

lemma install_is_alone:
  assumes "install K V v r = Some (u, r')"
  shows "reg_alone t r Outside
           [Invoked t (Install K V v), Effect t (Install K V v) (Installed u), Returned t (Installed u)]
           r' Outside"
proof -
  let ?m = "get_or_init r" and ?c = "Install K V v"
  let ?g = "?m\<lparr>locked := True\<rparr>"
  have free: "\<not> locked ?m"
    using assms by (auto simp: install_def slots_get_or_init split: if_splits)
  have start: "reg_alone t (Some ?g) (Holding ?c) es r' Outside \<Longrightarrow>
      reg_alone t r Outside (Invoked t ?c # es) r' Outside" for es
    by (rule reg_alone_one [OF reg_move.call],
        rule reg_alone_one [OF reg_move.init],
        rule reg_alone_one [OF reg_move.lock [OF free]]) simp_all
  show ?thesis
  proof (cases "slots_map ?m (type_id K)")
    case None
    with assms free have ur: "u = Done ()" "r' = Some (drop_guard (?g\<lparr>slots_map := (slots_map ?g)
        (type_id K \<mapsto> \<lparr>boxed_type = type_id V, boxed_value = v\<rparr>)\<rparr>))"
      by (auto simp: install_def slots_get_or_init Let_def)
    show ?thesis
      by (rule start, unfold ur, rule reg_alone_one [OF reg_move.free],
          simp add: None, rule reg_alone_one [OF reg_move.insert],
          rule reg_alone_one [OF reg_move.leave], rule reg_alone.alone_end) simp_all
  next
    case (Some b)
    with assms free have ur: "Installed u = install_refused K" "r' = Some (drop_guard ?g)"
      by (auto simp: install_def slots_get_or_init Let_def install_refused_def drop_guard_def unwind_def)
    show ?thesis
      by (rule start, unfold ur, rule reg_alone_one [OF reg_move.found],
          simp add: Some, rule reg_alone_one [OF reg_move.dropped],
          rule reg_alone_one [OF reg_move.panics], rule reg_alone.alone_end) simp_all
  qed
qed

lemma take_is_alone:
  assumes "registry_take K V r = Some (u, r')"
  shows "reg_alone t r Outside
           [Invoked t (Take K V), Effect t (Take K V) (Taken u), Returned t (Taken u)] r' Outside"
proof -
  let ?m = "get_or_init r" and ?c = "Take K V"
  let ?g = "?m\<lparr>locked := True\<rparr>" and ?b = "slots_map (get_or_init r) (type_id K)"
  have free: "\<not> locked ?m"
    using assms by (auto simp: registry_take_def slots_get_or_init split: if_splits)
  have ur: "u = take_result K V ?b"
      "r' = Some (drop_guard (?g\<lparr>slots_map := (slots_map ?g)(type_id K := None)\<rparr>))"
    using assms free
    by (auto simp: registry_take_def slots_get_or_init Let_def split: option.splits if_splits)
  show ?thesis
    unfolding ur
    by (rule reg_alone_one [OF reg_move.call],
        rule reg_alone_one [OF reg_move.init],
        rule reg_alone_one [OF reg_move.lock [OF free]],
        rule reg_alone_one [OF reg_move.remove [of ?b]], simp,
        rule reg_alone_one [OF reg_move.released],
        rule reg_alone_one [OF reg_move.downcast], rule reg_alone.alone_end) simp_all
qed

section \<open>The invariant\<close>

text \<open>Between \<open>lock\<close> and the drop of the guard.\<close>

primrec holds_guard :: "'v reg_pc \<Rightarrow> bool" where
  "holds_guard Outside = False"
| "holds_guard (Entered c) = False"
| "holds_guard (Waiting c) = False"
| "holds_guard (Holding c) = True"
| "holds_guard (Refusing K) = True"
| "holds_guard (Panicking K) = False"
| "holds_guard (Inserting K V v) = True"
| "holds_guard Inserted = True"
| "holds_guard (Removed K V b) = True"
| "holds_guard (Downcasting K V b) = False"

text \<open>A key that the thread has found free and is about to fill.\<close>

fun found_free :: "'v reg_pc \<Rightarrow> nat option" where
  "found_free (Inserting K V v) = Some (type_id K)"
| "found_free _ = None"

text \<open>Before the call has passed \<open>get_or_init\<close>.\<close>

fun may_be_first :: "'v reg_pc \<Rightarrow> bool" where
  "may_be_first Outside = True"
| "may_be_first (Entered c) = True"
| "may_be_first _ = False"

text \<open>
  The lock is held exactly by the one thread between \<open>lock\<close> and its drop, it is never poisoned, the
  map exists once a call has passed \<open>get_or_init\<close>, and a key found free is still free at \<open>insert\<close>.
\<close>

definition lock_inv :: "'v reg_state \<Rightarrow> bool" where
  "lock_inv s \<longleftrightarrow>
     (\<exists>holder. (\<forall>t. holds_guard (pcs s t) \<longleftrightarrow> holder = Some t)
             \<and> (locked (get_or_init (shared s)) \<longleftrightarrow> holder \<noteq> None))
   \<and> \<not> poisoned (get_or_init (shared s))
   \<and> (\<forall>t k. found_free (pcs s t) = Some k \<longrightarrow> installed (shared s) k = None)
   \<and> (\<forall>t. shared s = None \<longrightarrow> may_be_first (pcs s t))"

text \<open>What a move does, seen from the lock: only a holder touches the content or frees the lock.\<close>

lemma reg_move_lock:
  assumes "reg_move t r p es r' p'"
  shows "(holds_guard p' = holds_guard p \<and> locked (get_or_init r') = locked (get_or_init r))
       \<or> (\<not> holds_guard p \<and> holds_guard p' \<and> \<not> locked (get_or_init r) \<and> locked (get_or_init r'))
       \<or> (holds_guard p \<and> \<not> holds_guard p' \<and> \<not> locked (get_or_init r'))"
    and "poisoned (get_or_init r') = poisoned (get_or_init r)"
    and "holds_guard p \<or> installed r' = installed r"
    and "found_free p' = Some k \<Longrightarrow> holds_guard p' \<and> installed r' k = None"
    and "r' = None \<Longrightarrow> r = None \<and> may_be_first p'"
proof -
  show "(holds_guard p' = holds_guard p \<and> locked (get_or_init r') = locked (get_or_init r))
      \<or> (\<not> holds_guard p \<and> holds_guard p' \<and> \<not> locked (get_or_init r) \<and> locked (get_or_init r'))
      \<or> (holds_guard p \<and> \<not> holds_guard p' \<and> \<not> locked (get_or_init r'))"
    using assms by cases (simp_all add: get_or_init_def drop_guard_def split: option.split)
  show "poisoned (get_or_init r') = poisoned (get_or_init r)"
    using assms by cases (simp_all add: get_or_init_def drop_guard_def split: option.split)
  show "holds_guard p \<or> installed r' = installed r"
    using assms
    by cases (simp_all add: get_or_init_def drop_guard_def installed_def fresh_mutex_def fun_eq_iff
        split: option.split)
  show "holds_guard p' \<and> installed r' k = None" if "found_free p' = Some k"
    using assms that by cases (simp_all add: installed_def)
  show "r = None \<and> may_be_first p'" if "r' = None"
    using assms that by cases simp_all
qed

lemma found_free_holds: "found_free p = Some k \<Longrightarrow> holds_guard p"
  by (cases p) simp_all

lemma lock_inv_start: "lock_inv reg_start"
  by (simp add: lock_inv_def reg_start_def get_or_init_def fresh_mutex_def)

lemma lock_inv_step:
  assumes "reg_step t s s'" and "lock_inv s"
  shows "lock_inv s'"
  using assms(1)
proof (rule reg_stepE)
  fix es r' p'
  assume move: "reg_move t (shared s) (pcs s t) es r' p'"
    and s': "s' = \<lparr>shared = r', pcs = (pcs s)(t := p'), history = history s @ es\<rparr>"
  note m = reg_move_lock [OF move]
  obtain holder where holder: "\<And>t. holds_guard (pcs s t) \<longleftrightarrow> holder = Some t"
      "locked (get_or_init (shared s)) \<longleftrightarrow> holder \<noteq> None"
    using assms(2) unfolding lock_inv_def by auto
  let ?holder = "if holds_guard p' then Some t else if holds_guard (pcs s t) then None else holder"
  have "(holds_guard (pcs s' u) \<longleftrightarrow> ?holder = Some u) \<and>
      (locked (get_or_init (shared s')) \<longleftrightarrow> ?holder \<noteq> None)" for u
    using m(1) holder by (auto simp: s')
  moreover have "installed (shared s') k = None" if "found_free (pcs s' u) = Some k" for u k
  proof (cases "u = t")
    case True
    with that m(4) show ?thesis by (simp add: s')
  next
    case False
    with that have u: "found_free (pcs s u) = Some k" by (simp add: s')
    from found_free_holds [OF this] False holder have "\<not> holds_guard (pcs s t)" by auto
    with m(3) u assms(2) show ?thesis by (simp add: s' lock_inv_def)
  qed
  ultimately show ?thesis
    unfolding lock_inv_def using m(2,5) assms(2) by (auto simp: s' lock_inv_def)
qed

text \<open>What the history of a thread says about where it is.\<close>

datatype 'v reg_phase = Idle_Phase | Called "'v registry_call" | Effected "'v registry_result"

fun phase_step :: "nat \<Rightarrow> 'v reg_event \<Rightarrow> 'v reg_phase option \<Rightarrow> 'v reg_phase option" where
  "phase_step t (Invoked t' c) p =
     (if t' \<noteq> t then p else if p = Some Idle_Phase then Some (Called c) else None)"
| "phase_step t (Effect t' c u) p =
     (if t' \<noteq> t then p else if p = Some (Called c) then Some (Effected u) else None)"
| "phase_step t (Returned t' u) p =
     (if t' \<noteq> t then p else if p = Some (Effected u) then Some Idle_Phase else None)"

definition thread_phase :: "nat \<Rightarrow> 'v reg_event list \<Rightarrow> 'v reg_phase option" where
  "thread_phase t h = fold (phase_step t) h (Some Idle_Phase)"

fun effects_of :: "'v reg_event list \<Rightarrow> ('v registry_call \<times> 'v registry_result) list" where
  "effects_of [] = []"
| "effects_of (Effect t c u # h) = (c, u) # effects_of h"
| "effects_of (_ # h) = effects_of h"

text \<open>
  A history is linearized when every thread alternates between calling, taking effect and returning
  what the effect determined, and the effects in their order are what the plain map of
  \<open>spec_run\<close> returns. A call takes effect between its invocation and its return, so the order of
  the effects respects the order of calls that do not overlap.
\<close>

definition linearized :: "'v reg_event list \<Rightarrow> bool" where
  "linearized h \<longleftrightarrow>
     (\<forall>t. thread_phase t h \<noteq> None)
   \<and> fst (spec_run (map fst (effects_of h)) Map.empty) = map snd (effects_of h)"

primrec pc_phase :: "'v reg_pc \<Rightarrow> 'v reg_phase" where
  "pc_phase Outside = Idle_Phase"
| "pc_phase (Entered c) = Called c"
| "pc_phase (Waiting c) = Called c"
| "pc_phase (Holding c) = Called c"
| "pc_phase (Refusing K) = Effected (install_refused K)"
| "pc_phase (Panicking K) = Effected (install_refused K)"
| "pc_phase (Inserting K V v) = Called (Install K V v)"
| "pc_phase Inserted = Effected (Installed (Done ()))"
| "pc_phase (Removed K V b) = Effected (Taken (take_result K V b))"
| "pc_phase (Downcasting K V b) = Effected (Taken (take_result K V b))"

lemma thread_phase_Nil [simp]: "thread_phase t [] = Some Idle_Phase"
  by (simp add: thread_phase_def)

lemma thread_phase_append [simp]:
  "thread_phase t (h @ es) = fold (phase_step t) es (thread_phase t h)"
  by (simp add: thread_phase_def)

lemma effects_of_append [simp]: "effects_of (h @ h') = effects_of h @ effects_of h'"
  by (induction h rule: effects_of.induct) simp_all

lemma spec_run_append:
  "spec_run (cs @ ds) m =
     (let (us, m) = spec_run cs m; (vs, m) = spec_run ds m in (us @ vs, m))"
  by (induction cs arbitrary: m) (simp_all add: split_def Let_def)

text \<open>A move keeps the thread's own history and position together, and is no event of another.\<close>

lemma reg_move_phase:
  assumes "reg_move t r p es r' p'"
  shows "fold (phase_step t) es (Some (pc_phase p)) = Some (pc_phase p')"
    and "t' \<noteq> t \<Longrightarrow> fold (phase_step t') es q = q"
  using assms by (cases, auto)+

definition phases_inv :: "'v reg_state \<Rightarrow> bool" where
  "phases_inv s \<longleftrightarrow> (\<forall>t. thread_phase t (history s) = Some (pc_phase (pcs s t)))"

lemma phases_inv_step: "reg_step t s s' \<Longrightarrow> phases_inv s \<Longrightarrow> phases_inv s'"
  by (auto simp: phases_inv_def reg_move_phase elim!: reg_stepE)

text \<open>The effects so far, run on the plain map, give the recorded results and the current content.\<close>

definition effects_inv :: "'v reg_state \<Rightarrow> bool" where
  "effects_inv s \<longleftrightarrow>
     spec_run (map fst (effects_of (history s))) Map.empty
       = (map snd (effects_of (history s)), installed (shared s))"

lemma reg_move_effects:
  assumes "reg_move t r p es r' p'"
    and "\<And>k. found_free p = Some k \<Longrightarrow> installed r k = None"
  shows "spec_run (map fst (effects_of es)) (installed r) = (map snd (effects_of es), installed r')"
  using assms
  by cases (auto simp: installed_def get_or_init_def fresh_mutex_def drop_guard_def install_refused_def
      fun_eq_iff split: option.splits)

lemma effects_inv_step:
  assumes "reg_step t s s'" and "lock_inv s" and "effects_inv s"
  shows "effects_inv s'"
  using assms(1)
proof (rule reg_stepE)
  fix es r' p'
  assume move: "reg_move t (shared s) (pcs s t) es r' p'"
    and s': "s' = \<lparr>shared = r', pcs = (pcs s)(t := p'), history = history s @ es\<rparr>"
  have "spec_run (map fst (effects_of es)) (installed (shared s))
      = (map snd (effects_of es), installed r')"
    using move
    by (rule reg_move_effects) (use assms(2) in \<open>auto simp: lock_inv_def\<close>)
  with assms(3) show ?thesis by (simp add: s' effects_inv_def spec_run_append)
qed

lemma reg_reach_inv:
  assumes "reg_reach n s"
  shows "lock_inv s" "phases_inv s" "effects_inv s"
proof -
  have "lock_inv s \<and> phases_inv s \<and> effects_inv s"
    using assms
  proof induction
    case start
    show ?case
      by (simp add: lock_inv_start) (simp add: phases_inv_def effects_inv_def reg_start_def)
  next
    case (step n s t s')
    then show ?case
      using lock_inv_step phases_inv_step effects_inv_step by blast
  qed
  then show "lock_inv s" "phases_inv s" "effects_inv s" by simp_all
qed

section \<open>Progress\<close>

text \<open>How many steps a thread has left in its call: every path through either operation has six.\<close>

primrec steps_left :: "'v reg_pc \<Rightarrow> nat" where
  "steps_left Outside = 0"
| "steps_left (Entered c) = 5"
| "steps_left (Waiting c) = 4"
| "steps_left (Holding c) = 3"
| "steps_left (Refusing K) = 2"
| "steps_left (Panicking K) = 1"
| "steps_left (Inserting K V v) = 2"
| "steps_left Inserted = 1"
| "steps_left (Removed K V b) = 2"
| "steps_left (Downcasting K V b) = 1"

primrec is_invoked :: "'v reg_event \<Rightarrow> bool" where
  "is_invoked (Invoked t c) = True"
| "is_invoked (Effect t c u) = False"
| "is_invoked (Returned t u) = False"

definition calls_made :: "'v reg_event list \<Rightarrow> nat" where
  "calls_made h = length (filter is_invoked h)"

lemma calls_made_append [simp]: "calls_made (h @ h') = calls_made h + calls_made h'"
  by (simp add: calls_made_def)

lemma reg_move_left:
  assumes "reg_move t r p es r' p'"
  shows "Suc (steps_left p') = steps_left p + 6 * calls_made es"
  using assms by cases (simp_all add: calls_made_def)

text \<open>Steps done and steps left add up to six for every call made.\<close>

lemma reg_reach_steps:
  assumes "reg_reach n s"
  shows "\<exists>A. finite A \<and> (\<forall>t. t \<notin> A \<longrightarrow> pcs s t = Outside)
      \<and> n + (\<Sum>t\<in>A. steps_left (pcs s t)) = 6 * calls_made (history s)"
  using assms
proof induction
  case start
  show ?case by (rule exI [of _ "{}"]) (simp add: reg_start_def calls_made_def)
next
  case (step n s t s')
  then obtain A where A: "finite A" "\<And>t. t \<notin> A \<Longrightarrow> pcs s t = Outside"
      "n + (\<Sum>t\<in>A. steps_left (pcs s t)) = 6 * calls_made (history s)"
    by blast
  from step.hyps(2) obtain es r' p' where move: "reg_move t (shared s) (pcs s t) es r' p'"
    and s': "s' = \<lparr>shared = r', pcs = (pcs s)(t := p'), history = history s @ es\<rparr>"
    by (rule reg_stepE)
  have rest: "(\<Sum>u\<in>A - {t}. steps_left (pcs s' u)) = (\<Sum>u\<in>A - {t}. steps_left (pcs s u))"
    by (rule sum.cong) (simp_all add: s')
  have "(\<Sum>u\<in>A. steps_left (pcs s u)) = steps_left (pcs s t) + (\<Sum>u\<in>A - {t}. steps_left (pcs s u))"
    using A(1,2) by (cases "t \<in> A") (simp_all add: sum.remove)
  moreover have "(\<Sum>u\<in>insert t A. steps_left (pcs s' u))
      = steps_left p' + (\<Sum>u\<in>A - {t}. steps_left (pcs s u))"
    using A(1) rest by (simp add: sum.insert_remove s')
  ultimately have "Suc n + (\<Sum>u\<in>insert t A. steps_left (pcs s' u)) = 6 * calls_made (history s')"
    using A(3) reg_move_left [OF move] by (simp add: s')
  moreover have "\<forall>u. u \<notin> insert t A \<longrightarrow> pcs s' u = Outside"
    using A(2) by (simp add: s')
  ultimately show ?case using A(1) by (intro exI [of _ "insert t A"]) simp
qed

text \<open>A thread inside a call can move, unless it waits for a lock that another thread holds.\<close>

lemma reg_can_move:
  assumes "lock_inv s" and "pcs s t \<noteq> Outside"
    and "\<And>c. pcs s t = Waiting c \<Longrightarrow> \<not> locked (get_or_init (shared s))"
  shows "\<exists>s'. reg_step t s s'"
proof -
  have go: "\<exists>s'. reg_step t s s'" if "reg_move t (shared s) (pcs s t) es r' p'" for es r' p'
    using that by (blast intro: reg_step.intros)
  have init: "\<exists>m. shared s = Some m" if "\<not> may_be_first (pcs s t)"
    using assms(1) that by (auto simp: lock_inv_def)
  show ?thesis
  proof (cases "pcs s t")
    case (Waiting c)
    with init obtain m where m: "shared s = Some m" by auto
    with Waiting assms(3) have "\<not> locked m" by (simp add: get_or_init_def)
    from go [of "[]", unfolded Waiting m, OF reg_move.lock [OF this]] show ?thesis .
  next
    case (Holding c)
    with init obtain m where m: "shared s = Some m" by auto
    show ?thesis
    proof (cases c)
      case (Install K V v)
      note go = go [unfolded Holding m Install]
      show ?thesis
      proof (cases "slots_map m (type_id K)")
        case None
        from go [OF reg_move.free [OF this]] show ?thesis .
      next
        case (Some b)
        then have "slots_map m (type_id K) \<noteq> None" by simp
        from go [OF reg_move.found [OF this]] show ?thesis .
      qed
    next
      case (Take K V)
      from go [unfolded Holding m Take, OF reg_move.remove [OF refl]] show ?thesis .
    qed
  next
    case (Entered c)
    from go [unfolded Entered, OF reg_move.init] show ?thesis .
  next
    case (Panicking K)
    from go [unfolded Panicking, OF reg_move.panics] show ?thesis .
  next
    case (Downcasting K V b)
    from go [unfolded Downcasting, OF reg_move.downcast] show ?thesis .
  next
    case (Refusing K)
    with init obtain m where m: "shared s = Some m" by auto
    from go [unfolded Refusing m, OF reg_move.dropped] show ?thesis .
  next
    case (Inserting K V v)
    with init obtain m where m: "shared s = Some m" by auto
    from go [unfolded Inserting m, OF reg_move.insert] show ?thesis .
  next
    case Inserted
    with init obtain m where m: "shared s = Some m" by auto
    from go [unfolded Inserted m, OF reg_move.leave] show ?thesis .
  next
    case (Removed K V b)
    with init obtain m where m: "shared s = Some m" by auto
    from go [unfolded Removed m, OF reg_move.released] show ?thesis .
  qed (use assms(2) in simp)
qed

lemma reg_deadlock_free:
  assumes "lock_inv s" and "pcs s t \<noteq> Outside"
  shows "\<exists>u s'. pcs s u \<noteq> Outside \<and> reg_step u s s'"
proof (cases "locked (get_or_init (shared s))")
  case False
  with reg_can_move [OF assms] assms(2) show ?thesis by blast
next
  case True
  with assms(1) obtain u where "holds_guard (pcs s u)" by (auto simp: lock_inv_def)
  then have "pcs s u \<noteq> Outside" "\<And>c. pcs s u \<noteq> Waiting c" by auto
  with reg_can_move [OF assms(1), of u] show ?thesis by blast
qed

section \<open>An executable scheduler\<close>

text \<open>The move of a thread as a function; \<open>c\<close> is the call an idle thread makes.\<close>

fun reg_next :: "nat \<Rightarrow> 'v registry_call \<Rightarrow> 'v registry \<Rightarrow> 'v reg_pc \<Rightarrow>
    ('v reg_event list \<times> 'v registry \<times> 'v reg_pc) option" where
  "reg_next t c r Outside = Some ([Invoked t c], r, Entered c)"
| "reg_next t c r (Entered c') = Some ([], Some (get_or_init r), Waiting c')"
| "reg_next t c (Some m) (Waiting c') =
     (if locked m then None else Some ([], Some (m\<lparr>locked := True\<rparr>), Holding c'))"
| "reg_next t c (Some m) (Holding (Install K V v)) =
     (case slots_map m (type_id K) of
        Some _ \<Rightarrow> Some ([Effect t (Install K V v) (install_refused K)], Some m, Refusing K)
      | None \<Rightarrow> Some ([], Some m, Inserting K V v))"
| "reg_next t c (Some m) (Refusing K) = Some ([], Some (drop_guard m), Panicking K)"
| "reg_next t c r (Panicking K) = Some ([Returned t (install_refused K)], r, Outside)"
| "reg_next t c (Some m) (Inserting K V v) =
     Some ([Effect t (Install K V v) (Installed (Done ()))],
       Some (m\<lparr>slots_map := (slots_map m)
         (type_id K \<mapsto> \<lparr>boxed_type = type_id V, boxed_value = v\<rparr>)\<rparr>), Inserted)"
| "reg_next t c (Some m) Inserted =
     Some ([Returned t (Installed (Done ()))], Some (drop_guard m), Outside)"
| "reg_next t c (Some m) (Holding (Take K V)) =
     Some ([Effect t (Take K V) (Taken (take_result K V (slots_map m (type_id K))))],
       Some (m\<lparr>slots_map := (slots_map m)(type_id K := None)\<rparr>),
       Removed K V (slots_map m (type_id K)))"
| "reg_next t c (Some m) (Removed K V b) = Some ([], Some (drop_guard m), Downcasting K V b)"
| "reg_next t c r (Downcasting K V b) = Some ([Returned t (Taken (take_result K V b))], r, Outside)"
| "reg_next t c None _ = None"

lemma reg_next_move:
  "reg_next t c r p = Some (es, r', p') \<Longrightarrow> reg_move t r p es r' p'"
  by (induction t c r p rule: reg_next.induct)
    (auto intro: reg_move.intros split: option.splits if_splits)

lemma reg_move_next:
  assumes "reg_move t r p es r' p'"
  shows "\<exists>c. reg_next t c r p = Some (es, r', p')"
  using assms by cases auto

primrec reg_exec :: "(nat \<times> 'v registry_call) list \<Rightarrow> 'v reg_state \<Rightarrow> 'v reg_state option" where
  "reg_exec [] s = Some s"
| "reg_exec (tc # sched) s =
     (case reg_next (fst tc) (snd tc) (shared s) (pcs s (fst tc)) of
        None \<Rightarrow> None
      | Some (es, r', p') \<Rightarrow>
          reg_exec sched \<lparr>shared = r', pcs = (pcs s)(fst tc := p'), history = history s @ es\<rparr>)"

lemma reg_exec_reach:
  "reg_reach n s \<Longrightarrow> reg_exec sched s = Some s' \<Longrightarrow> reg_reach (n + length sched) s'"
proof (induction sched arbitrary: n s)
  case (Cons tc sched)
  from Cons.prems(2) obtain es r' p'
    where m: "reg_next (fst tc) (snd tc) (shared s) (pcs s (fst tc)) = Some (es, r', p')"
      and s': "reg_exec sched
          \<lparr>shared = r', pcs = (pcs s)(fst tc := p'), history = history s @ es\<rparr> = Some s'"
    by (auto split: option.splits)
  from Cons.IH [OF reg_reach.step [OF Cons.prems(1) reg_step.intros [OF reg_next_move [OF m]]] s']
  show ?case by simp
qed simp

text \<open>
  A race: thread 1 installs for key 1 while threads 2 and 3 both take it; thread 2 gets the value,
  thread 3 waits for the lock and then finds the slot empty.
\<close>

definition race :: "(nat \<times> nat registry_call) list" where
  "race =
     (let K = Rust_Type 1 ''KeyA''; V = Rust_Type 9 ''u8'';
          i = (1, Install K V 5); a = (2, Take K V); b = (3, Take K V)
      in [a, i, b, i, i, a, b, i, i, i, a, a, a, b, b, a, b, b])"

definition race_end :: "nat reg_state" where
  "race_end = the (reg_exec race reg_start)"

lemma race_history:
  "history race_end =
     (let K = Rust_Type 1 ''KeyA''; V = Rust_Type 9 ''u8'' in
      [Invoked 2 (Take K V), Invoked 1 (Install K V 5), Invoked 3 (Take K V),
       Effect 1 (Install K V 5) (Installed (Done ())), Returned 1 (Installed (Done ())),
       Effect 2 (Take K V) (Taken (Inr 5)), Effect 3 (Take K V) (Taken (Inl (not_installed K))),
       Returned 2 (Taken (Inr 5)), Returned 3 (Taken (Inl (not_installed K)))])"
  by (simp add: race_end_def race_def Let_def reg_start_def get_or_init_def fresh_mutex_def drop_guard_def)

lemma race_reach: "reg_reach 18 race_end"
proof -
  have "reg_exec race reg_start \<noteq> None"
    by (simp add: race_def Let_def reg_start_def get_or_init_def fresh_mutex_def drop_guard_def)
  then have "reg_exec race reg_start = Some race_end"
    by (auto simp: race_end_def)
  from reg_exec_reach [OF reg_reach.start this] show ?thesis
    by (simp add: race_def Let_def numeral_eq_Suc)
qed

section \<open>Exactly one hand-over\<close>

text \<open>Effects that fill, respectively empty, the slot of a key.\<close>

fun fills :: "nat \<Rightarrow> 'v registry_call \<times> 'v registry_result \<Rightarrow> bool" where
  "fills k (Install K V v, u) \<longleftrightarrow> type_id K = k \<and> u = Installed (Done ())"
| "fills k (Take K V, u) \<longleftrightarrow> False"

fun empties :: "nat \<Rightarrow> 'v registry_call \<times> 'v registry_result \<Rightarrow> bool" where
  "empties k (Install K V v, u) \<longleftrightarrow> False"
| "empties k (Take K V, u) \<longleftrightarrow> type_id K = k \<and> u \<noteq> Taken (Inl (not_installed K))"

lemma wrong_type_not_missing [simp]: "wrong_type K V \<noteq> not_installed K"
  by (simp add: wrong_type_def not_installed_def)

lemma spec_run_counts:
  assumes "spec_run cs m = (us, m')"
  shows "length (filter (fills k) (zip cs us)) + (if m k = None then 0 else 1)
       = length (filter (empties k) (zip cs us)) + (if m' k = None then 0 else 1)"
  using assms
proof (induction cs arbitrary: m us m')
  case (Cons c cs)
  obtain u m1 where c: "spec_call c m = (u, m1)" by (metis prod.exhaust)
  obtain us1 m2 where cs: "spec_run cs m1 = (us1, m2)" by (metis prod.exhaust)
  from Cons.prems c cs have "us = u # us1" "m' = m2" by simp_all
  with c Cons.IH [OF cs] show ?case
    by (cases c) (auto split: option.splits if_splits)
qed simp

section \<open>Types of the values\<close>

text \<open>
  \<open>ty\<close> is the Rust type of a value. The compiler makes the type parameter of \<open>install\<close> the type of
  its argument; \<open>take\<close> has only the tag of the box to go by.
\<close>

definition slots_typed :: "('v \<Rightarrow> nat) \<Rightarrow> (nat \<rightharpoonup> nat \<times> 'v) \<Rightarrow> bool" where
  "slots_typed ty m \<longleftrightarrow> (\<forall>k t v. m k = Some (t, v) \<longrightarrow> ty v = t)"

fun call_typed :: "('v \<Rightarrow> nat) \<Rightarrow> 'v registry_call \<Rightarrow> bool" where
  "call_typed ty (Install K V v) \<longleftrightarrow> ty v = type_id V"
| "call_typed ty (Take K V) \<longleftrightarrow> True"

fun result_typed :: "('v \<Rightarrow> nat) \<Rightarrow> 'v registry_call \<times> 'v registry_result \<Rightarrow> bool" where
  "result_typed ty (Take K V, Taken (Inr v)) \<longleftrightarrow> ty v = type_id V"
| "result_typed ty _ \<longleftrightarrow> True"

lemma spec_call_typed:
  assumes "spec_call c m = (u, m')" and "slots_typed ty m" and "call_typed ty c"
  shows "slots_typed ty m' \<and> result_typed ty (c, u)"
  using assms by (cases c) (auto simp: slots_typed_def split: option.splits if_splits)

lemma spec_run_typed:
  assumes "spec_run cs m = (us, m')" and "slots_typed ty m" and "\<And>c. c \<in> set cs \<Longrightarrow> call_typed ty c"
  shows "slots_typed ty m' \<and> (\<forall>cu \<in> set (zip cs us). result_typed ty cu)"
  using assms
proof (induction cs arbitrary: m us m')
  case (Cons c cs)
  obtain u m1 where c: "spec_call c m = (u, m1)" by (metis prod.exhaust)
  obtain us1 m2 where cs: "spec_run cs m1 = (us1, m2)" by (metis prod.exhaust)
  from Cons.prems(1) c cs have us: "us = u # us1" "m' = m2" by simp_all
  from spec_call_typed [OF c Cons.prems(2)] Cons.prems(3) have
    "slots_typed ty m1" "result_typed ty (c, u)" by simp_all
  with Cons.IH [OF cs] Cons.prems(3) us show ?case by auto
qed simp

text \<open>What took effect was called before, in every thread.\<close>

lemma effects_called:
  assumes "reg_reach n s"
  shows "(\<forall>c u. (c, u) \<in> set (effects_of (history s)) \<longrightarrow> (\<exists>t. Invoked t c \<in> set (history s)))
       \<and> (\<forall>t c. pc_phase (pcs s t) = Called c \<longrightarrow> Invoked t c \<in> set (history s))"
  using assms
proof induction
  case start
  show ?case by (simp add: reg_start_def)
next
  case (step n s t s')
  from step.hyps(2) obtain es r' p' where move: "reg_move t (shared s) (pcs s t) es r' p'"
    and s': "s' = \<lparr>shared = r', pcs = (pcs s)(t := p'), history = history s @ es\<rparr>"
    by (rule reg_stepE)
  have "(c, u) \<in> set (effects_of es) \<Longrightarrow> pc_phase (pcs s t) = Called c"
    and "pc_phase p' = Called c \<Longrightarrow> pc_phase (pcs s t) = Called c \<or> Invoked t c \<in> set es" for c u
    using move by (cases; auto)+
  with step.IH show ?case by (auto simp: s') blast
qed

lemma effects_zip: "zip (map fst (effects_of h)) (map snd (effects_of h)) = effects_of h"
  by (rule zip_map_fst_snd)

section \<open>Properties\<close>

text \<open>
  C7. Whatever threads call \<open>install\<close> and \<open>take\<close> and however their steps interleave, the registry is
  linearizable: every call takes effect at one moment between its invocation and its return and
  returns what a plain map from task types to typed values gives at that moment, the content being
  the state of that map. At most one thread is in the critical section and the lock is never
  poisoned.
\<close>

theorem registry_linearizable:
  assumes "reg_reach n s"
  shows "linearized (history s)
       \<and> snd (spec_run (map fst (effects_of (history s))) Map.empty) = installed (shared s)
       \<and> (\<forall>t t'. holds_guard (pcs s t) \<and> holds_guard (pcs s t') \<longrightarrow> t = t')
       \<and> \<not> poisoned (get_or_init (shared s))"
proof -
  note inv = reg_reach_inv [OF assms]
  have "linearized (history s)
      \<and> snd (spec_run (map fst (effects_of (history s))) Map.empty) = installed (shared s)"
    using inv(2,3) by (simp add: linearized_def phases_inv_def effects_inv_def)
  moreover have "\<forall>t t'. holds_guard (pcs s t) \<and> holds_guard (pcs s t') \<longrightarrow> t = t'"
    and "\<not> poisoned (get_or_init (shared s))"
    using inv(1) by (auto simp: lock_inv_def)
  ultimately show ?thesis by blast
qed

theorem registry_linearizable_witness:
  "linearized (history race_end) \<and> installed (shared race_end) = Map.empty
   \<and> length (effects_of (history race_end)) = 3"
proof -
  have "linearized (history race_end)"
    and "snd (spec_run (map fst (effects_of (history race_end))) Map.empty)
      = installed (shared race_end)"
    using registry_linearizable [OF race_reach] by blast+
  then show ?thesis by (simp add: race_history Let_def fun_eq_iff)
qed

text \<open>
  C24. No call starves and no schedule deadlocks: a system that has made \<open>k\<close> calls has taken at most
  \<open>6 * k\<close> steps, whatever the schedule, and as long as some thread is inside a call, some such
  thread can move. So every schedule that keeps going finishes all calls.
\<close>

theorem registry_calls_finish:
  assumes "reg_reach n s"
  shows "n \<le> 6 * calls_made (history s)
       \<and> ((\<exists>t. pcs s t \<noteq> Outside) \<longrightarrow> (\<exists>t s'. pcs s t \<noteq> Outside \<and> reg_step t s s'))
       \<and> (n = 6 * calls_made (history s) \<longleftrightarrow> (\<forall>t. pcs s t = Outside))"
proof -
  obtain A where A: "finite A" "\<And>t. t \<notin> A \<Longrightarrow> pcs s t = Outside"
      "n + (\<Sum>t\<in>A. steps_left (pcs s t)) = 6 * calls_made (history s)"
    using reg_reach_steps [OF assms] by blast
  have zero: "steps_left p = 0 \<longleftrightarrow> p = Outside" for p :: "'a reg_pc"
    by (cases p) simp_all
  have "(\<Sum>t\<in>A. steps_left (pcs s t)) = 0 \<longleftrightarrow> (\<forall>t. pcs s t = Outside)"
    using A(1,2) by (auto simp: zero)
  with A(3) reg_deadlock_free [OF reg_reach_inv(1) [OF assms]] show ?thesis by auto
qed

theorem registry_calls_finish_witness:
  "calls_made (history race_end) = 3 \<and> (\<forall>t. pcs race_end t = Outside)"
  using registry_calls_finish [OF race_reach]
  by (simp add: race_history Let_def calls_made_def)

text \<open>
  C25. The type-erased boxes are type safe, across threads: when every installed value has the type
  it was installed with, a \<open>take\<close> of type \<open>V\<close> that returns a value returns one of type \<open>V\<close>, and
  what is still installed is tagged with its type.
\<close>

theorem registry_type_safe:
  assumes "reg_reach n s"
    and "\<And>t c. Invoked t c \<in> set (history s) \<Longrightarrow> call_typed ty c"
  shows "(\<forall>t K V v. Effect t (Take K V) (Taken (Inr v)) \<in> set (history s) \<longrightarrow> ty v = type_id V)
       \<and> slots_typed ty (installed (shared s))"
proof -
  let ?e = "effects_of (history s)"
  have run: "spec_run (map fst ?e) Map.empty = (map snd ?e, installed (shared s))"
    using reg_reach_inv(3) [OF assms(1)] by (simp add: effects_inv_def)
  have "call_typed ty c" if "c \<in> set (map fst ?e)" for c
    using that effects_called [OF assms(1)] assms(2) by fastforce
  with spec_run_typed [OF run, of ty] have typed: "slots_typed ty (installed (shared s))"
      "\<forall>cu \<in> set ?e. result_typed ty cu"
    by (simp_all add: slots_typed_def effects_zip)
  have mem: "Effect t c u \<in> set h \<Longrightarrow> (c, u) \<in> set (effects_of h)" for t c u and h :: "'a reg_event list"
    by (induction h rule: effects_of.induct) auto
  show ?thesis using typed mem by fastforce
qed

theorem registry_type_safe_witness:
  "Effect 2 (Take (Rust_Type 1 ''KeyA'') (Rust_Type 9 ''u8'')) (Taken (Inr 5)) \<in> set (history race_end)
   \<and> 9 = type_id (Rust_Type 9 ''u8'') \<and> slots_typed (\<lambda>_. 9) (installed (shared race_end))"
proof -
  have "\<forall>t c. Invoked t c \<in> set (history race_end) \<longrightarrow> call_typed (\<lambda>_. 9) c"
    by (auto simp: race_history Let_def)
  then have safe: "(\<forall>t K V v. Effect t (Take K V) (Taken (Inr v)) \<in> set (history race_end) \<longrightarrow>
        9 = type_id V) \<and> slots_typed (\<lambda>_. 9) (installed (shared race_end))"
    by (intro registry_type_safe [OF race_reach]) blast
  moreover have "Effect 2 (Take (Rust_Type 1 ''KeyA'') (Rust_Type 9 ''u8'')) (Taken (Inr 5))
      \<in> set (history race_end)"
    by (simp add: race_history Let_def)
  ultimately show ?thesis by blast
qed

text \<open>
  C30. A value is handed over exactly once, however many tasks race for it: per key, the successful
  installs are as many as the takes that emptied the slot, plus one while a value is parked.
\<close>

theorem registry_hands_over_once:
  assumes "reg_reach n s"
  shows "length (filter (fills k) (effects_of (history s)))
       = length (filter (empties k) (effects_of (history s)))
         + (if installed (shared s) k = None then 0 else 1)"
proof -
  have "spec_run (map fst (effects_of (history s))) Map.empty
      = (map snd (effects_of (history s)), installed (shared s))"
    using reg_reach_inv(3) [OF assms] by (simp add: effects_inv_def)
  from spec_run_counts [OF this, of k] show ?thesis by (simp add: effects_zip)
qed

theorem registry_hands_over_once_witness:
  "length (filter (fills 1) (effects_of (history race_end))) = 1
   \<and> length (filter (empties 1) (effects_of (history race_end))) = 1
   \<and> installed (shared race_end) 1 = None"
  using registry_hands_over_once [OF race_reach, of 1]
  by (simp add: race_history Let_def not_installed_def split: if_splits)

end
