(* ===== verification/Trigger.thy ===== *)
theory Trigger
  imports Prelude
begin

text \<open>
  \<open>crates/msrs-core/src/trigger.rs\<close>: what caused an FSM step. The borrowed payload of
  \<open>Trigger::Message\<close> is modelled by its value, since no handler can write through \<open>&In\<close>.
\<close>

datatype 'i trigger = Tick u64 | Message 'i

text \<open>\<open>Trigger::message\<close> and \<open>Trigger::is_tick\<close>.\<close>

primrec message :: "'i trigger \<Rightarrow> 'i option" where
  "message (Message m) = Some m"
| "message (Tick ns) = None"

primrec is_tick :: "'i trigger \<Rightarrow> bool" where
  "is_tick (Message m) = False"
| "is_tick (Tick ns) = True"

lemma message_None_iff [simp]: "message t = None \<longleftrightarrow> is_tick t"
  by (cases t) simp_all

lemma message_Some_iff [simp]: "message t = Some m \<longleftrightarrow> t = Message m"
  by (cases t) auto

end
