(* ===== verification/Effects.thy ===== *)
theory Effects
  imports Prelude
begin

text \<open>
  \<open>crates/msrs-core/src/effects.rs\<close>: the output buffer handed to an FSM handler. The
  \<open>&mut self\<close> methods return their result and the buffer afterwards. The locale
  \<open>outbox\<close> is the contract the adapters rely on; the code's buffer interprets it.
\<close>

section \<open>State and operations\<close>

record 'o effects =
  outbox :: "'o list"

definition effects_default :: "'o effects" where
  "effects_default = \<lparr>outbox = []\<rparr>"

definition emit :: "'o \<Rightarrow> 'o effects \<Rightarrow> 'o effects" where
  "emit value e = e\<lparr>outbox := outbox e @ [value]\<rparr>"

definition effects_is_empty :: "'o effects \<Rightarrow> bool" where
  "effects_is_empty e \<longleftrightarrow> outbox e = []"

text \<open>\<open>std::mem::take\<close> leaves the default (empty) vector behind.\<close>

definition effects_take :: "'o effects \<Rightarrow> 'o list \<times> 'o effects" where
  "effects_take e = (outbox e, e\<lparr>outbox := []\<rparr>)"

datatype extra_emits = Extra_Emits (emitted_count: nat)

definition take_one :: "'o effects \<Rightarrow> (extra_emits + 'o option) \<times> 'o effects" where
  "take_one e =
     (let v = outbox e; e' = e\<lparr>outbox := []\<rparr>
      in (case length v of
            0 \<Rightarrow> (Inr None, e')
          | Suc 0 \<Rightarrow> (Inr (Some (last v)), e')
          | emitted \<Rightarrow> (Inl (Extra_Emits emitted), e')))"

text \<open>\<open>Display for ExtraEmits\<close>.\<close>

definition display_extra_emits :: "extra_emits \<Rightarrow> string" where
  "display_extra_emits x =
     ''FSM step emitted '' @ show_nat (emitted_count x) @
     '' outputs but this adapter forwards at most one; '' @
     ''emit once per step or use a batch output (FsmBatchTask / run_step_all)''"

section \<open>Basic facts\<close>

lemma outbox_default [simp]: "outbox effects_default = []"
  by (simp add: effects_default_def)

lemma outbox_emit [simp]: "outbox (emit v e) = outbox e @ [v]"
  by (simp add: emit_def)

lemma effects_eqI: "outbox e = outbox e' \<Longrightarrow> e = (e' :: 'o effects)"
  by (cases e; cases e') simp

lemma effects_take_simps [simp]:
  "fst (effects_take e) = outbox e"
  "snd (effects_take e) = effects_default"
  by (simp_all add: effects_take_def effects_default_def)

lemma outbox_fold_emit [simp]: "outbox (fold emit vs e) = outbox e @ vs"
  by (induction vs arbitrary: e) simp_all

lemma fold_emit_default: "fold emit vs e = e\<lparr>outbox := outbox e @ vs\<rparr>"
  by (rule effects_eqI) simp

lemma snd_take_one [simp]: "snd (take_one e) = effects_default"
  by (simp add: take_one_def Let_def effects_default_def split: nat.splits)

lemma fst_take_one:
  "fst (take_one e) =
     (case outbox e of
        [] \<Rightarrow> Inr None
      | [v] \<Rightarrow> Inr (Some v)
      | _ \<Rightarrow> Inl (Extra_Emits (length (outbox e))))"
  by (simp add: take_one_def Let_def split: list.splits nat.splits)

section \<open>The contract of an output buffer\<close>

text \<open>
  What the adapters need of a buffer: a fresh one is empty, emitting appends, draining returns
  everything in order and leaves an empty buffer.
\<close>

locale outbox_spec =
  fixes fresh :: "'b"
    and put :: "'o \<Rightarrow> 'b \<Rightarrow> 'b"
    and drain :: "'b \<Rightarrow> 'o list \<times> 'b"
    and contents :: "'b \<Rightarrow> 'o list"
  assumes contents_fresh: "contents fresh = []"
    and contents_put: "contents (put v b) = contents b @ [v]"
    and drain_contents: "fst (drain b) = contents b"
    and drain_empties: "contents (snd (drain b)) = []"
begin

lemma contents_puts: "contents (fold put vs b) = contents b @ vs"
  by (induction vs arbitrary: b) (simp_all add: contents_put)

lemma drain_puts: "fst (drain (fold put vs fresh)) = vs"
  by (simp add: drain_contents contents_puts contents_fresh)

text \<open>Two bursts separated by a drain do not mix.\<close>

lemma drain_separates: "fst (drain (fold put ws (snd (drain (fold put vs b))))) = ws"
  by (simp add: drain_contents contents_puts drain_empties)

end

interpretation effects_buffer: outbox_spec effects_default emit effects_take outbox
  by unfold_locales simp_all

text \<open>The single-output drain obeys the same contract, its result read as the drained list.\<close>

definition take_one_list :: "'o effects \<Rightarrow> 'o list \<times> 'o effects" where
  "take_one_list e =
     (case fst (take_one e) of
        Inr None \<Rightarrow> []
      | Inr (Some v) \<Rightarrow> [v]
      | Inl _ \<Rightarrow> outbox e, snd (take_one e))"

interpretation single_buffer: outbox_spec effects_default emit take_one_list outbox
  by unfold_locales (auto simp: take_one_list_def fst_take_one split: list.splits)

end
