(* ===== verification/Fsm_Task.thy ===== *)
theory Fsm_Task
  imports Trigger Effects Copper
begin

text \<open>
  \<open>crates/msrs-core/src/fsm_task.rs\<close>: the step seams \<open>run_step\<close> and \<open>run_step_all\<close>, the
  trigger of a cycle, and the two copper adapters \<open>FsmTask\<close> and \<open>FsmBatchTask\<close>. The trait
  \<open>FsmSpec\<close> is a step function of type \<open>fsm_step\<close>; what its documentation asks of an implementor
  is the locale \<open>fsm_spec\<close> and its two extensions.
\<close>

section \<open>The trait and its unit-test seams\<close>

type_synonym ('m, 'i, 'o) fsm_step =
  "'m \<Rightarrow> 'i trigger \<Rightarrow> 'o effects \<Rightarrow> ('m \<times> 'o effects) exec"

definition run_step ::
    "('m, 'i, 'o) fsm_step \<Rightarrow> 'm \<Rightarrow> 'i trigger \<Rightarrow> ('o option \<times> 'm) exec" where
  "run_step step m trigger =
     exec_bind (step m trigger effects_default)
       (\<lambda>(m', effects). case fst (take_one effects) of
            Inr v \<Rightarrow> Done (v, m')
          | Inl e \<Rightarrow> Panic (display_extra_emits e))"

definition run_step_all ::
    "('m, 'i, 'o) fsm_step \<Rightarrow> 'm \<Rightarrow> 'i trigger \<Rightarrow> ('o list \<times> 'm) exec" where
  "run_step_all step m trigger =
     exec_bind (step m trigger effects_default)
       (\<lambda>(m', effects). Done (fst (effects_take effects), m'))"

text \<open>
  A machine driven through a list of triggers, with the outputs of each step: how the replay
  closures and the tests of the services use \<open>run_step_all\<close>.
\<close>

fun run_all ::
    "('m, 'i, 'o) fsm_step \<Rightarrow> 'i trigger list \<Rightarrow> 'm \<Rightarrow> ('o list list \<times> 'm) exec" where
  "run_all step [] m = Done ([], m)"
| "run_all step (t # ts) m =
     exec_bind (run_step_all step m t)
       (\<lambda>(outs, m). exec_bind (run_all step ts m) (\<lambda>(rest, m). Done (outs # rest, m)))"

lemma run_all_append:
  "run_all step (ts @ us) m =
     exec_bind (run_all step ts m)
       (\<lambda>(o1, m). exec_bind (run_all step us m) (\<lambda>(o2, m). Done (o1 @ o2, m)))"
proof (induction ts arbitrary: m)
  case (Cons t ts)
  show ?case
  proof (cases "run_step_all step m t")
    case (Done r)
    then show ?thesis
      by (cases r; cases "run_all step ts (snd r)";
          cases "run_all step us (case run_all step ts (snd r) of Done x \<Rightarrow> snd x | Panic p \<Rightarrow> snd r)")
        (auto simp: Cons.IH)
  qed simp
qed (simp add: split_def)

section \<open>The trigger of a cycle\<close>

definition trigger_for ::
    "('w, 't, 'r) clock_api \<Rightarrow> ('mi, 'i, 't, 'r) msg_api \<Rightarrow> 'mi \<Rightarrow> 'w \<Rightarrow> 'i trigger \<times> 'w" where
  "trigger_for clk im input w =
     (case payload im input of
        Some msg \<Rightarrow> (Message msg, w)
      | None \<Rightarrow>
          (case msg_tov im input of
             Tov_Time t \<Rightarrow> (Tick (as_nanos clk t), w)
           | Tov_Range r \<Rightarrow> (Tick (as_nanos clk (range_start clk r)), w)
           | Tov_None \<Rightarrow> (let (t, w') = now clk w in (Tick (as_nanos clk t), w'))))"

section \<open>\<open>FsmTask\<close>\<close>

record 'm fsm_task =
  machine :: 'm

text \<open>\<open>new\<close> ignores its configuration and takes the machine's \<open>Default\<close>.\<close>

definition fsm_task_new :: "'m \<Rightarrow> cu_error + 'm fsm_task" where
  "fsm_task_new m_default = Inr \<lparr>machine = m_default\<rparr>"

definition fsm_task_process ::
    "('w, 't, 'r) clock_api \<Rightarrow> ('mi, 'i, 't, 'r) msg_api \<Rightarrow> ('mo, 'o, 't, 'r) msg_api \<Rightarrow>
     ('m, 'i, 'o) fsm_step \<Rightarrow> 'm fsm_task \<Rightarrow> 'mi \<Rightarrow> 'mo \<Rightarrow> 'w \<Rightarrow>
     ((cu_error + unit) \<times> 'm fsm_task \<times> 'mo \<times> 'w) exec" where
  "fsm_task_process clk im om step task input output w =
     (let (trigger, w) = trigger_for clk im input w in
      exec_bind (step (machine task) trigger effects_default)
        (\<lambda>(m', effects).
           let task = task\<lparr>machine := m'\<rparr> in
           (case fst (take_one effects) of
              Inr (Some out) \<Rightarrow>
                let output = set_payload om out output; (t, w) = now clk w in
                Done (Inr (), task, set_tov om (Tov_Time t) output, w)
            | Inr None \<Rightarrow> Done (Inr (), task, clear_payload om output, w)
            | Inl e \<Rightarrow>
                Done (Inl (Cu_Error (display_extra_emits e)), task, clear_payload om output, w))))"

section \<open>\<open>FsmBatchTask\<close>\<close>

datatype 'o batch = Batch (batch_values: "'o list")

record 'm fsm_batch_task =
  batch_machine :: 'm

definition fsm_batch_task_new :: "'m \<Rightarrow> cu_error + 'm fsm_batch_task" where
  "fsm_batch_task_new m_default = Inr \<lparr>batch_machine = m_default\<rparr>"

definition fsm_batch_task_process ::
    "('w, 't, 'r) clock_api \<Rightarrow> ('mi, 'i, 't, 'r) msg_api \<Rightarrow> ('mo, 'o batch, 't, 'r) msg_api \<Rightarrow>
     ('m, 'i, 'o) fsm_step \<Rightarrow> 'm fsm_batch_task \<Rightarrow> 'mi \<Rightarrow> 'mo \<Rightarrow> 'w \<Rightarrow>
     ((cu_error + unit) \<times> 'm fsm_batch_task \<times> 'mo \<times> 'w) exec" where
  "fsm_batch_task_process clk im om step task input output w =
     (let (trigger, w) = trigger_for clk im input w in
      exec_bind (step (batch_machine task) trigger effects_default)
        (\<lambda>(m', effects).
           let task = task\<lparr>batch_machine := m'\<rparr>; outs = fst (effects_take effects) in
           if outs = [] then Done (Inr (), task, clear_payload om output, w)
           else let output = set_payload om (Batch outs) output; (t, w) = now clk w in
                Done (Inr (), task, set_tov om (Tov_Time t) output, w)))"

instantiation batch :: (type) default
begin

definition default_batch :: "'a batch" where
  "default_batch = Batch []"

instance ..

end

section \<open>The adapters in terms of the seams\<close>

text \<open>
  What the two adapters do with the drained outputs of a step: the result of \<open>process\<close>, the
  output slot and the world.
\<close>

definition forward_single ::
    "('w, 't, 'r) clock_api \<Rightarrow> ('mo, 'o, 't, 'r) msg_api \<Rightarrow> 'mo \<Rightarrow> 'w \<Rightarrow> 'o list \<Rightarrow>
     (cu_error + unit) \<times> 'mo \<times> 'w" where
  "forward_single clk om output w outs =
     (case outs of
        [] \<Rightarrow> (Inr (), clear_payload om output, w)
      | [v] \<Rightarrow> (case now clk w of (t, w') \<Rightarrow>
          (Inr (), set_tov om (Tov_Time t) (set_payload om v output), w'))
      | _ \<Rightarrow> (Inl (Cu_Error (display_extra_emits (Extra_Emits (length outs)))),
               clear_payload om output, w))"

definition forward_batch ::
    "('w, 't, 'r) clock_api \<Rightarrow> ('mo, 'o batch, 't, 'r) msg_api \<Rightarrow> 'mo \<Rightarrow> 'w \<Rightarrow> 'o list \<Rightarrow>
     (cu_error + unit) \<times> 'mo \<times> 'w" where
  "forward_batch clk om output w outs =
     (if outs = [] then (Inr (), clear_payload om output, w)
      else (case now clk w of (t, w') \<Rightarrow>
        (Inr (), set_tov om (Tov_Time t) (set_payload om (Batch outs) output), w')))"

lemma fsm_task_process_alt:
  "fsm_task_process clk im om step task input output w =
     exec_bind (run_step_all step (machine task) (fst (trigger_for clk im input w)))
       (\<lambda>r. Done
          (fst (forward_single clk om output (snd (trigger_for clk im input w)) (fst r)),
           task\<lparr>machine := snd r\<rparr>,
           snd (forward_single clk om output (snd (trigger_for clk im input w)) (fst r))))"
  by (cases "trigger_for clk im input w";
      cases "step (machine task) (fst (trigger_for clk im input w)) effects_default")
    (auto simp: fsm_task_process_def run_step_all_def forward_single_def Let_def fst_take_one
      split: list.splits prod.splits)

lemma fsm_batch_task_process_alt:
  "fsm_batch_task_process clk im om step task input output w =
     exec_bind (run_step_all step (batch_machine task) (fst (trigger_for clk im input w)))
       (\<lambda>r. Done
          (fst (forward_batch clk om output (snd (trigger_for clk im input w)) (fst r)),
           task\<lparr>batch_machine := snd r\<rparr>,
           snd (forward_batch clk om output (snd (trigger_for clk im input w)) (fst r))))"
  by (cases "trigger_for clk im input w";
      cases "step (batch_machine task) (fst (trigger_for clk im input w)) effects_default")
    (auto simp: fsm_batch_task_process_def run_step_all_def forward_batch_def Let_def fst_take_one
      split: list.splits prod.splits)

text \<open>A \<open>process\<close> call that returns is one step of the seam followed by its forwarding.\<close>

lemma fsm_task_process_DoneE:
  assumes "fsm_task_process clk im om step task input output w = Done (res, task', output', w')"
  obtains outs where
    "run_step_all step (machine task) (fst (trigger_for clk im input w)) = Done (outs, machine task')"
    "forward_single clk om output (snd (trigger_for clk im input w)) outs = (res, output', w')"
  using assms by (auto simp: fsm_task_process_alt prod_eq_iff)

lemma fsm_batch_task_process_DoneE:
  assumes "fsm_batch_task_process clk im om step task input output w = Done (res, task', output', w')"
  obtains outs where
    "run_step_all step (batch_machine task) (fst (trigger_for clk im input w)) = Done (outs, batch_machine task')"
    "forward_batch clk om output (snd (trigger_for clk im input w)) outs = (res, output', w')"
  using assms by (auto simp: fsm_batch_task_process_alt prod_eq_iff)

lemma fst_forward_single:
  "fst (forward_single clk om output w outs) =
     (if length outs \<le> 1 then Inr ()
      else Inl (Cu_Error (display_extra_emits (Extra_Emits (length outs)))))"
  by (simp add: forward_single_def split: list.splits prod.splits)

lemma fst_forward_batch [simp]: "fst (forward_batch clk om output w outs) = Inr ()"
  by (simp add: forward_batch_def split: prod.splits)

lemma payload_forward_single:
  assumes "cu_msg om"
  shows "payload om (fst (snd (forward_single clk om output w outs))) =
     (if length outs = 1 then Some (hd outs) else None)"
  by (simp add: forward_single_def cu_msg.payload_set [OF assms] cu_msg.payload_clear [OF assms]
      cu_msg.payload_set_tov [OF assms] split: list.splits prod.splits)

lemma payload_forward_batch:
  assumes "cu_msg om"
  shows "payload om (fst (snd (forward_batch clk om output w outs))) =
     (if outs = [] then None else Some (Batch outs))"
  by (simp add: forward_batch_def cu_msg.payload_set [OF assms] cu_msg.payload_clear [OF assms]
      cu_msg.payload_set_tov [OF assms] split: prod.splits)

lemma run_step_cases:
  "run_step step m trigger =
     exec_bind (run_step_all step m trigger)
       (\<lambda>(outs, m'). case outs of
            [] \<Rightarrow> Done (None, m')
          | [v] \<Rightarrow> Done (Some v, m')
          | _ \<Rightarrow> Panic (display_extra_emits (Extra_Emits (length outs))))"
  by (cases "step m trigger effects_default")
    (auto simp: run_step_def run_step_all_def fst_take_one split: list.splits)

lemma run_step_of_all:
  "run_step_all step m t = Done ([], m') \<Longrightarrow> run_step step m t = Done (None, m')"
  "run_step_all step m t = Done ([v], m') \<Longrightarrow> run_step step m t = Done (Some v, m')"
  "run_step_all step m t = Panic p \<Longrightarrow> run_step step m t = Panic p"
  "run_step_all step m t = Done (v # u # vs, m') \<Longrightarrow>
     run_step step m t = Panic (display_extra_emits (Extra_Emits (length (v # u # vs))))"
  by (simp_all add: run_step_cases)

lemma fsm_task_process_shape:
  assumes "cu_msg om"
    and "fsm_task_process clk im om step task input output w = Done (res, task', output', w')"
  obtains outs where
    "run_step_all step (machine task) (fst (trigger_for clk im input w)) = Done (outs, machine task')"
    "payload om output' = (if length outs = 1 then Some (hd outs) else None)"
    "res = (if length outs \<le> 1 then Inr ()
       else Inl (Cu_Error (display_extra_emits (Extra_Emits (length outs)))))"
proof (rule fsm_task_process_DoneE [OF assms(2)])
  fix outs
  assume step: "run_step_all step (machine task) (fst (trigger_for clk im input w))
      = Done (outs, machine task')"
    and fwd: "forward_single clk om output (snd (trigger_for clk im input w)) outs
      = (res, output', w')"
  from fwd have "res = fst (forward_single clk om output (snd (trigger_for clk im input w)) outs)"
    and "output' = fst (snd (forward_single clk om output (snd (trigger_for clk im input w)) outs))"
    by simp_all
  then show thesis
    by (intro that [OF step]) (simp_all add: fst_forward_single payload_forward_single [OF assms(1)])
qed

section \<open>Where the tick time comes from\<close>

lemma trigger_for_unstamped_tick:
  assumes "payload im input = None"
  obtains ns where "fst (trigger_for clk im input w) = Tick ns"
proof -
  have "\<exists>ns. fst (trigger_for clk im input w) = Tick ns"
    by (simp add: trigger_for_def assms split: tov.splits prod.splits)
  then show thesis using that by blast
qed

section \<open>The contract of \<open>FsmSpec\<close>\<close>

text \<open>
  \<open>fsm_spec\<close>: a step uses its buffer for emitting only, so what it emits does not depend on what
  the buffer holds. \<open>single_emit_spec\<close>: the extra duty of a machine driven by \<open>FsmTask\<close>, at most
  one emission per step. \<open>tick_silent_spec\<close>: a machine that ignores ticks.
\<close>

locale fsm_spec =
  fixes step :: "('m, 'i, 'o) fsm_step"
  assumes step_appends:
    "step m t e =
       exec_bind (step m t effects_default) (\<lambda>(m', e'). Done (m', fold emit (outbox e') e))"
begin

lemma step_by_outputs:
  "step m t e = exec_bind (run_step_all step m t) (\<lambda>(outs, m'). Done (m', fold emit outs e))"
  by (subst step_appends)
    (auto simp: run_step_all_def exec_bind_assoc intro!: exec_bind_cong split: prod.splits)

text \<open>Steps that share one buffer leave in it the outputs of the steps, concatenated.\<close>

lemma two_steps_one_buffer:
  assumes "run_step_all step m t = Done (outs, m')" and "run_step_all step m' t' = Done (outs', m'')"
  shows "exec_bind (step m t effects_default) (\<lambda>(m', e). step m' t' e)
           = Done (m'', fold emit (outs @ outs') effects_default)"
  by (simp add: step_by_outputs assms)

end

locale single_emit_spec = fsm_spec +
  assumes at_most_one: "run_step_all step m t = Done (outs, m') \<Longrightarrow> length outs \<le> 1"
begin

lemma run_step_total:
  assumes "run_step_all step m t = Done (outs, m')"
  shows "run_step step m t = Done (if outs = [] then None else Some (hd outs), m')"
  using at_most_one [OF assms] by (auto simp: run_step_cases assms split: list.splits)

lemma process_ok:
  assumes "fsm_task_process clk im om step task input output w = Done (res, task', output', w')"
  shows "res = Inr ()"
proof (rule fsm_task_process_DoneE [OF assms])
  fix outs
  assume r: "run_step_all step (machine task) (fst (trigger_for clk im input w))
      = Done (outs, machine task')"
    and f: "forward_single clk om output (snd (trigger_for clk im input w)) outs
      = (res, output', w')"
  from f have "res = fst (forward_single clk om output (snd (trigger_for clk im input w)) outs)"
    by simp
  with at_most_one [OF r] show ?thesis by (simp add: fst_forward_single)
qed

end

locale tick_silent_spec = fsm_spec +
  assumes tick_noop: "step m (Tick ns) e = Done (m, e)"
begin

lemma run_step_all_tick: "run_step_all step m (Tick ns) = Done ([], m)"
  by (simp add: run_step_all_def tick_noop)

lemma run_step_tick: "run_step step m (Tick ns) = Done (None, m)"
  by (simp add: run_step_cases run_step_all_tick)

text \<open>Ticks anywhere in the input change neither what is emitted nor the final state.\<close>

lemma run_all_skip_ticks:
  "exec_bind (run_all step ts m) (\<lambda>(outs, m'). Done (concat outs, m')) =
   exec_bind (run_all step (filter (\<lambda>t. \<not> is_tick t) ts) m)
     (\<lambda>(outs, m'). Done (concat outs, m'))"
proof (induction ts arbitrary: m)
  case (Cons t ts)
  show ?case
  proof (cases t)
    case (Tick ns)
    from Cons.IH [of m] show ?thesis
      by (auto simp: Tick run_step_all_tick exec_bind_assoc split_def)
  next
    case (Message i)
    show ?thesis
    proof (cases "run_step_all step m t")
      case (Done r)
      from Cons.IH [of "snd r"] Done Message show ?thesis
        by (cases "run_all step ts (snd r)";
            cases "run_all step (filter (\<lambda>t. \<not> is_tick t) ts) (snd r)") (auto simp: split_def)
    qed (simp add: Message)
  qed
qed simp

text \<open>On an empty input the machine keeps its state and the slot is cleared.\<close>

lemma process_tick:
  assumes "payload im input = None"
  shows "fsm_task_process clk im om step task input output w =
           Done (Inr (), task, clear_payload om output, snd (trigger_for clk im input w))"
  by (rule trigger_for_unstamped_tick [OF assms, of clk w])
    (simp add: fsm_task_process_alt run_step_all_tick forward_single_def)

end

section \<open>The machines of the unit tests\<close>

text \<open>\<open>DoubleEmitter\<close> emits twice per message, \<open>TickProbe\<close> records the tick time it was given.\<close>

definition double_emitter_step :: "bool \<Rightarrow> (unit, u32, u32) fsm_step" where
  "double_emitter_step oc m trigger effects =
     (case message trigger of
        Some v \<Rightarrow>
          let effects = emit v effects in
          exec_bind (add_word oc v 1) (\<lambda>v'. Done (m, emit v' effects))
      | None \<Rightarrow> Done (m, effects))"

record tick_probe =
  last_tick :: "u64 option"

definition tick_probe_default :: tick_probe where
  "tick_probe_default = \<lparr>last_tick = None\<rparr>"

fun tick_probe_step :: "(tick_probe, u32, u32) fsm_step" where
  "tick_probe_step m (Tick ns) effects = Done (m\<lparr>last_tick := Some ns\<rparr>, effects)"
| "tick_probe_step m (Message i) effects = Done (m, effects)"

interpretation double_emitter: tick_silent_spec "double_emitter_step oc" for oc
proof unfold_locales
  show "double_emitter_step oc m t e = exec_bind (double_emitter_step oc m t effects_default)
      (\<lambda>(m', e'). Done (m', fold emit (outbox e') e))" for m t e
    by (cases t) (simp_all add: double_emitter_step_def Let_def exec_bind_assoc)
qed (simp add: double_emitter_step_def)

interpretation tick_probe: single_emit_spec tick_probe_step
proof unfold_locales
  show "tick_probe_step m t e = exec_bind (tick_probe_step m t effects_default)
      (\<lambda>(m', e'). Done (m', fold emit (outbox e') e))" for m t e
    by (cases t) simp_all
  show "length outs \<le> 1" if "run_step_all tick_probe_step m t = Done (outs, m')" for m t outs m'
    using that by (cases t) (auto simp: run_step_all_def)
qed

text \<open>The mock clock of the tests, and their message slots.\<close>

definition mock_clock :: "(u64, u64, u64 \<times> u64) clock_api" where
  "mock_clock = \<lparr>now = (\<lambda>w. (w, w)), as_nanos = (\<lambda>t. t), range_start = fst\<rparr>"

abbreviation test_input :: "'i option \<Rightarrow> (u64, u64 \<times> u64) tov \<Rightarrow> ('i, u64, u64 \<times> u64) slot" where
  "test_input p t \<equiv> \<lparr>slot_payload = p, slot_tov = t\<rparr>"

section \<open>Properties\<close>

text \<open>
  \<open>run_step\<close> is \<open>run_step_all\<close> restricted to at most one output: the two test seams agree on
  every step, and a step with more outputs is a panic that names their number, never a drop.
\<close>

lemma run_step_via_all:
  "run_step step m trigger =
     exec_bind (run_step_all step m trigger)
       (\<lambda>(outs, m'). case outs of
            [] \<Rightarrow> Done (None, m')
          | [v] \<Rightarrow> Done (Some v, m')
          | _ \<Rightarrow> Panic (display_extra_emits (Extra_Emits (length outs))))"
  by (rule run_step_cases)

text \<open>
  \<open>FsmTask::process\<close> on every branch, whatever the reused output slot held before: the
  machine advances by the step, the slot carries the single emitted value and nothing else, and
  the call is an error naming the count exactly when the step emitted more than once.
\<close>

lemma fsm_task_process_result:
  assumes "cu_msg om"
    and "fsm_task_process clk im om step task input output w = Done (res, task', output', w')"
  shows "\<exists>outs. run_step_all step (machine task) (fst (trigger_for clk im input w))
                  = Done (outs, machine task')
           \<and> payload om output' = (if length outs = 1 then Some (hd outs) else None)
           \<and> res = (if length outs \<le> 1 then Inr ()
                     else Inl (Cu_Error (display_extra_emits (Extra_Emits (length outs)))))"
proof -
  obtain outs where
      "run_step_all step (machine task) (fst (trigger_for clk im input w))
        = Done (outs, machine task')"
      "payload om output' = (if length outs = 1 then Some (hd outs) else None)"
      "res = (if length outs \<le> 1 then Inr ()
        else Inl (Cu_Error (display_extra_emits (Extra_Emits (length outs)))))"
    by (rule fsm_task_process_shape [OF assms])
  then show ?thesis by blast
qed

lemma fsm_task_process_result_witness:
  "\<exists>res task' output' w'.
     fsm_task_process mock_clock slot_api slot_api (double_emitter_step True) \<lparr>machine = ()\<rparr>
       (test_input (Some 1) Tov_None) (test_input (Some 7) Tov_None) 999
       = Done (res, task', output', w')
     \<and> payload slot_api output' = None \<and> res \<noteq> Inr ()"
proof -
  obtain res task' output' w' where p: "fsm_task_process mock_clock slot_api slot_api
       (double_emitter_step True) \<lparr>machine = ()\<rparr> (test_input (Some 1) Tov_None)
       (test_input (Some 7) Tov_None) 999 = Done (res, task', output', w')"
    by (simp add: fsm_task_process_def trigger_for_def slot_api_def double_emitter_step_def
        add_word_def take_one_def Let_def)
  have "run_step_all (double_emitter_step True) () (Message 1) = Done ([1, 2], ())"
    by code_simp
  with fsm_task_process_result [OF slot_msg.cu_msg_axioms p] p show ?thesis
    by (auto simp: trigger_for_def slot_api_def)
qed

text \<open>
  \<open>FsmBatchTask::process\<close> never fails: every value the step emitted, in emission order and as
  one batch, is the new content of the output slot, and a step that emitted nothing leaves the
  slot empty even when an earlier cycle had filled it.
\<close>

lemma fsm_batch_task_process_result:
  assumes "cu_msg om"
    and "fsm_batch_task_process clk im om step task input output w = Done (res, task', output', w')"
  shows "\<exists>outs. run_step_all step (batch_machine task) (fst (trigger_for clk im input w))
                  = Done (outs, batch_machine task')
           \<and> payload om output' = (if outs = [] then None else Some (Batch outs))
           \<and> res = Inr ()"
  using assms(2)
proof (rule fsm_batch_task_process_DoneE)
  fix outs
  assume step: "run_step_all step (batch_machine task) (fst (trigger_for clk im input w))
      = Done (outs, batch_machine task')"
    and fwd: "forward_batch clk om output (snd (trigger_for clk im input w)) outs
      = (res, output', w')"
  from fwd have "res = fst (forward_batch clk om output (snd (trigger_for clk im input w)) outs)"
    and "output' = fst (snd (forward_batch clk om output (snd (trigger_for clk im input w)) outs))"
    by simp_all
  with step show ?thesis
    by (auto simp: payload_forward_batch [OF assms(1)])
qed

lemma fsm_batch_task_process_result_witness:
  "\<exists>res task' output' w'.
     fsm_batch_task_process mock_clock slot_api slot_api (double_emitter_step True)
       \<lparr>batch_machine = ()\<rparr> (test_input (Some 5) Tov_None) fresh_slot 999
       = Done (res, task', output', w')
     \<and> payload slot_api output' = Some (Batch [5, 6]) \<and> res = Inr ()"
proof -
  have s: "run_step_all (double_emitter_step True) () (Message 5) = Done ([5, 6], ())"
    by code_simp
  obtain r where r: "fsm_batch_task_process mock_clock slot_api slot_api
       (double_emitter_step True) \<lparr>batch_machine = ()\<rparr> (test_input (Some 5) Tov_None)
       fresh_slot 999 = Done r"
    using s by (simp add: fsm_batch_task_process_alt trigger_for_def slot_api_def)
  obtain res task' output' w' where "r = (res, task', output', w')"
    by (metis prod.exhaust)
  note p = r [unfolded this]
  from fsm_batch_task_process_result [OF slot_msg.cu_msg_axioms p] p s show ?thesis
    by (auto simp: trigger_for_def slot_api_def)
qed

text \<open>
  C27. \<open>FsmTask::process\<close> and the test seam \<open>run_step\<close> mirror each other on every step: \<open>run_step\<close>
  panics exactly when \<open>process\<close> panics or returns an error, in both cases with the same text, and
  otherwise returns the content of the output slot and the machine that \<open>process\<close> left.
\<close>

theorem fsm_task_mirrors_run_step:
  assumes "cu_msg om"
  shows "run_step step (machine task) (fst (trigger_for clk im input w)) =
           (case fsm_task_process clk im om step task input output w of
              Panic p \<Rightarrow> Panic p
            | Done (res, task', output', w') \<Rightarrow>
                (case res of
                   Inr u \<Rightarrow> Done (payload om output', machine task')
                 | Inl (Cu_Error msg) \<Rightarrow> Panic msg))"
proof (cases "run_step_all step (machine task) (fst (trigger_for clk im input w))")
  case (Panic p)
  then show ?thesis by (simp add: run_step_cases fsm_task_process_alt)
next
  case (Done r)
  have "payload om (fst (snd (forward_single clk om output v outs)))
      = (if length outs = 1 then Some (hd outs) else None)" for v outs
    by (rule payload_forward_single [OF assms])
  with Done show ?thesis
    by (simp add: run_step_cases fsm_task_process_alt fst_forward_single split_def split: list.splits)
qed

theorem fsm_task_mirrors_run_step_witness:
  "run_step (double_emitter_step True) () (Message 1)
     = Panic (display_extra_emits (Extra_Emits 2))
   \<and> run_step (double_emitter_step True) () (Message (- 1))
     = Panic ''attempt to add with overflow''"
proof -
  have s: "run_step_all (double_emitter_step True) () (Message 1) = Done ([1, 2], ())"
      "run_step_all (double_emitter_step True) () (Message (- 1)) = Panic ''attempt to add with overflow''"
    by code_simp+
  note step = fsm_task_mirrors_run_step [OF slot_msg.cu_msg_axioms, of "double_emitter_step True"
      "\<lparr>machine = ()\<rparr>" mock_clock slot_api _ 999 fresh_slot]
  from step [of "test_input (Some 1) Tov_None"] step [of "test_input (Some (- 1)) Tov_None"]
  show ?thesis
    using s by (simp add: fsm_task_process_alt trigger_for_def slot_api_def forward_single_def
        numeral_2_eq_2)
qed

text \<open>
  The trigger of a cycle is a function of the recorded input message alone as soon as the
  upstream task left a payload or a time of validity: it is the same in every world (so a replay
  that holds the logged message rebuilds it) and building it does not read the clock.
\<close>

lemma trigger_for_recorded:
  assumes "payload im input \<noteq> None \<or> msg_tov im input \<noteq> Tov_None"
  shows "trigger_for clk im input w = (fst (trigger_for clk im input w0), w)"
  using assms by (auto simp: trigger_for_def split: option.splits tov.splits)

lemma trigger_for_recorded_witness:
  "trigger_for mock_clock slot_api (test_input (None :: u32 option) (Tov_Time 42)) 999
     = (Tick 42, 999)"
proof -
  have "payload slot_api (test_input (None :: u32 option) (Tov_Time 42)) \<noteq> None
      \<or> msg_tov slot_api (test_input (None :: u32 option) (Tov_Time 42)) \<noteq> Tov_None"
    by (simp add: slot_api_def)
  from trigger_for_recorded [OF this, of mock_clock 999 0] show ?thesis
    by (simp add: trigger_for_def slot_api_def mock_clock_def)
qed

text \<open>
  Without a payload and without a time of validity the trigger is a tick at whatever the clock
  reads in this cycle: the fallback is taken in exactly this case.
\<close>

lemma trigger_for_unstamped:
  assumes "payload im input = None"
  shows "fst (trigger_for clk im input w) =
           Tick (case msg_tov im input of
                   Tov_Time t \<Rightarrow> as_nanos clk t
                 | Tov_Range r \<Rightarrow> as_nanos clk (range_start clk r)
                 | Tov_None \<Rightarrow> as_nanos clk (fst (now clk w)))"
  using assms by (simp add: trigger_for_def split: tov.splits prod.splits)

text \<open>
  C37. A limit of chained \<open>FsmTask\<close>s: a step that emits nothing clears the payload of its output slot
  but never stamps it, whatever its trigger was. So in every world the trigger of the next \<open>FsmTask\<close>
  in the chain is a tick at the time the slot still holds from before, or, when it holds none, at
  whatever the clock reads in that cycle, which the log does not determine.
\<close>

theorem silent_step_never_stamps:
  assumes "cu_msg om"
    and "run_step_all step (machine task) (fst (trigger_for clk im input w)) = Done ([], m')"
  shows "fsm_task_process clk im om step task input output w
           = Done (Inr (), task\<lparr>machine := m'\<rparr>, clear_payload om output,
                   snd (trigger_for clk im input w))
       \<and> fst (trigger_for clk om (clear_payload om output) w2) =
           Tick (case msg_tov om (clear_payload om output) of
                   Tov_Time t \<Rightarrow> as_nanos clk t
                 | Tov_Range r \<Rightarrow> as_nanos clk (range_start clk r)
                 | Tov_None \<Rightarrow> as_nanos clk (fst (now clk w2)))"
proof
  show "fsm_task_process clk im om step task input output w = Done (Inr (),
      task\<lparr>machine := m'\<rparr>, clear_payload om output, snd (trigger_for clk im input w))"
    by (simp add: fsm_task_process_alt forward_single_def assms(2))
qed (rule trigger_for_unstamped [OF cu_msg.payload_clear [OF assms(1)]])

theorem silent_step_never_stamps_witness:
  "fsm_task_process mock_clock slot_api slot_api tick_probe_step
       \<lparr>machine = tick_probe_default\<rparr> (test_input (None :: u32 option) (Tov_Time 42)) fresh_slot 999
     = Done (Inr (), \<lparr>machine = \<lparr>last_tick = Some 42\<rparr>\<rparr>, fresh_slot, 999)
   \<and> fst (trigger_for mock_clock slot_api (fresh_slot :: (u32, u64, u64 \<times> u64) slot) 5) = Tick 5
   \<and> fst (trigger_for mock_clock slot_api (fresh_slot :: (u32, u64, u64 \<times> u64) slot) 6) = Tick 6"
proof -
  let ?task = "\<lparr>machine = tick_probe_default\<rparr>"
  let ?input = "test_input (None :: u32 option) (Tov_Time 42)"
  have s: "run_step_all tick_probe_step (machine ?task)
      (fst (trigger_for mock_clock slot_api ?input 999)) = Done ([], \<lparr>last_tick = Some 42\<rparr>)"
    by code_simp
  let ?slot = "fresh_slot :: (u32, u64, u64 \<times> u64) slot"
  have "clear_payload slot_api ?slot = ?slot" "msg_tov slot_api ?slot = Tov_None"
    "snd (trigger_for mock_clock slot_api ?input 999) = 999"
    "as_nanos mock_clock (fst (now mock_clock v)) = v" for v
    by (simp_all add: slot_api_def fresh_slot_def trigger_for_def mock_clock_def)
  with silent_step_never_stamps [OF slot_msg.cu_msg_axioms s, of ?slot 5]
    silent_step_never_stamps [OF slot_msg.cu_msg_axioms s, of ?slot 6]
  show ?thesis by simp
qed

end
