(* ===== verification/Replay.thy ===== *)
theory Replay
  imports Copper
begin

text \<open>
  \<open>crates/msrs-core/src/replay.rs\<close>: reading the copperlists of a unified log back, and the replay
  gate that compares a fresh machine with a recording. The log reader and the bincode codec are
  parameters; the closure given to the gate is a step function with its captured state. The read
  loop is a \<open>partial_function\<close>: \<open>None\<close> is a loop that never ends.
\<close>

section \<open>Reading a log\<close>

datatype log_end = Eof | Log_Error string

text \<open>
  \<open>DecodeError\<close> and \<open>std::io::ErrorKind\<close>, as far as the loop distinguishes them; the string of a
  constructor is the rest of the error, which the loop only prints.
\<close>

datatype io_kind = Unexpected_Eof | Other_Kind string

datatype decode_error =
  Unexpected_End string
| Io_Error io_kind string
| Other_Decode string

text \<open>\<open>UnifiedLogger::Read\<close> and \<open>UnifiedLogger::Write\<close>.\<close>

datatype 'r unified_logger = Logger_Read 'r | Logger_Write

partial_function (option) read_loop ::
    "('r \<Rightarrow> (decode_error + 'cl) \<times> 'r) \<Rightarrow> (decode_error \<Rightarrow> string) \<Rightarrow> 'r \<Rightarrow> 'cl list \<Rightarrow>
     ('cl list \<times> log_end) option" where
  "read_loop decode debug reader copperlists =
     (case decode reader of
        (Inr cl, reader) \<Rightarrow> read_loop decode debug reader (copperlists @ [cl])
      | (Inl e, reader) \<Rightarrow>
          (case e of
             Unexpected_End _ \<Rightarrow> Some (copperlists, Eof)
           | Io_Error kind _ \<Rightarrow>
               if kind = Unexpected_Eof then Some (copperlists, Eof)
               else Some (copperlists, Log_Error (debug e))
           | Other_Decode _ \<Rightarrow> Some (copperlists, Log_Error (debug e))))"

definition read_copperlists ::
    "(string \<Rightarrow> string + 'r unified_logger) \<Rightarrow> ('r \<Rightarrow> (decode_error + 'cl) \<times> 'r) \<Rightarrow>
     (decode_error \<Rightarrow> string) \<Rightarrow> string \<Rightarrow> (cu_error + 'cl list \<times> log_end) option" where
  "read_copperlists open_log decode debug log_base =
     (case open_log log_base of
        Inl e \<Rightarrow> Some (Inl (Cu_Error (''open unified log '' @ log_base @ '': '' @ e)))
      | Inr Logger_Write \<Rightarrow> Some (Inl (Cu_Error ''expected a read-only unified logger''))
      | Inr (Logger_Read reader) \<Rightarrow> map_option Inr (read_loop decode debug reader []))"

text \<open>What a reader holds: the records it decodes, then the error that ends the stream.\<close>

inductive log_stream ::
    "('r \<Rightarrow> (decode_error + 'cl) \<times> 'r) \<Rightarrow> 'r \<Rightarrow> 'cl list \<Rightarrow> decode_error \<Rightarrow> bool"
  for decode where
  stream_end: "decode r = (Inl e, r') \<Longrightarrow> log_stream decode r [] e"
| stream_record: "decode r = (Inr cl, r') \<Longrightarrow> log_stream decode r' cls e \<Longrightarrow>
    log_stream decode r (cl # cls) e"

inductive_cases log_stream_NilE: "log_stream decode r [] e"
inductive_cases log_stream_ConsE: "log_stream decode r (cl # cls) e"

fun classify_end :: "(decode_error \<Rightarrow> string) \<Rightarrow> decode_error \<Rightarrow> log_end" where
  "classify_end debug (Unexpected_End s) = Eof"
| "classify_end debug (Io_Error Unexpected_Eof s) = Eof"
| "classify_end debug e = Log_Error (debug e)"

lemma classify_end_cases:
  "classify_end debug e =
     (case e of
        Unexpected_End _ \<Rightarrow> Eof
      | Io_Error kind _ \<Rightarrow> if kind = Unexpected_Eof then Eof else Log_Error (debug e)
      | Other_Decode _ \<Rightarrow> Log_Error (debug e))"
  by (cases "(debug, e)" rule: classify_end.cases) simp_all

lemma read_loop_stream:
  "log_stream decode r cls e \<Longrightarrow>
     read_loop decode debug r acc = Some (acc @ cls, classify_end debug e)"
proof (induction arbitrary: acc rule: log_stream.induct)
  case (stream_end r e r')
  then show ?case
    by (subst read_loop.simps) (simp add: classify_end_cases split: decode_error.split)
next
  case (stream_record r cl r' cls e)
  then show ?case by (subst read_loop.simps) simp
qed

lemma log_stream_exists:
  assumes "\<And>r cl r'. decode r = (Inr cl, r') \<Longrightarrow> remaining r' < (remaining r :: nat)"
  shows "\<exists>cls e. log_stream decode r cls e"
proof (induction "remaining r" arbitrary: r rule: less_induct)
  case less
  obtain x r' where d: "decode r = (x, r')" by (cases "decode r")
  show ?case
  proof (cases x)
    case (Inl e)
    with d show ?thesis by (blast intro: stream_end)
  next
    case (Inr cl)
    with d assms less show ?thesis by (metis stream_record)
  qed
qed

text \<open>
  Reading a log ends: when every decoded copperlist consumes some of the reader's remaining
  input, \<open>read_copperlists\<close> on an opened log returns, with exactly the copperlists the reader
  decodes before its first error, in order, and \<open>Eof\<close> exactly for the end-of-input errors.
\<close>

lemma read_copperlists_returns:
  assumes "open_log log_base = Inr (Logger_Read reader)"
    and "\<And>r cl r'. decode r = (Inr cl, r') \<Longrightarrow> remaining r' < (remaining r :: nat)"
  shows "\<exists>cls e. log_stream decode reader cls e
           \<and> read_copperlists open_log decode debug log_base
               = Some (Inr (cls, classify_end debug e))"
proof -
  obtain cls e where "log_stream decode reader cls e"
    using log_stream_exists [of decode remaining reader] assms(2) by blast
  with assms(1) read_loop_stream [OF this, of debug "[]"] show ?thesis
    by (auto simp: read_copperlists_def)
qed

text \<open>A decoder of one-byte records for the witnesses.\<close>

fun byte_decode :: "nat list \<Rightarrow> (decode_error + nat) \<times> nat list" where
  "byte_decode [] = (Inl (Unexpected_End ''1''), [])"
| "byte_decode (b # bs) = (if b < 256 then (Inr b, bs) else (Inl (Other_Decode ''byte''), bs))"

lemma read_copperlists_returns_witness:
  "\<exists>cls e. log_stream byte_decode [1, 2, 3] cls e
     \<and> read_copperlists (\<lambda>_. Inr (Logger_Read [1, 2, 3])) byte_decode (\<lambda>_. '''') ''wd.copper''
         = Some (Inr (cls, classify_end (\<lambda>_. '''') e))"
proof (rule read_copperlists_returns [where remaining = length])
  show "byte_decode r = (Inr cl, r') \<Longrightarrow> length r' < length r" for r cl r'
    by (cases r) (auto split: if_splits)
qed simp

text \<open>
  C33. What a log holds comes back: when the codec decodes an encoded copperlist followed by anything
  and reports end-of-input on an empty or truncated record, a log of encoded copperlists reads back
  as those copperlists with a clean end, and so does the same log with a truncated record at the
  very end, whose loss only the missing copperlist shows.
\<close>

theorem log_roundtrip:
  assumes "\<And>cl rest. decode (enc cl @ rest) = (Inr cl, rest)"
    and "\<And>cl tail. strict_prefix tail (enc cl) \<Longrightarrow> \<exists>s r. decode tail = (Inl (Unexpected_End s), r)"
    and "tail = [] \<or> strict_prefix tail (enc lost)"
    and "enc lost \<noteq> []"
  shows "read_copperlists (\<lambda>_. Inr (Logger_Read (concat (map enc cls) @ tail))) decode debug log_base
           = Some (Inr (cls, Eof))"
proof -
  have "strict_prefix tail (enc lost)"
    using assms(3,4) by (auto simp: strict_prefix_def)
  then obtain s r where t: "decode tail = (Inl (Unexpected_End s), r)"
    using assms(2) by blast
  have "log_stream decode (concat (map enc cls) @ tail) cls (Unexpected_End s)"
  proof (induction cls)
    case Nil
    with t show ?case by (auto intro: stream_end)
  next
    case (Cons cl cls)
    with assms(1) show ?case by (auto intro: stream_record)
  qed
  from read_loop_stream [OF this, of debug "[]"] show ?thesis
    by (simp add: read_copperlists_def)
qed

fun pair_decode :: "nat list \<Rightarrow> (decode_error + nat) \<times> nat list" where
  "pair_decode (x # y # bs) = (Inr x, bs)"
| "pair_decode bs = (Inl (Unexpected_End ''1''), [])"

theorem log_roundtrip_witness:
  "read_copperlists (\<lambda>_. Inr (Logger_Read (concat (map (\<lambda>x. [x, 0]) [1, 2]) @ [3]))) pair_decode
     (\<lambda>_. '''') ''wd.copper'' = Some (Inr ([1, 2], Eof))"
proof (rule log_roundtrip [where lost = 3])
  fix cl :: nat and tail
  assume "strict_prefix tail [cl, 0]"
  then have "tail = [] \<or> tail = [cl]"
    by (auto simp: strict_prefix_def prefix_Cons)
  then show "\<exists>s r. pair_decode tail = (Inl (Unexpected_End s), r)"
    by auto
qed (simp_all add: strict_prefix_def)

section \<open>The replay gate\<close>

record ('i, 'o) recorded =
  rec_id :: u64
  rec_input :: 'i
  rec_output :: 'o

record gate_report =
  steps :: usize
  divergent :: usize
  first_divergence :: "string option"
  id_gap_list :: "(u64 \<times> u64) list"

definition passed :: "gate_report \<Rightarrow> bool" where
  "passed report \<longleftrightarrow> 0 < steps report \<and> divergent report = 0 \<and> id_gap_list report = []"

text \<open>The text of a divergence; \<open>show_i\<close> and \<open>show_o\<close> are the \<open>Debug\<close> formatters.\<close>

definition describe_divergence ::
    "('i \<Rightarrow> string) \<Rightarrow> ('o \<Rightarrow> string) \<Rightarrow> ('i, 'o) recorded \<Rightarrow> 'o \<Rightarrow> string" where
  "describe_divergence show_i show_o r replayed =
     ''copperlist '' @ show_word (rec_id r) @ '':'' @ [CHR 0x0A] @
     ''  input:    '' @ show_i (rec_input r) @ [CHR 0x0A] @
     ''  recorded: '' @ show_o (rec_output r) @ [CHR 0x0A] @
     ''  replayed: '' @ show_o replayed"

text \<open>
  One turn of the loop over the recording. \<open>oc\<close> says whether the build checks overflow (\<open>p + 1\<close>,
  \<open>divergent += 1\<close>); \<open>step\<close> is the closure with its captured state; \<open>encode\<close> is
  \<open>encode_to_vec\<close>.
\<close>

definition gate_turn ::
    "bool \<Rightarrow> ('o \<Rightarrow> 'e + 'b list) \<Rightarrow> ('i \<Rightarrow> string) \<Rightarrow> ('o \<Rightarrow> string) \<Rightarrow> ('i \<Rightarrow> 's \<Rightarrow> ('o \<times> 's) exec) \<Rightarrow>
     ('i, 'o) recorded \<Rightarrow> gate_report \<times> u64 option \<times> 's \<Rightarrow> (gate_report \<times> u64 option \<times> 's) exec"
  where
  "gate_turn oc encode show_i show_o step r = (\<lambda>(report, prev, s).
     exec_bind
       (case prev of
          None \<Rightarrow> Done report
        | Some p \<Rightarrow> exec_bind (add_word oc p 1) (\<lambda>next_id.
            Done (if rec_id r \<noteq> next_id
                  then report\<lparr>id_gap_list := id_gap_list report @ [(p, rec_id r)]\<rparr> else report)))
       (\<lambda>report.
     exec_bind (step (rec_input r) s) (\<lambda>(replayed, s).
       let same = (result_ok (encode replayed) = result_ok (encode (rec_output r))) in
       if same then Done (report, Some (rec_id r), s)
       else
         exec_bind (add_word oc (divergent report) 1) (\<lambda>d.
           let report = report\<lparr>divergent := d\<rparr>;
               report =
                 (if first_divergence report = None
                  then report\<lparr>first_divergence := Some (describe_divergence show_i show_o r replayed)\<rparr>
                  else report)
           in Done (report, Some (rec_id r), s)))))"

definition replay_gate ::
    "bool \<Rightarrow> ('o \<Rightarrow> 'e + 'b list) \<Rightarrow> ('i \<Rightarrow> string) \<Rightarrow> ('o \<Rightarrow> string) \<Rightarrow> ('i, 'o) recorded list \<Rightarrow>
     ('i \<Rightarrow> 's \<Rightarrow> ('o \<times> 's) exec) \<Rightarrow> 's \<Rightarrow> gate_report exec" where
  "replay_gate oc encode show_i show_o recording step s =
     (let report = \<lparr>steps = of_nat (length recording), divergent = 0, first_divergence = None,
                    id_gap_list = []\<rparr>
      in exec_bind (exec_fold (gate_turn oc encode show_i show_o step) recording (report, None, s))
           (\<lambda>(report, _, _). Done report))"

section \<open>What the gate computes\<close>

text \<open>The replayed outputs, the recorded steps they differ on, and the id gaps.\<close>

fun replay_outputs :: "('i \<Rightarrow> 's \<Rightarrow> ('o \<times> 's) exec) \<Rightarrow> 'i list \<Rightarrow> 's \<Rightarrow> 'o list exec" where
  "replay_outputs step [] s = Done []"
| "replay_outputs step (i # is) s =
     exec_bind (step i s) (\<lambda>(out, s). exec_bind (replay_outputs step is s) (\<lambda>outs. Done (out # outs)))"

definition same_bytes :: "('o \<Rightarrow> 'e + 'b list) \<Rightarrow> 'o \<Rightarrow> 'o \<Rightarrow> bool" where
  "same_bytes encode a b \<longleftrightarrow> result_ok (encode a) = result_ok (encode b)"

definition divergences ::
    "('o \<Rightarrow> 'e + 'b list) \<Rightarrow> ('i, 'o) recorded list \<Rightarrow> 'o list \<Rightarrow> (('i, 'o) recorded \<times> 'o) list" where
  "divergences encode recording outs =
     filter (\<lambda>(r, out). \<not> same_bytes encode out (rec_output r)) (zip recording outs)"

fun gaps_after :: "u64 option \<Rightarrow> u64 list \<Rightarrow> (u64 \<times> u64) list" where
  "gaps_after prev [] = []"
| "gaps_after None (i # is) = gaps_after (Some i) is"
| "gaps_after (Some p) (i # is) = (if i = p + 1 then [] else [(p, i)]) @ gaps_after (Some i) is"

text \<open>No id but the last is the largest \<open>u64\<close>, or the build wraps: then \<open>p + 1\<close> never panics.\<close>

definition ids_in_range :: "bool \<Rightarrow> u64 list \<Rightarrow> bool" where
  "ids_in_range oc ids \<longleftrightarrow> (oc \<longrightarrow> (\<forall>i \<in> set (butlast ids). unat i + 1 < 2 ^ 64))"

lemma ids_in_range_Cons:
  "ids_in_range oc (i # j # is) \<longleftrightarrow>
     (oc \<longrightarrow> unat i + 1 < 2 ^ 64) \<and> ids_in_range oc (j # is)"
  by (auto simp: ids_in_range_def)

lemma gaps_after_Cons: "gaps_after prev (i # is) = gaps_after prev [i] @ gaps_after (Some i) is"
  by (cases prev) simp_all

lemma divergences_Nil [simp]: "divergences encode [] outs = []"
  by (simp add: divergences_def)

lemma divergences_Cons [simp]:
  "divergences encode (r # rs) (out # outs) =
     (if same_bytes encode out (rec_output r) then [] else [(r, out)]) @ divergences encode rs outs"
  by (simp add: divergences_def)

lemma gate_turn_Done:
  assumes "step (rec_input r) s = Done (out, s')"
    and "unat (divergent report) + 1 < 2 ^ 64"
    and "\<And>p. prev = Some p \<Longrightarrow> oc \<Longrightarrow> unat p + 1 < 2 ^ 64"
  shows "gate_turn oc encode show_i show_o step r (report, prev, s) =
     Done (report\<lparr>divergent := divergent report +
                    (if same_bytes encode out (rec_output r) then 0 else 1),
                 first_divergence :=
                   (if same_bytes encode out (rec_output r) \<or> first_divergence report \<noteq> None
                    then first_divergence report
                    else Some (describe_divergence show_i show_o r out)),
                 id_gap_list := id_gap_list report @ gaps_after prev [rec_id r]\<rparr>,
           Some (rec_id r), s')"
proof -
  have p: "add_word oc p 1 = Done (p + 1)" if "prev = Some p" for p
    using assms(3) [OF that] by (cases oc) (simp_all add: add_word_def)
  have d: "add_word oc (divergent report) 1 = Done (divergent report + 1)"
    using assms(2) by (simp add: add_word_def)
  show ?thesis
    by (cases prev) (auto simp: gate_turn_def assms(1) p d same_bytes_def Let_def)
qed

lemma gate_loop:
  assumes "replay_outputs step (map rec_input recording) s = Done outs"
    and "unat (divergent report) + length recording < 2 ^ 64"
    and "ids_in_range oc ((case prev of None \<Rightarrow> [] | Some p \<Rightarrow> [p]) @ map rec_id recording)"
  shows "\<exists>prev' s'. exec_fold (gate_turn oc encode show_i show_o step) recording (report, prev, s) =
     Done (report\<lparr>divergent := divergent report + of_nat (length (divergences encode recording outs)),
                 first_divergence :=
                   (case first_divergence report of
                      Some d \<Rightarrow> Some d
                    | None \<Rightarrow> (case divergences encode recording outs of
                        [] \<Rightarrow> None
                      | (r, out) # _ \<Rightarrow> Some (describe_divergence show_i show_o r out))),
                 id_gap_list := id_gap_list report @ gaps_after prev (map rec_id recording)\<rparr>,
           prev', s')"
  using assms
proof (induction recording arbitrary: s outs report prev)
  case Nil
  then show ?case by (cases "first_divergence report") simp_all
next
  case (Cons r rs)
  from Cons.prems(1) obtain out s1 os where st: "step (rec_input r) s = Done (out, s1)"
    and os: "replay_outputs step (map rec_input rs) s1 = Done os" and outs: "outs = out # os"
    by auto
  let ?same = "same_bytes encode out (rec_output r)"
  define report1 where "report1 =
     report\<lparr>divergent := divergent report + (if ?same then 0 else 1),
            first_divergence := (if ?same \<or> first_divergence report \<noteq> None
              then first_divergence report else Some (describe_divergence show_i show_o r out)),
            id_gap_list := id_gap_list report @ gaps_after prev [rec_id r]\<rparr>"
  have d: "unat (divergent report) + 1 < 2 ^ 64" using Cons.prems(2) by simp
  have pr: "unat p + 1 < 2 ^ 64" if "prev = Some p" "oc" for p
    using Cons.prems(3) that by (simp add: ids_in_range_Cons)
  have t: "gate_turn oc encode show_i show_o step r (report, prev, s)
      = Done (report1, Some (rec_id r), s1)"
    unfolding report1_def
    by (rule gate_turn_Done [of step r s out s1 report prev oc]) (use st d pr in simp_all)
  have d1: "unat (divergent report1) + length rs < 2 ^ 64"
    using Cons.prems(2) by (auto simp: report1_def unat_word_ariths)
  have i1: "ids_in_range oc ((case Some (rec_id r) of None \<Rightarrow> [] | Some p \<Rightarrow> [p]) @ map rec_id rs)"
    using Cons.prems(3) by (cases prev) (auto simp: ids_in_range_Cons)
  from Cons.IH [OF os d1 i1] obtain prev' s' where
    "exec_fold (gate_turn oc encode show_i show_o step) rs (report1, Some (rec_id r), s1) =
     Done (report1\<lparr>divergent := divergent report1 + of_nat (length (divergences encode rs os)),
                 first_divergence :=
                   (case first_divergence report1 of
                      Some d \<Rightarrow> Some d
                    | None \<Rightarrow> (case divergences encode rs os of
                        [] \<Rightarrow> None
                      | (r, out) # _ \<Rightarrow> Some (describe_divergence show_i show_o r out))),
                 id_gap_list := id_gap_list report1 @ gaps_after (Some (rec_id r)) (map rec_id rs)\<rparr>,
           prev', s')" by blast
  then have loop: "exec_fold (gate_turn oc encode show_i show_o step) (r # rs) (report, prev, s) = \<dots>"
    by (simp add: t)
  have "\<dots> = Done (report\<lparr>divergent := divergent report + of_nat (length (divergences encode (r # rs) outs)),
                 first_divergence :=
                   (case first_divergence report of
                      Some d \<Rightarrow> Some d
                    | None \<Rightarrow> (case divergences encode (r # rs) outs of
                        [] \<Rightarrow> None
                      | (r, out) # _ \<Rightarrow> Some (describe_divergence show_i show_o r out))),
                 id_gap_list := id_gap_list report @ gaps_after prev (map rec_id (r # rs))\<rparr>,
           prev', s')"
    using gaps_after_Cons [of prev "rec_id r" "map rec_id rs"]
    by (cases ?same; cases "first_divergence report") (simp_all add: report1_def outs)
  with loop show ?case by (intro exI) (rule trans)
qed

lemma gate_report_exact:
  assumes "replay_outputs step (map rec_input recording) s = Done outs"
    and "length recording < 2 ^ 64"
    and "ids_in_range oc (map rec_id recording)"
  shows "replay_gate oc encode show_i show_o recording step s =
           Done \<lparr>steps = of_nat (length recording),
                 divergent = of_nat (length (divergences encode recording outs)),
                 first_divergence =
                   (case divergences encode recording outs of
                      [] \<Rightarrow> None
                    | (r, out) # _ \<Rightarrow> Some (describe_divergence show_i show_o r out)),
                 id_gap_list = gaps_after None (map rec_id recording)\<rparr>"
proof -
  let ?report = "\<lparr>steps = of_nat (length recording), divergent = 0, first_divergence = None,
                  id_gap_list = []\<rparr>"
  have "unat (divergent ?report) + length recording < 2 ^ 64" using assms(2) by simp
  from gate_loop [OF assms(1) this, of oc None encode show_i show_o] assms(3)
  show ?thesis by (auto simp: replay_gate_def split: list.splits)
qed

lemma length_replay_outputs:
  "replay_outputs step is s = Done outs \<Longrightarrow> length outs = length is"
  by (induction "is" arbitrary: s outs) auto

lemma divergences_eq_Nil:
  "length outs = length recording \<Longrightarrow>
     divergences encode recording outs = [] \<longleftrightarrow>
       list_all2 (\<lambda>r out. same_bytes encode out (rec_output r)) recording outs"
  by (auto simp: divergences_def filter_empty_conv list_all2_iff)

lemma length_divergences: "length (divergences encode recording outs) \<le> length recording"
proof -
  have "length (divergences encode recording outs) \<le> length (zip recording outs)"
    unfolding divergences_def by (rule length_filter_le)
  then show ?thesis by simp
qed

text \<open>Ids that count up by one; on \<open>u64\<close> the successor wraps, as the comparison of the code does.\<close>

fun consecutive :: "u64 list \<Rightarrow> bool" where
  "consecutive (i # j # is) \<longleftrightarrow> j = i + 1 \<and> consecutive (j # is)"
| "consecutive is \<longleftrightarrow> True"

lemma gaps_after_Some_eq_Nil: "gaps_after (Some p) is = [] \<longleftrightarrow> consecutive (p # is)"
  by (induction "is" arbitrary: p) simp_all

lemma gaps_eq_Nil: "gaps_after None is = [] \<longleftrightarrow> consecutive is"
  by (cases "is") (simp_all add: gaps_after_Some_eq_Nil)

lemma of_nat_usize_eq_0: "n < 2 ^ 64 \<Longrightarrow> (of_nat n :: usize) = 0 \<longleftrightarrow> n = 0"
  by (auto simp: word_of_nat_eq_0_iff dest: dvd_imp_le)

text \<open>The verdict of the gate, as a condition on the recording and the replayed outputs.\<close>

definition gate_accepts ::
    "('o \<Rightarrow> 'e + 'b list) \<Rightarrow> ('i, 'o) recorded list \<Rightarrow> 'o list \<Rightarrow> bool" where
  "gate_accepts encode recording outs \<longleftrightarrow>
     recording \<noteq> [] \<and> list_all2 (\<lambda>r out. same_bytes encode out (rec_output r)) recording outs
     \<and> consecutive (map rec_id recording)"

lemma gate_verdict:
  assumes "replay_outputs step (map rec_input recording) s = Done outs"
    and "length recording < 2 ^ 64"
    and "ids_in_range oc (map rec_id recording)"
  obtains report where "replay_gate oc encode show_i show_o recording step s = Done report"
    and "passed report \<longleftrightarrow> gate_accepts encode recording outs"
proof
  let ?report = "\<lparr>steps = of_nat (length recording),
                 divergent = of_nat (length (divergences encode recording outs)),
                 first_divergence =
                   (case divergences encode recording outs of
                      [] \<Rightarrow> None
                    | (r, out) # _ \<Rightarrow> Some (describe_divergence show_i show_o r out)),
                 id_gap_list = gaps_after None (map rec_id recording)\<rparr>"
  show "replay_gate oc encode show_i show_o recording step s = Done ?report"
    by (rule gate_report_exact [OF assms])
  have "length (divergences encode recording outs) < 2 ^ 64"
    using length_divergences [of encode recording outs] assms(2) by simp
  moreover have "length outs = length recording"
    using length_replay_outputs [OF assms(1)] by simp
  ultimately show "passed ?report \<longleftrightarrow> gate_accepts encode recording outs"
    using assms(2)
    by (simp add: passed_def gate_accepts_def gaps_eq_Nil divergences_eq_Nil [symmetric]
        of_nat_usize_eq_0 word_gt_0)
qed

section \<open>Properties of the gate\<close>

text \<open>A step closure, an encoder and recordings for the witnesses: a counter whose output wraps.\<close>

definition count_step :: "nat \<Rightarrow> nat \<Rightarrow> (nat \<times> nat) exec" where
  "count_step i s = Done (s + i, s + i)"

definition encode_small :: "nat \<Rightarrow> unit + nat list" where
  "encode_small n = (if n < 256 then Inr [n] else Inl ())"

definition demo_recording :: "(nat, nat) recorded list" where
  "demo_recording =
     [\<lparr>rec_id = 5, rec_input = 1, rec_output = 1\<rparr>, \<lparr>rec_id = 6, rec_input = 2, rec_output = 4\<rparr>,
      \<lparr>rec_id = 8, rec_input = 3, rec_output = 6\<rparr>]"

lemma demo_recording_replays:
  "replay_outputs count_step (map rec_input demo_recording) 0 = Done [1, 3, 6]"
  "length demo_recording < 2 ^ 64" "ids_in_range True (map rec_id demo_recording)"
  by (simp_all add: demo_recording_def count_step_def ids_in_range_def)

text \<open>
  C23. What the gate reports, exactly, for a recording of fewer than \<open>2 ^ 64\<close> steps in which no id but
  the last is the largest \<open>u64\<close> (or in a build that wraps): when no step of the replay from the cold
  state panics and the replay gives the outputs \<open>outs\<close>, the gate does not panic either and reports
  the number of steps, the number of steps
  whose replayed and recorded outputs encode to different bytes, the description of the first of
  them, and every pair of neighbouring ids that are not consecutive. It replays every step, also
  after a divergence.
\<close>

theorem replay_gate_exact:
  assumes "replay_outputs step (map rec_input recording) s = Done outs"
    and "length recording < 2 ^ 64"
    and "ids_in_range oc (map rec_id recording)"
  shows "replay_gate oc encode show_i show_o recording step s =
           Done \<lparr>steps = of_nat (length recording),
                 divergent = of_nat (length (divergences encode recording outs)),
                 first_divergence =
                   (case divergences encode recording outs of
                      [] \<Rightarrow> None
                    | (r, out) # _ \<Rightarrow> Some (describe_divergence show_i show_o r out)),
                 id_gap_list = gaps_after None (map rec_id recording)\<rparr>"
  by (rule gate_report_exact [OF assms])

theorem replay_gate_exact_witness:
  "replay_gate True encode_small show_nat show_nat demo_recording count_step 0 =
     Done \<lparr>steps = 3, divergent = 1,
           first_divergence = Some (describe_divergence show_nat show_nat
             \<lparr>rec_id = 6, rec_input = 2, rec_output = 4\<rparr> 3),
           id_gap_list = [(6, 8)]\<rparr>"
  by (subst replay_gate_exact [OF demo_recording_replays])
    (simp add: demo_recording_def divergences_def same_bytes_def encode_small_def)

text \<open>
  The verdict: the gate passes a recording exactly when it is not empty, every replayed output
  encodes to the bytes of the recorded one, and the copperlist ids are consecutive. A recording
  that lost a copperlist in the middle fails even when the outputs agree.
\<close>

lemma replay_gate_passes_iff:
  assumes "replay_outputs step (map rec_input recording) s = Done outs"
    and "length recording < 2 ^ 64"
    and "ids_in_range oc (map rec_id recording)"
  shows "\<exists>report. replay_gate oc encode show_i show_o recording step s = Done report
           \<and> (passed report \<longleftrightarrow>
                recording \<noteq> []
                \<and> list_all2 (\<lambda>r out. same_bytes encode out (rec_output r)) recording outs
                \<and> consecutive (map rec_id recording))"
  using gate_verdict [OF assms] by (metis gate_accepts_def)

lemma replay_gate_passes_iff_witness:
  "\<exists>report. replay_gate True encode_small show_nat show_nat demo_recording count_step 0 = Done report
     \<and> \<not> passed report"
  using replay_gate_passes_iff [OF demo_recording_replays, of encode_small show_nat show_nat]
  by (auto simp: demo_recording_def)

text \<open>
  C38. A limit of the gate: comparing \<open>encode(..).ok()\<close> makes any two outputs that fail to encode
  equal. A non-empty recording with consecutive ids, of which no output encodes, passes the gate with
  any machine whose replay does not panic and yields no output that encodes, however different the
  outputs are.
\<close>

theorem replay_gate_blind_to_unencodable:
  assumes "replay_outputs step (map rec_input recording) s = Done outs"
    and "length recording < 2 ^ 64"
    and "ids_in_range oc (map rec_id recording)"
    and "recording \<noteq> []" and "consecutive (map rec_id recording)"
    and "\<And>out. out \<in> set outs \<union> rec_output ` set recording \<Longrightarrow> result_ok (encode out) = None"
  shows "\<exists>report. replay_gate oc encode show_i show_o recording step s = Done report \<and> passed report"
proof -
  have "list_all2 (\<lambda>r out. same_bytes encode out (rec_output r)) recording outs"
    using length_replay_outputs [OF assms(1)] assms(6)
    by (auto simp: list_all2_iff same_bytes_def) (metis image_eqI set_zip_leftD set_zip_rightD)
  with gate_verdict [OF assms(1-3), of encode show_i show_o] assms(4,5) show ?thesis
    by (metis gate_accepts_def)
qed

theorem replay_gate_blind_to_unencodable_witness:
  "\<exists>report. replay_gate True encode_small show_nat show_nat
       [\<lparr>rec_id = 0, rec_input = 300, rec_output = 999\<rparr>] count_step 0 = Done report
     \<and> passed report"
  by (rule replay_gate_blind_to_unencodable [where outs = "[300]"])
    (auto simp: count_step_def encode_small_def ids_in_range_def)

text \<open>
  A recording made by running the machine itself: its outputs are the replayed ones, so every byte
  comparison succeeds whatever the encoder does, also for outputs that are not equal to themselves.
\<close>

lemma gate_accepts_self:
  assumes "replay_outputs step (map rec_input recording) s = Done (map rec_output recording)"
    and "length recording < 2 ^ 64" and "ids_in_range oc (map rec_id recording)"
    and "recording \<noteq> []" and "consecutive (map rec_id recording)"
  obtains report where
    "replay_gate oc encode show_i show_o recording step s = Done report" "passed report"
proof -
  have "gate_accepts encode recording (map rec_output recording)"
    using assms(4,5)
    by (simp add: gate_accepts_def list.rel_map same_bytes_def list.rel_refl)
  with gate_verdict [OF assms(1-3), of encode show_i show_o] that show thesis by metis
qed

text \<open>A single recorded output whose bytes differ from the replayed ones makes the gate fail.\<close>

lemma gate_rejects:
  assumes "replay_outputs step (map rec_input recording) s = Done outs"
    and "length recording < 2 ^ 64" and "ids_in_range oc (map rec_id recording)"
    and "n < length recording" and "\<not> same_bytes encode (outs ! n) (rec_output (recording ! n))"
  obtains report where
    "replay_gate oc encode show_i show_o recording step s = Done report" "\<not> passed report"
proof -
  have "\<not> gate_accepts encode recording outs"
    using assms(4,5) by (auto simp: gate_accepts_def list_all2_conv_all_nth)
  with gate_verdict [OF assms(1-3), of encode show_i show_o] that show thesis by metis
qed

end
