(* ===== verification/Framework_Replay.thy ===== *)
theory Framework_Replay
  imports Fsm_Task Replay
begin

text \<open>
  The promise the framework makes to every service (README, section 6.3): the log determines what a
  machine did. A run of \<open>FsmTask\<close> or \<open>FsmBatchTask\<close> is a list of \<open>process\<close> calls, each with the
  input slot the log records, whatever the output slot held before, and whatever the rest of the
  world looks like in that cycle. Nothing here depends on a particular machine, clock or channel.
  What the two adapters have in common is the locale \<open>fsm_adapter\<close>.
\<close>

section \<open>Runs of an adapter\<close>

type_synonym ('mi, 'mo, 'w) call = "'mi \<times> 'mo \<times> 'w"

abbreviation call_input :: "('mi, 'mo, 'w) call \<Rightarrow> 'mi" where
  "call_input \<equiv> fst"

text \<open>The results and the output slots of the calls, in order, and the task they leave.\<close>

fun run_adapter ::
    "('t \<Rightarrow> 'mi \<Rightarrow> 'mo \<Rightarrow> 'w \<Rightarrow> ((cu_error + unit) \<times> 't \<times> 'mo \<times> 'w) exec) \<Rightarrow>
     ('mi, 'mo, 'w) call list \<Rightarrow> 't \<Rightarrow> (((cu_error + unit) \<times> 'mo) list \<times> 't) exec" where
  "run_adapter process [] task = Done ([], task)"
| "run_adapter process ((input, output, w) # calls) task =
     exec_bind (process task input output w) (\<lambda>(res, task, output, _).
       exec_bind (run_adapter process calls task) (\<lambda>(rest, task).
         Done ((res, output) # rest, task)))"

text \<open>An input slot whose trigger does not depend on the clock, and that trigger.\<close>

definition stamped :: "('mi, 'i, 't, 'r) msg_api \<Rightarrow> 'mi \<Rightarrow> bool" where
  "stamped im input \<longleftrightarrow> payload im input \<noteq> None \<or> msg_tov im input \<noteq> Tov_None"

definition logged_trigger ::
    "('w, 't, 'r) clock_api \<Rightarrow> ('mi, 'i, 't, 'r) msg_api \<Rightarrow> 'mi \<Rightarrow> 'i trigger" where
  "logged_trigger clk im input =
     (case payload im input of
        Some msg \<Rightarrow> Message msg
      | None \<Rightarrow> Tick (case msg_tov im input of
            Tov_Time t \<Rightarrow> as_nanos clk t
          | Tov_Range r \<Rightarrow> as_nanos clk (range_start clk r)
          | Tov_None \<Rightarrow> 0))"

lemma stamped_trigger:
  "stamped im input \<Longrightarrow> fst (trigger_for clk im input w) = logged_trigger clk im input"
  by (auto simp: stamped_def logged_trigger_def trigger_for_def split: option.splits tov.splits)

section \<open>What the two adapters have in common\<close>

text \<open>
  \<open>seen\<close> is what the log keeps of an output slot, \<open>report\<close> what a call returns and leaves there for
  the outputs of its step.
\<close>

locale fsm_adapter =
  fixes process :: "'t \<Rightarrow> 'mi \<Rightarrow> 'mo \<Rightarrow> 'w \<Rightarrow> ((cu_error + unit) \<times> 't \<times> 'mo \<times> 'w) exec"
    and trigger :: "'mi \<Rightarrow> 'w \<Rightarrow> 'i trigger"
    and step :: "('m, 'i, 'o) fsm_step"
    and state :: "'t \<Rightarrow> 'm"
    and seen :: "'mo \<Rightarrow> 'p"
    and report :: "'o list \<Rightarrow> (cu_error + unit) \<times> 'p"
  assumes process_panic: "run_step_all step (state task) (trigger input w) = Panic p \<Longrightarrow>
      process task input output w = Panic p"
    and process_done: "run_step_all step (state task) (trigger input w) = Done (outs, m') \<Longrightarrow>
      \<exists>res task' output' w'. process task input output w = Done (res, task', output', w')
        \<and> state task' = m' \<and> (res, seen output') = report outs"
begin

text \<open>A run is the run of the machine over its triggers, with every step reported.\<close>

lemma run_adapter_machine:
  "exec_bind (run_adapter process calls task)
     (\<lambda>(rs, task'). Done (map (\<lambda>(res, output). (res, seen output)) rs, state task'))
   = exec_bind (run_all step (map (\<lambda>(input, output, w). trigger input w) calls) (state task))
       (\<lambda>(outs, m'). Done (map report outs, m'))"
proof (induction calls arbitrary: task)
  case (Cons call calls)
  obtain input slot w where call: "call = (input, slot, w)" by (metis prod.exhaust)
  show ?case
  proof (cases "run_step_all step (state task) (trigger input w)")
    case (Panic p)
    with process_panic [OF Panic, of slot] show ?thesis by (simp add: call)
  next
    case (Done r)
    then obtain outs m' where r: "run_step_all step (state task) (trigger input w) = Done (outs, m')"
      by (metis prod.exhaust)
    obtain res task' slot' w' where p: "process task input slot w = Done (res, task', slot', w')"
      and s: "state task' = m'" "report outs = (res, seen slot')"
      using process_done [OF r, of slot] by force
    from Cons.IH [of task'] show ?thesis
      by (cases "run_adapter process calls task'";
          cases "run_all step (map (\<lambda>(input, output, w). trigger input w) calls) m'")
        (auto simp: call r p s split: prod.splits)
  qed
qed simp

lemma run_adapter_cases:
  obtains (Panic) p where
      "run_adapter process calls task = Panic p"
      "run_all step (map (\<lambda>(input, output, w). trigger input w) calls) (state task) = Panic p"
    | (Done) rs task' outs where
      "run_adapter process calls task = Done (rs, task')"
      "run_all step (map (\<lambda>(input, output, w). trigger input w) calls) (state task)
         = Done (outs, state task')"
      "map (\<lambda>(res, output). (res, seen output)) rs = map report outs"
proof -
  let ?ts = "map (\<lambda>(input, output, w). trigger input w) calls"
  note R = run_adapter_machine [of calls task]
  show thesis
  proof (cases "run_adapter process calls task")
    case (Panic p)
    with R show thesis
      by (cases "run_all step ?ts (state task)") (auto intro: that(1) split: prod.splits)
  next
    case (Done r)
    then obtain rs task' where r: "run_adapter process calls task = Done (rs, task')"
      by (metis prod.exhaust)
    with R show thesis
      by (cases "run_all step ?ts (state task)") (auto intro: that(2) [OF r] split: prod.splits)
  qed
qed

end

section \<open>The adapters of the code\<close>

definition single_report :: "'o list \<Rightarrow> (cu_error + unit) \<times> 'o option" where
  "single_report outs =
     (if length outs \<le> 1 then Inr ()
      else Inl (Cu_Error (display_extra_emits (Extra_Emits (length outs)))),
      if length outs = 1 then Some (hd outs) else None)"

definition batch_report :: "'o list \<Rightarrow> (cu_error + unit) \<times> 'o batch option" where
  "batch_report outs = (Inr (), if outs = [] then None else Some (Batch outs))"

lemma fsm_task_adapter:
  assumes "cu_msg om"
  shows "fsm_adapter (fsm_task_process clk im om step) (\<lambda>input w. fst (trigger_for clk im input w))
    step machine (payload om) single_report"
proof unfold_locales
  fix task :: "_ fsm_task" and input slot w outs m'
  assume s: "run_step_all step (machine task) (fst (trigger_for clk im input w)) = Done (outs, m')"
  obtain res slot' w' where f: "forward_single clk om slot (snd (trigger_for clk im input w)) outs
      = (res, slot', w')" by (metis prod.exhaust)
  have "(res, payload om slot') = single_report outs"
    using fst_forward_single [of clk om slot "snd (trigger_for clk im input w)" outs]
      payload_forward_single [OF assms, of clk slot "snd (trigger_for clk im input w)" outs]
    by (simp add: f single_report_def)
  then show "\<exists>res task' slot' w'. fsm_task_process clk im om step task input slot w
        = Done (res, task', slot', w') \<and> machine task' = m'
      \<and> (res, payload om slot') = single_report outs"
    by (simp add: fsm_task_process_alt s f)
qed (simp add: fsm_task_process_alt)

lemma fsm_batch_task_adapter:
  assumes "cu_msg om"
  shows "fsm_adapter (fsm_batch_task_process clk im om step)
    (\<lambda>input w. fst (trigger_for clk im input w)) step batch_machine (payload om) batch_report"
proof unfold_locales
  fix task :: "_ fsm_batch_task" and input slot w outs m'
  assume s: "run_step_all step (batch_machine task) (fst (trigger_for clk im input w))
    = Done (outs, m')"
  obtain res slot' w' where f: "forward_batch clk om slot (snd (trigger_for clk im input w)) outs
      = (res, slot', w')" by (metis prod.exhaust)
  have "(res, payload om slot') = batch_report outs"
    using fst_forward_batch [of clk om slot "snd (trigger_for clk im input w)" outs]
      payload_forward_batch [OF assms, of clk slot "snd (trigger_for clk im input w)" outs]
    by (simp add: f batch_report_def)
  then show "\<exists>res task' slot' w'. fsm_batch_task_process clk im om step task input slot w
        = Done (res, task', slot', w') \<and> batch_machine task' = m'
      \<and> (res, payload om slot') = batch_report outs"
    by (simp add: fsm_batch_task_process_alt s f batch_report_def)
qed (simp add: fsm_batch_task_process_alt)

interpretation slot_single: fsm_adapter "fsm_task_process clk im slot_api step"
    "\<lambda>input w. fst (trigger_for clk im input w)" step machine "payload slot_api" single_report
  by (rule fsm_task_adapter [OF slot_msg.cu_msg_axioms])

interpretation slot_batch: fsm_adapter "fsm_batch_task_process clk im slot_api step"
    "\<lambda>input w. fst (trigger_for clk im input w)" step batch_machine "payload slot_api" batch_report
  by (rule fsm_batch_task_adapter [OF slot_msg.cu_msg_axioms])

lemma stamped_triggers:
  "\<forall>call \<in> set calls. stamped im (call_input call) \<Longrightarrow>
     map (\<lambda>(input, output, w). fst (trigger_for clk im input w)) calls
       = map (logged_trigger clk im \<circ> call_input) calls"
  by (auto simp: stamped_trigger)

section \<open>The recording of a run\<close>

text \<open>What the log holds of a run: the id, the input and the payload of the output slot of each call.\<close>

definition run_recording ::
    "('w, 't, 'r) clock_api \<Rightarrow> ('mi, 'i, 't, 'r) msg_api \<Rightarrow> ('mo \<Rightarrow> 'p) \<Rightarrow> u64 list \<Rightarrow>
     ('mi, 'mo, 'w) call list \<Rightarrow> ((cu_error + unit) \<times> 'mo) list \<Rightarrow> ('i trigger, 'p) recorded list"
  where
  "run_recording clk im seen ids calls rs =
     map (\<lambda>(i, call, res, output).
       \<lparr>rec_id = i, rec_input = logged_trigger clk im (call_input call), rec_output = seen output\<rparr>)
       (zip ids (zip calls rs))"

lemma run_all_length: "run_all step ts m = Done (outs, m') \<Longrightarrow> length outs = length ts"
  by (induction ts arbitrary: m outs) auto

lemma run_recording_fields:
  assumes "length ids = length calls" and "length rs = length calls"
  shows "map rec_id (run_recording clk im seen ids calls rs) = ids"
    and "map rec_input (run_recording clk im seen ids calls rs)
      = map (logged_trigger clk im \<circ> call_input) calls"
    and "map rec_output (run_recording clk im seen ids calls rs) = map (seen \<circ> snd) rs"
    and "length (run_recording clk im seen ids calls rs) = length calls"
  using assms by (auto simp: run_recording_def split_def intro!: nth_equalityI)

text \<open>The closures a service gives the gate: a machine stepped with the seam of its adapter.\<close>

definition single_replay ::
    "('m, 'i, 'o) fsm_step \<Rightarrow> 'i trigger \<Rightarrow> 'm \<Rightarrow> ('o option \<times> 'm) exec" where
  "single_replay step t m = run_step step m t"

definition batch_replay ::
    "('m, 'i, 'o) fsm_step \<Rightarrow> 'i trigger \<Rightarrow> 'm \<Rightarrow> ('o batch option \<times> 'm) exec" where
  "batch_replay step t m =
     exec_bind (run_step_all step m t)
       (\<lambda>(outs, m). Done (if outs \<noteq> [] then Some (Batch outs) else None, m))"

lemma replay_outputs_batch:
  "replay_outputs (batch_replay step) ts m =
     exec_bind (run_all step ts m) (\<lambda>(outs, m'). Done (map (snd \<circ> batch_report) outs))"
proof (induction ts arbitrary: m)
  case (Cons t ts)
  show ?case
  proof (cases "run_step_all step m t")
    case (Panic p)
    then show ?thesis by (simp add: batch_replay_def)
  next
    case (Done r)
    then obtain os m1 where s: "run_step_all step m t = Done (os, m1)" by (metis prod.exhaust)
    have "batch_replay step t m = Done (snd (batch_report os), m1)"
      by (simp add: batch_replay_def batch_report_def s)
    then show ?thesis
      by (cases "run_all step ts m1") (auto simp: s Cons.IH)
  qed
qed simp

lemma replay_outputs_single:
  "run_all step ts m = Done (outs, m') \<Longrightarrow> \<forall>os \<in> set outs. length os \<le> 1 \<Longrightarrow>
     replay_outputs (single_replay step) ts m = Done (map (snd \<circ> single_report) outs)"
proof (induction ts arbitrary: m outs)
  case (Cons t ts)
  then obtain os m1 rest where s: "run_step_all step m t = Done (os, m1)"
    and r: "run_all step ts m1 = Done (rest, m')" and outs: "outs = os # rest"
    by auto
  have "run_step step m t = Done (if length os = 1 then Some (hd os) else None, m1)"
    using Cons.prems(2) by (auto simp: outs run_step_cases s le_Suc_eq length_Suc_conv)
  with Cons.IH [OF r] Cons.prems(2) outs show ?case
    by (simp add: single_replay_def single_report_def)
qed simp

text \<open>A run that returned over stamped inputs, its steps and its log.\<close>

lemma adapter_log:
  assumes "fsm_adapter process (\<lambda>input w. fst (trigger_for clk im input w)) step state seen report"
    and "\<forall>call \<in> set calls. stamped im (call_input call)"
    and "run_adapter process calls task = Done (rs, task')" and "length ids = length calls"
  obtains outs where
    "run_all step (map (logged_trigger clk im \<circ> call_input) calls) (state task)
       = Done (outs, state task')"
    "map fst rs = map (fst \<circ> report) outs"
    "map rec_id (run_recording clk im seen ids calls rs) = ids"
    "map rec_input (run_recording clk im seen ids calls rs)
       = map (logged_trigger clk im \<circ> call_input) calls"
    "map rec_output (run_recording clk im seen ids calls rs) = map (snd \<circ> report) outs"
    "length (run_recording clk im seen ids calls rs) = length calls"
proof (rule fsm_adapter.run_adapter_cases [OF assms(1), of calls task])
  fix rs1 task1 outs
  assume "run_adapter process calls task = Done (rs1, task1)"
    and "run_all step (map (\<lambda>(input, output, w). fst (trigger_for clk im input w)) calls) (state task)
      = Done (outs, state task1)"
    and rs1: "map (\<lambda>(res, output). (res, seen output)) rs1 = map report outs"
  then have run: "run_all step (map (logged_trigger clk im \<circ> call_input) calls) (state task)
      = Done (outs, state task')" and rs: "rs1 = rs"
    by (simp_all only: stamped_triggers [OF assms(2)] assms(3) exec.inject prod.inject)
  from rs1 have "map fst (map (\<lambda>(res, output). (res, seen output)) rs) = map fst (map report outs)"
    and "map snd (map (\<lambda>(res, output). (res, seen output)) rs) = map snd (map report outs)"
    by (simp_all only: rs)
  then have res: "map fst rs = map (fst \<circ> report) outs"
    and out: "map (seen \<circ> snd) rs = map (snd \<circ> report) outs"
    by (simp_all add: comp_def split_def)
  have "length rs = length outs" using res by (rule map_eq_imp_length_eq)
  with run_all_length [OF run] have "length rs = length calls" by simp
  with run_recording_fields [OF assms(4), of rs clk im seen] out show thesis
    by (intro that [OF run res]) simp_all
qed (use assms(3) in simp)

section \<open>Properties\<close>

text \<open>
  C16. \<open>FsmTask\<close> is a function of the log: over any calls whose input slots carry a payload or a time
  of validity, with any clock readings and any old contents of the output slots, what each call
  returns and leaves in its output slot, the machine at the end and a panic on the way are those of
  the bare machine run over the logged triggers. A step that emits twice is reported as an error,
  clears its slot and keeps the machine.
\<close>

theorem fsm_task_run_is_logged:
  assumes "cu_msg om"
    and "\<forall>call \<in> set calls. stamped im (call_input call)"
  shows "exec_bind (run_adapter (fsm_task_process clk im om step) calls \<lparr>machine = m\<rparr>)
           (\<lambda>(rs, task'). Done (map (\<lambda>(res, output). (res, payload om output)) rs, machine task'))
         = exec_bind (run_all step (map (logged_trigger clk im \<circ> call_input) calls) m)
             (\<lambda>(outs, m'). Done (map single_report outs, m'))"
  using fsm_adapter.run_adapter_machine [OF fsm_task_adapter [OF assms(1)],
      of clk im step calls "\<lparr>machine = m\<rparr>"]
  by (simp add: stamped_triggers [OF assms(2)])

definition demo_calls :: "((u32, u64, u64 \<times> u64) slot, (u32, u64, u64 \<times> u64) slot, u64) call list"
  where
  "demo_calls =
     [(test_input (Some 1) Tov_None, fresh_slot, 999),
      (test_input None (Tov_Time 42), test_input (Some 7) (Tov_Time 3), 5),
      (test_input None (Tov_Range (50, 60)), fresh_slot, 0)]"

lemma demo_calls_stamped: "\<forall>call \<in> set demo_calls. stamped slot_api (call_input call)"
  by (simp add: demo_calls_def stamped_def slot_api_def)

theorem fsm_task_run_is_logged_witness:
  "exec_bind (run_adapter (fsm_task_process mock_clock slot_api slot_api (double_emitter_step True))
       demo_calls \<lparr>machine = ()\<rparr>)
     (\<lambda>(rs, task'). Done (map (\<lambda>(res, output). (res, payload slot_api output)) rs, machine task'))
   = Done ([(Inl (Cu_Error (display_extra_emits (Extra_Emits 2))), None), (Inr (), None),
            (Inr (), None)], ())"
proof -
  have "exec_bind (run_all (double_emitter_step True)
        (map (logged_trigger mock_clock slot_api \<circ> call_input) demo_calls) ())
      (\<lambda>(outs, m'). Done (map single_report outs, m'))
    = Done ([(Inl (Cu_Error (display_extra_emits (Extra_Emits 2))), None), (Inr (), None),
            (Inr (), None)], ())"
    by code_simp
  with fsm_task_run_is_logged [OF slot_msg.cu_msg_axioms demo_calls_stamped,
      of mock_clock "double_emitter_step True" "()"]
  show ?thesis by (simp only:)
qed

text \<open>
  C15. The replay promise of the framework, for every machine: take any run of \<open>FsmBatchTask\<close> that
  returned, over stamped inputs, in any worlds, and log it under consecutive copperlist ids. The
  replay gate, given the log and a cold machine stepped with \<open>run_step_all\<close>, passes: no step
  diverges, whatever the payload types and their encoding are.
\<close>

theorem fsm_batch_task_log_passes_gate:
  assumes "cu_msg om"
    and "\<forall>call \<in> set calls. stamped im (call_input call)"
    and "run_adapter (fsm_batch_task_process clk im om step) calls \<lparr>batch_machine = m\<rparr>
           = Done (rs, task')"
    and "length ids = length calls" and "calls \<noteq> []" and "length calls < 2 ^ 64"
    and "consecutive ids" and "ids_in_range oc ids"
  shows "\<exists>report. replay_gate oc encode show_i show_o
           (run_recording clk im (payload om) ids calls rs) (batch_replay step) m = Done report
         \<and> passed report"
proof (rule adapter_log [OF fsm_batch_task_adapter [OF assms(1)] assms(2-4)])
  fix outs
  let ?log = "run_recording clk im (payload om) ids calls rs"
  assume run: "run_all step (map (logged_trigger clk im \<circ> call_input) calls)
      (batch_machine \<lparr>batch_machine = m\<rparr>) = Done (outs, batch_machine task')"
    and log: "map rec_id ?log = ids" "length ?log = length calls"
      "map rec_input ?log = map (logged_trigger clk im \<circ> call_input) calls"
      "map rec_output ?log = map (snd \<circ> batch_report) outs"
  have "replay_outputs (batch_replay step) (map rec_input ?log) m = Done (map rec_output ?log)"
    using run by (simp add: log replay_outputs_batch)
  then obtain report where "replay_gate oc encode show_i show_o ?log (batch_replay step) m = Done report"
    "passed report"
    by (rule gate_accepts_self) (use assms(5-8) log in \<open>auto simp flip: length_greater_0_conv\<close>)
  then show ?thesis by blast
qed

definition demo_batch_calls ::
    "((u32, u64, u64 \<times> u64) slot, (u32 batch, u64, u64 \<times> u64) slot, u64) call list" where
  "demo_batch_calls =
     [(test_input (Some 1) Tov_None, fresh_slot, 999),
      (test_input None (Tov_Time 42), \<lparr>slot_payload = Some (Batch [7]), slot_tov = Tov_Time 3\<rparr>, 5)]"

definition encode_values :: "u32 batch option \<Rightarrow> unit + nat list" where
  "encode_values b = Inr (case b of None \<Rightarrow> [0] | Some vs \<Rightarrow> 1 # map unat (batch_values vs))"

theorem fsm_batch_task_log_passes_gate_witness:
  "\<exists>rs task' report. run_adapter (fsm_batch_task_process mock_clock slot_api slot_api
         (double_emitter_step True)) demo_batch_calls \<lparr>batch_machine = ()\<rparr> = Done (rs, task')
     \<and> map (payload slot_api \<circ> snd) rs = [Some (Batch [1, 2]), None]
     \<and> replay_gate True encode_values (\<lambda>_. '''') (\<lambda>_. '''')
         (run_recording mock_clock slot_api (payload slot_api) [7, 8] demo_batch_calls rs)
         (batch_replay (double_emitter_step True)) () = Done report
     \<and> passed report"
proof -
  let ?run = "run_adapter (fsm_batch_task_process mock_clock slot_api slot_api
    (double_emitter_step True)) demo_batch_calls \<lparr>batch_machine = ()\<rparr>"
  have "(case ?run of Done (rs, _) \<Rightarrow> map (payload slot_api \<circ> snd) rs | Panic p \<Rightarrow> [])
      = [Some (Batch [1, 2]), None]" by code_simp
  then obtain rs task' where run: "?run = Done (rs, task')"
    and seen: "map (payload slot_api \<circ> snd) rs = [Some (Batch [1, 2]), None]"
    by (auto split: exec.splits)
  have "\<forall>call \<in> set demo_batch_calls. stamped slot_api (call_input call)"
    by (simp add: demo_batch_calls_def stamped_def slot_api_def)
  moreover have "length [7, 8 :: u64] = length demo_batch_calls" "demo_batch_calls \<noteq> []"
      "length demo_batch_calls < 2 ^ 64" "consecutive [7, 8]" "ids_in_range True [7, 8]"
    by (simp_all add: demo_batch_calls_def ids_in_range_def)
  ultimately obtain report where "replay_gate True encode_values (\<lambda>_. '''') (\<lambda>_. '''')
         (run_recording mock_clock slot_api (payload slot_api) [7, 8] demo_batch_calls rs)
         (batch_replay (double_emitter_step True)) () = Done report \<and> passed report"
    using fsm_batch_task_log_passes_gate [OF slot_msg.cu_msg_axioms _ run] by blast
  with run seen show ?thesis
    by (intro exI [of _ rs] exI [of _ task'] exI [of _ report] conjI) simp_all
qed

text \<open>
  The same for \<open>FsmTask\<close> and \<open>run_step\<close>, for a run in which no call reported a double emit (with one,
  the seam panics where the task went on).
\<close>

lemma fsm_task_log_passes_gate:
  assumes "cu_msg om"
    and "\<forall>call \<in> set calls. stamped im (call_input call)"
    and "run_adapter (fsm_task_process clk im om step) calls \<lparr>machine = m\<rparr> = Done (rs, task')"
    and "\<forall>r \<in> set rs. fst r = Inr ()"
    and "length ids = length calls" and "calls \<noteq> []" and "length calls < 2 ^ 64"
    and "consecutive ids" and "ids_in_range oc ids"
  shows "\<exists>report. replay_gate oc encode show_i show_o
           (run_recording clk im (payload om) ids calls rs) (single_replay step) m = Done report
         \<and> passed report"
proof (rule adapter_log [OF fsm_task_adapter [OF assms(1)] assms(2,3,5)])
  fix outs
  let ?log = "run_recording clk im (payload om) ids calls rs"
  assume run: "run_all step (map (logged_trigger clk im \<circ> call_input) calls)
      (machine \<lparr>machine = m\<rparr>) = Done (outs, machine task')"
    and res: "map fst rs = map (fst \<circ> single_report) outs"
    and log: "map rec_id ?log = ids" "length ?log = length calls"
      "map rec_input ?log = map (logged_trigger clk im \<circ> call_input) calls"
      "map rec_output ?log = map (snd \<circ> single_report) outs"
  have "fst (single_report os) = Inr ()" if "os \<in> set outs" for os
  proof -
    have "fst (single_report os) \<in> set (map fst rs)" using that by (simp add: res)
    with assms(4) show ?thesis by auto
  qed
  then have "\<forall>os \<in> set outs. length os \<le> 1"
    by (fastforce simp: single_report_def split: if_splits)
  with run have "replay_outputs (single_replay step) (map rec_input ?log) m
      = Done (map rec_output ?log)"
    by (simp add: log replay_outputs_single)
  then obtain report where "replay_gate oc encode show_i show_o ?log (single_replay step) m = Done report"
    "passed report"
    by (rule gate_accepts_self) (use assms(6-9) log in \<open>auto simp flip: length_greater_0_conv\<close>)
  then show ?thesis by blast
qed

end
