(* ===== verification/Channels.thy ===== *)
theory Channels
  imports Copper
begin

text \<open>
  The interface of \<open>crossbeam_channel\<close>, whose code is not in the repository: the receiver and
  sender operations the tasks call, as records, and the documented behaviour they rely on, as
  locales. The other end of a channel runs on another thread, so every operation may let it move:
  between two observations the channel can only have gained messages. \<open>arrived\<close> is everything
  ever sent into the inbound channel, \<open>taken\<close> what was received from it, \<open>sent\<close> what was put
  into the outbound channel. \<open>sim_world\<close> is an executable world in which a script decides what
  the other thread sends before each operation.
\<close>

section \<open>Operations and laws\<close>

record ('w, 'h, 'v, 'e) rx_api =
  try_recv :: "'h \<Rightarrow> 'w \<Rightarrow> ('e + 'v) \<times> 'w"
  rx_len :: "'h \<Rightarrow> 'w \<Rightarrow> usize \<times> 'w"

record ('w, 'h, 'v, 'e) tx_api =
  send :: "'h \<Rightarrow> 'v \<Rightarrow> 'w \<Rightarrow> ('e + unit) \<times> 'w"
  send_error_to_string :: "'e \<Rightarrow> string"

text \<open>
  One inbound channel with handle \<open>hin\<close>. Messages leave it in the order in which they entered;
  \<open>try_recv\<close> fails only when nothing is queued; reading the length or the clock takes nothing.
\<close>

locale rx_world =
  fixes rxa :: "('w, 'h, 'v, 'e) rx_api"
    and clk :: "('w, 't, 'r) clock_api"
    and hin :: 'h
    and arrived :: "'w \<Rightarrow> 'v list"
    and taken :: "'w \<Rightarrow> 'v list"
  assumes taken_arrived: "prefix (taken w) (arrived w)"
    and recv_some: "try_recv rxa hin w = (Inr v, w') \<Longrightarrow> taken w' = taken w @ [v]"
    and recv_none: "try_recv rxa hin w = (Inl e, w') \<Longrightarrow> taken w' = taken w \<and> arrived w' = taken w"
    and recv_grows: "prefix (arrived w) (arrived (snd (try_recv rxa hin w)))"
    and len_taken: "taken (snd (rx_len rxa hin w)) = taken w"
    and len_grows: "prefix (arrived w) (arrived (snd (rx_len rxa hin w)))"
    and len_value:
      "fst (rx_len rxa hin w) =
         of_nat (length (arrived (snd (rx_len rxa hin w))) - length (taken (snd (rx_len rxa hin w))))"
    and now_taken: "taken (snd (now clk w)) = taken w"
    and now_grows: "prefix (arrived w) (arrived (snd (now clk w)))"
begin

text \<open>What is queued now: everything that arrived and was not taken.\<close>

lemma arrived_split: "arrived w = taken w @ drop (length (taken w)) (arrived w)"
  by (simp add: prefix_drop_append taken_arrived)

end

text \<open>
  The world of a running service: the inbound channel, and an outbound channel with handle
  \<open>hout\<close> that operations on the inbound side leave alone.
\<close>

locale dag_world = rx_world rxa clk hin arrived taken
  for rxa :: "('w, 'h, 'v, 'e) rx_api"
    and clk :: "('w, 't, 'r) clock_api"
    and hin :: 'h
    and arrived :: "'w \<Rightarrow> 'v list"
    and taken :: "'w \<Rightarrow> 'v list" +
  fixes txa :: "('w, 'g, 'o, 'f) tx_api"
    and hout :: 'g
    and sent :: "'w \<Rightarrow> 'o list"
  assumes send_some: "send txa hout v w = (Inr u, w') \<Longrightarrow> sent w' = sent w @ [v]"
    and send_none: "send txa hout v w = (Inl f, w') \<Longrightarrow> sent w' = sent w"
    and send_taken: "taken (snd (send txa hout v w)) = taken w"
    and send_grows: "prefix (arrived w) (arrived (snd (send txa hout v w)))"
    and recv_sent: "sent (snd (try_recv rxa hin w)) = sent w"
    and len_sent: "sent (snd (rx_len rxa hin w)) = sent w"
    and now_sent: "sent (snd (now clk w)) = sent w"

section \<open>The scripted world\<close>

record ('i, 'o) sim_world =
  sim_queue :: "'i list"
  sim_taken :: "'i list"
  sim_bursts :: "'i list list"
  sim_sent :: "'o list"
  sim_open :: bool
  sim_clock :: u64
  sim_period :: u64

text \<open>Before each operation the next burst of the script arrives.\<close>

definition sim_arrive :: "('i, 'o) sim_world \<Rightarrow> ('i, 'o) sim_world" where
  "sim_arrive w =
     (case sim_bursts w of
        [] \<Rightarrow> w
      | b # bs \<Rightarrow> w\<lparr>sim_queue := sim_queue w @ b, sim_bursts := bs\<rparr>)"

definition sim_try_recv :: "unit \<Rightarrow> ('i, 'o) sim_world \<Rightarrow> (unit + 'i) \<times> ('i, 'o) sim_world" where
  "sim_try_recv h w =
     (let w = sim_arrive w in
      (case sim_queue w of
         [] \<Rightarrow> (Inl (), w)
       | v # q \<Rightarrow> (Inr v, w\<lparr>sim_queue := q, sim_taken := sim_taken w @ [v]\<rparr>)))"

definition sim_len :: "unit \<Rightarrow> ('i, 'o) sim_world \<Rightarrow> usize \<times> ('i, 'o) sim_world" where
  "sim_len h w = (let w = sim_arrive w in (of_nat (length (sim_queue w)), w))"

text \<open>Each reading advances the scripted clock by its period.\<close>

definition sim_now :: "('i, 'o) sim_world \<Rightarrow> u64 \<times> ('i, 'o) sim_world" where
  "sim_now w =
     (let w = sim_arrive w in (sim_clock w, w\<lparr>sim_clock := sim_clock w + sim_period w\<rparr>))"

text \<open>Sending fails once the receiver is gone.\<close>

definition sim_send ::
    "unit \<Rightarrow> 'o \<Rightarrow> ('i, 'o) sim_world \<Rightarrow> (unit + unit) \<times> ('i, 'o) sim_world" where
  "sim_send h v w =
     (let w = sim_arrive w in
      if sim_open w then (Inr (), w\<lparr>sim_sent := sim_sent w @ [v]\<rparr>) else (Inl (), w))"

definition sim_rx :: "(('i, 'o) sim_world, unit, 'i, unit) rx_api" where
  "sim_rx = \<lparr>try_recv = sim_try_recv, rx_len = sim_len\<rparr>"

definition sim_tx :: "(('i, 'o) sim_world, unit, 'o, unit) tx_api" where
  "sim_tx =
     \<lparr>send = sim_send,
      send_error_to_string = (\<lambda>_. ''sending on a disconnected channel'')\<rparr>"

definition sim_clk :: "(('i, 'o) sim_world, u64, u64 \<times> u64) clock_api" where
  "sim_clk = \<lparr>now = sim_now, as_nanos = (\<lambda>t. t), range_start = fst\<rparr>"

definition sim_arrived :: "('i, 'o) sim_world \<Rightarrow> 'i list" where
  "sim_arrived w = sim_taken w @ sim_queue w"

lemmas sim_defs =
  sim_rx_def sim_tx_def sim_clk_def sim_try_recv_def sim_len_def sim_now_def sim_send_def
  sim_arrive_def sim_arrived_def

interpretation sim: dag_world sim_rx sim_clk "()" sim_arrived sim_taken sim_tx "()" sim_sent
  by unfold_locales
    (auto simp: sim_defs Let_def split: list.splits if_splits intro: prefixI [OF sym])

end
