(* ===== verification/Tasks.thy ===== *)
theory Tasks
  imports Fsm_Task Registry Channels
begin

text \<open>
  \<open>crates/msrs-transport/src/tasks.rs\<close>: the source and sink tasks that bridge the transport
  channels to the DAG. Each task struct is a record holding its channel handle; \<open>install\<close> and
  \<open>new\<close> go through the registry; \<open>process\<close> threads the world of channels and clock. The locale
  \<open>source_task\<close> is what the DAG expects of an ingress task; both ingress tasks provide it.
\<close>

section \<open>Copper-agnostic step helpers\<close>

definition ingress_step :: "('w, 'h, 'v, 'e) rx_api \<Rightarrow> 'h \<Rightarrow> 'w \<Rightarrow> 'v option \<times> 'w" where
  "ingress_step rxa rx w = (let (r, w) = try_recv rxa rx w in (result_ok r, w))"

definition egress_step ::
    "('w, 'h, 'v, 'e) tx_api \<Rightarrow> 'h \<Rightarrow> 'v option \<Rightarrow> 'w \<Rightarrow> (string + unit) \<times> 'w" where
  "egress_step txa tx value w =
     (case value of
        Some v \<Rightarrow> let (r, w) = send txa tx v w in (map_err (send_error_to_string txa) r, w)
      | None \<Rightarrow> (Inr (), w))"

record 'v cycle =
  now_ns :: u64
  events :: "'v list"
  pending :: u64

text \<open>
  \<open>rx.try_iter().take(n).collect()\<close>: the iterator asks the channel at most \<open>n\<close> times and stops at
  the first failed \<open>try_recv\<close>.
\<close>

fun try_iter_take :: "('w, 'h, 'v, 'e) rx_api \<Rightarrow> 'h \<Rightarrow> nat \<Rightarrow> 'w \<Rightarrow> 'v list \<times> 'w" where
  "try_iter_take rxa rx 0 w = ([], w)"
| "try_iter_take rxa rx (Suc n) w =
     (case try_recv rxa rx w of
        (Inl e, w) \<Rightarrow> ([], w)
      | (Inr v, w) \<Rightarrow> (let (vs, w) = try_iter_take rxa rx n w in (v # vs, w)))"

definition cycle_step ::
    "('w, 'h, 'v, 'e) rx_api \<Rightarrow> 'h \<Rightarrow> usize \<Rightarrow> u64 \<Rightarrow> 'w \<Rightarrow> 'v cycle \<times> 'w" where
  "cycle_step rxa rx batch_cap now_nanos w =
     (let (evs, w) = try_iter_take rxa rx (unat batch_cap) w;
          (n, w) = rx_len rxa rx w
      in (\<lparr>now_ns = now_nanos, events = evs, pending = n\<rparr>, w))"

section \<open>\<open>IngressTask\<close>\<close>

record 'h ingress_task =
  ingress_rx :: 'h

text \<open>
  \<open>install\<close> parks the receiver under the task type \<open>Self\<close> with the type \<open>Receiver<T>\<close>; \<open>new\<close>
  takes it out again. \<open>None\<close>: the registry lock is held by another thread.
\<close>

definition ingress_install ::
    "rust_type \<Rightarrow> rust_type \<Rightarrow> 'h \<Rightarrow> 'h registry \<Rightarrow> (unit exec \<times> 'h registry) option" where
  "ingress_install Self_ty rx_ty rx r = install Self_ty rx_ty rx r"

definition ingress_new ::
    "rust_type \<Rightarrow> rust_type \<Rightarrow> 'h registry \<Rightarrow>
     ((cu_error + 'h ingress_task) \<times> 'h registry) option" where
  "ingress_new Self_ty rx_ty r =
     (case registry_take Self_ty rx_ty r of
        None \<Rightarrow> None
      | Some (Inl e, r) \<Rightarrow> Some (Inl e, r)
      | Some (Inr rx, r) \<Rightarrow> Some (Inr \<lparr>ingress_rx = rx\<rparr>, r))"

definition ingress_process ::
    "('w, 't, 'r) clock_api \<Rightarrow> ('w, 'h, 'v, 'e) rx_api \<Rightarrow> ('mo, 'v, 't, 'r) msg_api \<Rightarrow>
     'h ingress_task \<Rightarrow> 'mo \<Rightarrow> 'w \<Rightarrow> (cu_error + unit) \<times> 'mo \<times> 'w" where
  "ingress_process clk rxa om task new_msg w =
     (let (v, w) = ingress_step rxa (ingress_rx task) w;
          new_msg = (case v of Some v \<Rightarrow> set_payload om v new_msg
                             | None \<Rightarrow> clear_payload om new_msg);
          (t, w) = now clk w
      in (Inr (), set_tov om (Tov_Time t) new_msg, w))"

section \<open>\<open>CycleIngressTask\<close>\<close>

definition DEFAULT_MAX_BATCH :: usize where
  "DEFAULT_MAX_BATCH = 64"

record 'h cycle_ingress_task =
  cycle_rx :: 'h
  max_batch :: usize

definition cycle_ingress_install ::
    "rust_type \<Rightarrow> rust_type \<Rightarrow> 'h \<Rightarrow> 'h registry \<Rightarrow> (unit exec \<times> 'h registry) option" where
  "cycle_ingress_install Self_ty rx_ty rx r = install Self_ty rx_ty rx r"

text \<open>
  \<open>cfg_get\<close> is \<open>ComponentConfig::get::<u32>\<close> of copper-rs: an error, or the value if the key is
  set. The batch size is settled before the registry is touched.
\<close>

definition configured_batch ::
    "('cfg \<Rightarrow> string \<Rightarrow> cu_error + u32 option) \<Rightarrow> 'cfg option \<Rightarrow> cu_error + usize" where
  "configured_batch cfg_get config =
     (case (case config of
              Some cfg \<Rightarrow>
                (case cfg_get cfg ''max_batch'' of
                   Inl e \<Rightarrow> Inl e
                 | Inr v \<Rightarrow> Inr (map_option (\<lambda>v. ucast v :: usize) v))
            | None \<Rightarrow> Inr None) of
        Inl e \<Rightarrow> Inl e
      | Inr None \<Rightarrow> Inr DEFAULT_MAX_BATCH
      | Inr (Some n) \<Rightarrow> Inr n)"

definition cycle_ingress_new ::
    "('cfg \<Rightarrow> string \<Rightarrow> cu_error + u32 option) \<Rightarrow> rust_type \<Rightarrow> rust_type \<Rightarrow> 'cfg option \<Rightarrow>
     'h registry \<Rightarrow> ((cu_error + 'h cycle_ingress_task) \<times> 'h registry) option" where
  "cycle_ingress_new cfg_get Self_ty rx_ty config r =
     (case configured_batch cfg_get config of
        Inl e \<Rightarrow> Some (Inl e, r)
      | Inr n \<Rightarrow>
          if n = 0 then Some (Inl (Cu_Error ''CycleIngressTask max_batch must be > 0''), r)
          else
            (case registry_take Self_ty rx_ty r of
               None \<Rightarrow> None
             | Some (Inl e, r) \<Rightarrow> Some (Inl e, r)
             | Some (Inr rx, r) \<Rightarrow> Some (Inr \<lparr>cycle_rx = rx, max_batch = n\<rparr>, r)))"

definition cycle_ingress_process ::
    "('w, 't, 'r) clock_api \<Rightarrow> ('w, 'h, 'v, 'e) rx_api \<Rightarrow> ('mo, 'v cycle, 't, 'r) msg_api \<Rightarrow>
     'h cycle_ingress_task \<Rightarrow> 'mo \<Rightarrow> 'w \<Rightarrow> (cu_error + unit) \<times> 'mo \<times> 'w" where
  "cycle_ingress_process clk rxa om task new_msg w =
     (let (c, w) = cycle_step rxa (cycle_rx task) (max_batch task) 0 w;
          (t, w) = now clk w;
          c = c\<lparr>now_ns := as_nanos clk t\<rparr>
      in (Inr (), set_tov om (Tov_Time t) (set_payload om c new_msg), w))"

section \<open>\<open>EgressTask\<close> and \<open>BatchEgressTask\<close>\<close>

record 'h egress_task =
  egress_tx :: 'h

definition egress_install ::
    "rust_type \<Rightarrow> rust_type \<Rightarrow> 'h \<Rightarrow> 'h registry \<Rightarrow> (unit exec \<times> 'h registry) option" where
  "egress_install Self_ty tx_ty tx r = install Self_ty tx_ty tx r"

definition egress_new ::
    "rust_type \<Rightarrow> rust_type \<Rightarrow> 'h registry \<Rightarrow>
     ((cu_error + 'h egress_task) \<times> 'h registry) option" where
  "egress_new Self_ty tx_ty r =
     (case registry_take Self_ty tx_ty r of
        None \<Rightarrow> None
      | Some (Inl e, r) \<Rightarrow> Some (Inl e, r)
      | Some (Inr tx, r) \<Rightarrow> Some (Inr \<lparr>egress_tx = tx\<rparr>, r))"

definition egress_process ::
    "('w, 'h, 'v, 'e) tx_api \<Rightarrow> ('mi, 'v, 't, 'r) msg_api \<Rightarrow> 'h egress_task \<Rightarrow> 'mi \<Rightarrow> 'w \<Rightarrow>
     (cu_error + unit) \<times> 'w" where
  "egress_process txa im task input w =
     (let (r, w) = egress_step txa (egress_tx task) (payload im input) w
      in (map_err Cu_Error r, w))"

record 'h batch_egress_task =
  batch_egress_tx :: 'h

definition batch_egress_install ::
    "rust_type \<Rightarrow> rust_type \<Rightarrow> 'h \<Rightarrow> 'h registry \<Rightarrow> (unit exec \<times> 'h registry) option" where
  "batch_egress_install Self_ty tx_ty tx r = install Self_ty tx_ty tx r"

definition batch_egress_new ::
    "rust_type \<Rightarrow> rust_type \<Rightarrow> 'h registry \<Rightarrow>
     ((cu_error + 'h batch_egress_task) \<times> 'h registry) option" where
  "batch_egress_new Self_ty tx_ty r =
     (case registry_take Self_ty tx_ty r of
        None \<Rightarrow> None
      | Some (Inl e, r) \<Rightarrow> Some (Inl e, r)
      | Some (Inr tx, r) \<Rightarrow> Some (Inr \<lparr>batch_egress_tx = tx\<rparr>, r))"

text \<open>The loop of \<open>BatchEgressTask::process\<close>: \<open>?\<close> leaves it at the first failed send.\<close>

fun egress_values ::
    "('w, 'h, 'v, 'e) tx_api \<Rightarrow> 'h \<Rightarrow> 'v list \<Rightarrow> 'w \<Rightarrow> (cu_error + unit) \<times> 'w" where
  "egress_values txa tx [] w = (Inr (), w)"
| "egress_values txa tx (v # vs) w =
     (case egress_step txa tx (Some v) w of
        (Inl e, w) \<Rightarrow> (Inl (Cu_Error e), w)
      | (Inr u, w) \<Rightarrow> egress_values txa tx vs w)"

definition batch_egress_process ::
    "('w, 'h, 'v, 'e) tx_api \<Rightarrow> ('mi, 'v batch, 't, 'r) msg_api \<Rightarrow> 'h batch_egress_task \<Rightarrow> 'mi \<Rightarrow>
     'w \<Rightarrow> (cu_error + unit) \<times> 'w" where
  "batch_egress_process txa im task input w =
     (case payload im input of
        Some (Batch values) \<Rightarrow> egress_values txa (batch_egress_tx task) values w
      | None \<Rightarrow> (Inr (), w))"

section \<open>The contract of an ingress task\<close>

text \<open>
  A source task never fails; what it puts on the copperlist is exactly what it takes from the
  channel, in order; and it takes at least \<open>cap\<close> messages while that many are queued.
\<close>

locale source_task =
  fixes proc :: "'mo \<Rightarrow> 'w \<Rightarrow> (cu_error + unit) \<times> 'mo \<times> 'w"
    and delivered :: "'mo \<Rightarrow> 'v list"
    and arr :: "'w \<Rightarrow> 'v list"
    and tkn :: "'w \<Rightarrow> 'v list"
    and cap :: nat
  assumes proc_ok: "proc m w = (res, m', w') \<Longrightarrow> res = Inr ()"
    and proc_taken: "proc m w = (res, m', w') \<Longrightarrow> tkn w' = tkn w @ delivered m'"
    and proc_grows: "proc m w = (res, m', w') \<Longrightarrow> prefix (arr w) (arr w')"
    and proc_prefix: "prefix (tkn w) (arr w)"
    and proc_progress: "proc m w = (res, m', w') \<Longrightarrow>
      min cap (length (arr w) - length (tkn w)) \<le> length (delivered m')"

text \<open>The source task run for \<open>n\<close> cycles, with everything it delivered.\<close>

fun run_source ::
    "('mo \<Rightarrow> 'w \<Rightarrow> (cu_error + unit) \<times> 'mo \<times> 'w) \<Rightarrow> ('mo \<Rightarrow> 'v list) \<Rightarrow> nat \<Rightarrow> 'mo \<Rightarrow> 'w \<Rightarrow>
     'v list \<times> 'mo \<times> 'w" where
  "run_source proc delivered 0 m w = ([], m, w)"
| "run_source proc delivered (Suc n) m w =
     (case proc m w of (res, m', w') \<Rightarrow>
        (case run_source proc delivered n m' w' of (vs, m'', w'') \<Rightarrow> (delivered m' @ vs, m'', w'')))"

context source_task
begin

lemma run_taken:
  "run_source proc delivered n m w = (vs, m', w') \<Longrightarrow>
     tkn w' = tkn w @ vs \<and> prefix (arr w) (arr w')"
proof (induction n arbitrary: m w vs)
  case (Suc n)
  obtain res m1 w1 where p: "proc m w = (res, m1, w1)" by (cases "proc m w")
  with Suc.prems obtain us where r: "run_source proc delivered n m1 w1 = (us, m', w')"
    and vs: "vs = delivered m1 @ us"
    by (auto split: prod.splits)
  from Suc.IH [OF r] proc_taken [OF p] proc_grows [OF p] vs show ?case
    by (auto intro: prefix_order.trans)
qed simp

text \<open>
  Whatever had arrived at some point is delivered once the channel has been polled for as many
  slots as were queued ahead of it.
\<close>

lemma run_delivers_backlog:
  assumes "run_source proc delivered n m w = (vs, m', w')"
    and "prefix A (arr w)" and "length A \<le> length (tkn w) + n * cap"
  shows "prefix A (tkn w')"
  using assms
proof (induction n arbitrary: m w vs)
  case 0
  then show ?case using proc_prefix [of w] by (auto intro: prefix_length_prefix)
next
  case (Suc n)
  obtain res m1 w1 where p: "proc m w = (res, m1, w1)" by (cases "proc m w")
  with Suc.prems(1) obtain us where r: "run_source proc delivered n m1 w1 = (us, m', w')"
    by (auto split: prod.splits)
  have A: "prefix A (arr w1)"
    using Suc.prems(2) proc_grows [OF p] by (rule prefix_order.trans)
  show ?case
  proof (cases "length A \<le> length (tkn w1)")
    case True
    with A have "prefix A (tkn w1)"
      using proc_prefix [of w1] by (blast intro: prefix_length_prefix)
    with run_taken [OF r] show ?thesis by (metis prefix_order.trans prefixI)
  next
    case False
    have "length A \<le> length (arr w)"
      using Suc.prems(2) by (rule prefix_length_le)
    with False proc_progress [OF p] proc_taken [OF p]
    have "length (tkn w) + cap \<le> length (tkn w1)" by simp
    with Suc.prems(3) have "length A \<le> length (tkn w1) + n * cap" by simp
    with A show ?thesis by (rule Suc.IH [OF r])
  qed
qed

end

section \<open>Draining a channel\<close>

context rx_world
begin

lemma recv_cases:
  obtains (msg) v w' where "try_recv rxa hin w = (Inr v, w')" "taken w' = taken w @ [v]"
      "prefix (arrived w) (arrived w')"
  | (none) e w' where "try_recv rxa hin w = (Inl e, w')" "taken w' = taken w" "arrived w' = taken w"
      "prefix (arrived w) (arrived w')"
proof (cases "try_recv rxa hin w")
  case (Pair r w')
  have "prefix (arrived w) (arrived w')" using recv_grows [of w] Pair by simp
  with Pair recv_some [of w] recv_none [of w] that show thesis by (cases r) metis+
qed

lemma try_iter_take_spec:
  "try_iter_take rxa hin n w = (vs, w') \<Longrightarrow>
     taken w' = taken w @ vs \<and> prefix (arrived w) (arrived w') \<and> length vs \<le> n \<and>
     (length vs < n \<longrightarrow> arrived w' = taken w')"
proof (induction n arbitrary: w vs)
  case (Suc n)
  show ?case
  proof (cases rule: recv_cases [of w])
    case (msg v w1)
    with Suc.prems obtain us where u: "try_iter_take rxa hin n w1 = (us, w')" "vs = v # us"
      by (auto split: prod.splits)
    from Suc.IH [OF u(1)] msg u(2) show ?thesis by (auto intro: prefix_order.trans)
  next
    case (none e w1)
    with Suc.prems show ?thesis by auto
  qed
qed simp

lemma try_iter_take_progress:
  assumes "try_iter_take rxa hin n w = (vs, w')"
  shows "min n (length (arrived w) - length (taken w)) \<le> length vs"
proof (cases "length vs < n")
  case True
  with try_iter_take_spec [OF assms] have "prefix (arrived w) (taken w @ vs)" by auto
  from prefix_length_le [OF this] show ?thesis by simp
qed (use try_iter_take_spec [OF assms] in simp)

lemma cycle_step_spec:
  assumes "cycle_step rxa hin mb t w = (c, w')"
  shows "taken w' = taken w @ events c" "prefix (arrived w) (arrived w')"
    "length (events c) \<le> unat mb" "now_ns c = t"
    "pending c = of_nat (length (arrived w') - length (taken w'))"
    "min (unat mb) (length (arrived w) - length (taken w)) \<le> length (events c)"
    "length (events c) < unat mb \<Longrightarrow> prefix (arrived w) (taken w')"
proof -
  obtain vs w1 where d: "try_iter_take rxa hin (unat mb) w = (vs, w1)"
    by (cases "try_iter_take rxa hin (unat mb) w")
  obtain n where l: "rx_len rxa hin w1 = (n, w')" and c: "c = \<lparr>now_ns = t, events = vs, pending = n\<rparr>"
    using assms d by (auto simp: cycle_step_def Let_def split: prod.splits)
  have l': "taken w' = taken w1" "prefix (arrived w1) (arrived w')"
    "n = of_nat (length (arrived w') - length (taken w'))"
    using len_taken [of w1] len_grows [of w1] len_value [of w1] l by simp_all
  note D = try_iter_take_spec [OF d] and P = try_iter_take_progress [OF d]
  show "taken w' = taken w @ events c" "length (events c) \<le> unat mb" "now_ns c = t"
    "pending c = of_nat (length (arrived w') - length (taken w'))"
    "min (unat mb) (length (arrived w) - length (taken w)) \<le> length (events c)"
    using D P l' c by simp_all
  show "prefix (arrived w) (arrived w')" using D l' by (auto intro: prefix_order.trans)
  show "prefix (arrived w) (taken w')" if "length (events c) < unat mb"
    using D l'(1) c that by (metis cycle.select_convs(2))
qed

end

text \<open>
  The two ingress tasks in a world that satisfies the channel and message laws: each is a source
  task, with a capacity of one message and of \<open>max_batch\<close> messages per cycle.
\<close>

locale ingress_world = rx_world rxa clk hin arrived taken + cu_msg om
  for rxa :: "('w, 'h, 'v, 'e) rx_api"
    and clk :: "('w, 't, 'r) clock_api"
    and hin :: 'h
    and arrived :: "'w \<Rightarrow> 'v list"
    and taken :: "'w \<Rightarrow> 'v list"
    and om :: "('mo, 'v, 't, 'r) msg_api"

locale cycle_ingress_world = rx_world rxa clk hin arrived taken + cu_msg om
  for rxa :: "('w, 'h, 'v, 'e) rx_api"
    and clk :: "('w, 't, 'r) clock_api"
    and hin :: 'h
    and arrived :: "'w \<Rightarrow> 'v list"
    and taken :: "'w \<Rightarrow> 'v list"
    and om :: "('mo, 'v cycle, 't, 'r) msg_api" +
  fixes mb :: usize

definition slot_messages :: "('mo, 'v, 't, 'r) msg_api \<Rightarrow> 'mo \<Rightarrow> 'v list" where
  "slot_messages om m = (case payload om m of None \<Rightarrow> [] | Some v \<Rightarrow> [v])"

definition slot_events :: "('mo, 'v cycle, 't, 'r) msg_api \<Rightarrow> 'mo \<Rightarrow> 'v list" where
  "slot_events om m = (case payload om m of None \<Rightarrow> [] | Some c \<Rightarrow> events c)"

context ingress_world
begin

lemma ingress_process_spec:
  assumes "ingress_process clk rxa om \<lparr>ingress_rx = hin\<rparr> m w = (res, m', w')"
  shows "res = Inr ()" "taken w' = taken w @ slot_messages om m'" "prefix (arrived w) (arrived w')"
    "\<exists>t. msg_tov om m' = Tov_Time t"
    "min 1 (length (arrived w) - length (taken w)) \<le> length (slot_messages om m')"
proof -
  obtain t w2 where n: "now clk (snd (try_recv rxa hin w)) = (t, w2)"
    by (cases "now clk (snd (try_recv rxa hin w))")
  have n': "taken w2 = taken (snd (try_recv rxa hin w))"
    "prefix (arrived (snd (try_recv rxa hin w))) (arrived w2)"
    using now_taken [of "snd (try_recv rxa hin w)"] now_grows [of "snd (try_recv rxa hin w)"] n
    by simp_all
  have r: "res = Inr ()" "w' = w2"
    "m' = set_tov om (Tov_Time t) (case result_ok (fst (try_recv rxa hin w)) of
        None \<Rightarrow> clear_payload om m | Some v \<Rightarrow> set_payload om v m)"
    using assms n by (auto simp: ingress_process_def ingress_step_def Let_def split: prod.splits)
  show "res = Inr ()" "\<exists>t. msg_tov om m' = Tov_Time t" using r by simp_all
  show "taken w' = taken w @ slot_messages om m'" "prefix (arrived w) (arrived w')"
    "min 1 (length (arrived w) - length (taken w)) \<le> length (slot_messages om m')"
    using n' r
    by (cases rule: recv_cases [of w];
        auto simp: slot_messages_def intro: prefix_order.trans dest: prefix_length_le)+
qed

end

sublocale ingress_world \<subseteq> ingress_src: source_task
  "ingress_process clk rxa om \<lparr>ingress_rx = hin\<rparr>" "slot_messages om" arrived taken 1
  by unfold_locales (auto dest: ingress_process_spec simp: taken_arrived)

context cycle_ingress_world
begin

lemma cycle_process_spec:
  assumes "cycle_ingress_process clk rxa om \<lparr>cycle_rx = hin, max_batch = mb\<rparr> m w = (res, m', w')"
  obtains c t w1 where "cycle_step rxa hin mb 0 w = (c, w1)" "now clk w1 = (t, w')"
    "res = Inr ()" "payload om m' = Some (c\<lparr>now_ns := as_nanos clk t\<rparr>)" "msg_tov om m' = Tov_Time t"
    "taken w' = taken w1" "prefix (arrived w1) (arrived w')"
proof -
  obtain c w1 where c: "cycle_step rxa hin mb 0 w = (c, w1)" by (cases "cycle_step rxa hin mb 0 w")
  obtain t w2 where n: "now clk w1 = (t, w2)" by (cases "now clk w1")
  from assms c n have r: "res = Inr ()" "w' = w2"
    "m' = set_tov om (Tov_Time t) (set_payload om (c\<lparr>now_ns := as_nanos clk t\<rparr>) m)"
    by (auto simp: cycle_ingress_process_def)
  show thesis
    by (rule that [OF c, of t]) (use n r now_taken [of w1] now_grows [of w1] in simp_all)
qed

end

sublocale cycle_ingress_world \<subseteq> cycle_src: source_task
  "cycle_ingress_process clk rxa om \<lparr>cycle_rx = hin, max_batch = mb\<rparr>" "slot_events om"
  arrived taken "unat mb"
proof unfold_locales
  fix m w res m' w'
  assume a: "cycle_ingress_process clk rxa om \<lparr>cycle_rx = hin, max_batch = mb\<rparr> m w = (res, m', w')"
  obtain c t w1 where
      "cycle_step rxa hin mb 0 w = (c, w1)" "res = Inr ()"
      "payload om m' = Some (c\<lparr>now_ns := as_nanos clk t\<rparr>)"
      "taken w' = taken w1" "prefix (arrived w1) (arrived w')"
    by (rule cycle_process_spec [OF a]) blast
  with cycle_step_spec [of mb 0 w c w1]
  show "res = Inr ()" "taken w' = taken w @ slot_events om m'" "prefix (arrived w) (arrived w')"
    "min (unat mb) (length (arrived w) - length (taken w)) \<le> length (slot_events om m')"
    by (auto simp: slot_events_def intro: prefix_order.trans)
qed (simp add: taken_arrived)

context ingress_world
begin

lemma ingress_source:
  "source_task (ingress_process clk rxa om \<lparr>ingress_rx = hin\<rparr>) (slot_messages om) arrived taken 1"
  by unfold_locales

end

context cycle_ingress_world
begin

lemma cycle_source:
  "source_task (cycle_ingress_process clk rxa om \<lparr>cycle_rx = hin, max_batch = mb\<rparr>)
     (slot_events om) arrived taken (unat mb)"
  by unfold_locales

end

interpretation sim_ingress: ingress_world sim_rx sim_clk "()" sim_arrived sim_taken slot_api
  by unfold_locales

interpretation sim_cycles: cycle_ingress_world sim_rx sim_clk "()" sim_arrived sim_taken slot_api mb
  for mb
  by unfold_locales

section \<open>Filling the outbound channel\<close>

context dag_world
begin

lemma egress_values_spec:
  "egress_values txa hout vs w = (res, w') \<Longrightarrow>
     \<exists>k \<le> length vs. sent w' = sent w @ take k vs
       \<and> (if k = length vs then res = Inr ()
           else \<exists>e. res = Inl (Cu_Error (send_error_to_string txa e)))"
proof (induction vs arbitrary: w)
  case (Cons v vs)
  obtain r w1 where s: "send txa hout v w = (r, w1)" by (cases "send txa hout v w")
  show ?case
  proof (cases r)
    case (Inl e)
    with s send_none [of v w e w1] Cons.prems show ?thesis
      by (intro exI [of _ 0]) (auto simp: egress_step_def)
  next
    case (Inr u)
    with s Cons.prems have "egress_values txa hout vs w1 = (res, w')"
      by (simp add: egress_step_def)
    from Cons.IH [OF this] obtain k where k: "k \<le> length vs" "sent w' = sent w1 @ take k vs"
        "if k = length vs then res = Inr ()
         else \<exists>e. res = Inl (Cu_Error (send_error_to_string txa e))" by blast
    have "sent w1 = sent w @ [v]"
      using send_some s Inr by blast
    with k show ?thesis by (intro exI [of _ "Suc k"]) auto
  qed
qed simp

lemma egress_values_ok:
  assumes "egress_values txa hout vs w = (Inr u, w')"
  shows "sent w' = sent w @ vs"
  using egress_values_spec [OF assms] by (auto split: if_splits)

text \<open>The inbound side leaves the outbound channel alone.\<close>

lemma try_iter_take_sent: "try_iter_take rxa hin n w = (vs, w') \<Longrightarrow> sent w' = sent w"
proof (induction n arbitrary: w vs)
  case (Suc n)
  obtain r w1 where t: "try_recv rxa hin w = (r, w1)" by (cases "try_recv rxa hin w")
  with recv_sent [of w] have "sent w1 = sent w" by simp
  with Suc t show ?case by (cases r) (fastforce split: prod.splits)+
qed simp

lemma cycle_ingress_sent:
  assumes "cycle_ingress_process clk rxa om \<lparr>cycle_rx = hin, max_batch = mb\<rparr> m w = (res, m', w')"
  shows "sent w' = sent w"
proof -
  obtain vs w1 where d: "try_iter_take rxa hin (unat mb) w = (vs, w1)"
    by (cases "try_iter_take rxa hin (unat mb) w")
  obtain n w2 where l: "rx_len rxa hin w1 = (n, w2)" by (cases "rx_len rxa hin w1")
  obtain t w3 where n: "now clk w2 = (t, w3)" by (cases "now clk w2")
  have "w' = w3"
    using assms d l n by (simp add: cycle_ingress_process_def cycle_step_def)
  with try_iter_take_sent [OF d] len_sent [of w1] now_sent [of w2] l n show ?thesis by simp
qed

lemma ingress_sent:
  assumes "ingress_process clk rxa om \<lparr>ingress_rx = hin\<rparr> m w = (res, m', w')"
  shows "sent w' = sent w"
  using assms recv_sent [of w] now_sent [of "snd (try_recv rxa hin w)"]
  by (auto simp: ingress_process_def ingress_step_def Let_def split: prod.splits)

lemma forward_batch_sent:
  "forward_batch clk om output w outs = (res, output', w') \<Longrightarrow> sent w' = sent w"
  using now_sent [of w] by (auto simp: forward_batch_def split: if_splits prod.splits)

lemma forward_single_sent:
  "forward_single clk om output w outs = (res, output', w') \<Longrightarrow> sent w' = sent w"
  using now_sent [of w] by (auto simp: forward_single_def split: list.splits prod.splits)

lemma forward_batch_taken:
  "forward_batch clk om output w outs = (res, output', w') \<Longrightarrow> taken w' = taken w"
  using now_taken [of w] by (auto simp: forward_batch_def split: if_splits prod.splits)

lemma egress_values_taken:
  "egress_values txa hout vs w = (res, w') \<Longrightarrow> taken w' = taken w"
proof (induction vs arbitrary: w)
  case (Cons v vs)
  obtain r w1 where s: "send txa hout v w = (r, w1)" by (cases "send txa hout v w")
  with send_taken [of v w] have "taken w1 = taken w" by simp
  with Cons s show ?case by (cases r) (auto simp: egress_step_def)
qed simp

lemma batch_egress_taken:
  "batch_egress_process txa im \<lparr>batch_egress_tx = hout\<rparr> m w = (res, w') \<Longrightarrow> taken w' = taken w"
  by (auto simp: batch_egress_process_def split: option.splits batch.splits
      dest: egress_values_taken)

text \<open>Forwarding and sending let messages arrive, and take none.\<close>

lemma forward_batch_rx:
  "forward_batch clk om output w outs = (res, output', w') \<Longrightarrow>
     taken w' = taken w \<and> prefix (arrived w) (arrived w')"
  using now_taken [of w] now_grows [of w]
  by (auto simp: forward_batch_def split: if_splits prod.splits)

lemma egress_values_grows:
  "egress_values txa hout vs w = (res, w') \<Longrightarrow> prefix (arrived w) (arrived w')"
proof (induction vs arbitrary: w)
  case (Cons v vs)
  obtain r w1 where s: "send txa hout v w = (r, w1)" by (cases "send txa hout v w")
  with send_grows [of w v] have "prefix (arrived w) (arrived w1)" by simp
  with Cons s show ?case by (cases r) (auto simp: egress_step_def intro: prefix_order.trans)
qed simp

lemma batch_egress_spec:
  assumes "batch_egress_process txa im \<lparr>batch_egress_tx = hout\<rparr> m w = (res, w')"
  shows "taken w' = taken w \<and> prefix (arrived w) (arrived w')"
    "res = Inr () \<Longrightarrow>
       sent w' = sent w @ (case payload im m of None \<Rightarrow> [] | Some b \<Rightarrow> batch_values b)"
proof -
  show "taken w' = taken w \<and> prefix (arrived w) (arrived w')"
    using assms by (auto simp: batch_egress_process_def split: option.splits batch.splits
        dest: egress_values_taken egress_values_grows)
  assume "res = Inr ()"
  with assms show "sent w' = sent w @ (case payload im m of None \<Rightarrow> [] | Some b \<Rightarrow> batch_values b)"
    by (auto simp: batch_egress_process_def split: option.splits batch.splits
        dest: egress_values_ok)
qed

lemma forward_single_rx:
  "forward_single clk om output w outs = (res, output', w') \<Longrightarrow>
     taken w' = taken w \<and> prefix (arrived w) (arrived w')"
  using now_taken [of w] now_grows [of w]
  by (auto simp: forward_single_def split: list.splits prod.splits)

lemma egress_process_spec:
  assumes "egress_process txa im \<lparr>egress_tx = hout\<rparr> m w = (res, w')"
  shows "taken w' = taken w \<and> prefix (arrived w) (arrived w')"
    "res = Inr () \<Longrightarrow> sent w' = sent w @ slot_messages im m"
    "res \<noteq> Inr () \<Longrightarrow> sent w' = sent w"
proof -
  show "taken w' = taken w \<and> prefix (arrived w) (arrived w')"
    using assms send_taken send_grows
    by (auto simp: egress_process_def egress_step_def split: option.splits prod.splits)
      (metis snd_conv)+
  assume "res = Inr ()"
  with assms show "sent w' = sent w @ slot_messages im m"
    by (auto simp: egress_process_def egress_step_def slot_messages_def dest: send_some
        split: option.splits prod.splits)
next
  assume "res \<noteq> Inr ()"
  with assms show "sent w' = sent w"
    by (auto simp: egress_process_def egress_step_def not_Ok_iff map_err_Inl_iff dest: send_none
        split: option.splits prod.splits)
qed

end

section \<open>Properties\<close>

text \<open>A scripted world for the witnesses: five messages queued, two more sent during the cycle.\<close>

definition demo_world :: "(nat, nat) sim_world" where
  "demo_world =
     \<lparr>sim_queue = [0, 1, 2, 3, 4], sim_taken = [], sim_bursts = [[], [5], [], [], [6]],
      sim_sent = [], sim_open = True, sim_clock = 77, sim_period = 5\<rparr>"

text \<open>
  C26. A drain conserves the channel under concurrent sends: the batch is exactly what was next in
  the channel, in arrival order, at most \<open>max_batch\<close> messages, \<open>pending\<close> is what is queued when
  the call ends, and a batch that is not full proves that everything that had arrived when the
  cycle began has been delivered.
\<close>

theorem cycle_step_conserves:
  assumes "rx_world rxa clk hin arrived taken"
    and "cycle_step rxa hin mb t w = (c, w')"
  shows "taken w' = taken w @ events c \<and> prefix (taken w') (arrived w')
       \<and> length (events c) \<le> unat mb
       \<and> pending c = of_nat (length (arrived w') - length (taken w'))
       \<and> (length (events c) = unat mb \<or> prefix (arrived w) (taken w'))"
  using rx_world.cycle_step_spec [OF assms] rx_world.taken_arrived [OF assms(1), of w']
  by fastforce

theorem cycle_step_conserves_witness:
  "\<exists>c w'. cycle_step sim_rx () 3 77 demo_world = (c, w')
     \<and> events c = [0, 1, 2] \<and> pending c = 3
     \<and> sim_taken w' = sim_taken demo_world @ events c \<and> prefix (sim_taken w') (sim_arrived w')"
proof -
  obtain c w' where c: "cycle_step sim_rx () 3 77 demo_world = (c, w')"
    by (cases "cycle_step sim_rx () 3 77 demo_world")
  have "fst (cycle_step sim_rx () 3 77 demo_world)
      = \<lparr>now_ns = 77, events = [0, 1, 2], pending = 3\<rparr>"
    by code_simp
  with c have "events c = [0, 1, 2]" "pending c = 3" by simp_all
  with c cycle_step_conserves [OF sim.rx_world_axioms c] show ?thesis by blast
qed

text \<open>
  \<open>CycleIngressTask\<close> emits on every iteration, empty ones included, and the time it emits was
  read after the drain: the payload is always present, carries the nanoseconds of the very clock
  reading that stamps the message, and everything in its batch had left the channel before that
  reading.
\<close>

lemma cycle_ingress_always_stamps:
  assumes "cycle_ingress_world rxa clk hin arrived taken om"
    and "cycle_ingress_process clk rxa om \<lparr>cycle_rx = hin, max_batch = mb\<rparr> m w = (res, m', w')"
  shows "\<exists>c t w1. payload om m' = Some c \<and> res = Inr () \<and> now clk w1 = (t, w')
           \<and> now_ns c = as_nanos clk t \<and> msg_tov om m' = Tov_Time t
           \<and> taken w1 = taken w @ events c \<and> length (events c) \<le> unat mb"
proof (rule cycle_ingress_world.cycle_process_spec [OF assms])
  fix c t w1
  assume c: "cycle_step rxa hin mb 0 w = (c, w1)" and n: "now clk w1 = (t, w')"
    and r: "res = Inr ()" "payload om m' = Some (c\<lparr>now_ns := as_nanos clk t\<rparr>)"
      "msg_tov om m' = Tov_Time t"
  have rx: "rx_world rxa clk hin arrived taken"
    using assms(1) by (simp add: cycle_ingress_world_def)
  from rx_world.cycle_step_spec(1,3) [OF rx c] n r show ?thesis
    by (intro exI [of _ "c\<lparr>now_ns := as_nanos clk t\<rparr>"]) auto
qed

lemma cycle_ingress_always_stamps_witness:
  "\<exists>c t w1 m' w'. cycle_ingress_process sim_clk sim_rx slot_api
          \<lparr>cycle_rx = (), max_batch = 3\<rparr> fresh_slot demo_world = (Inr (), m', w')
     \<and> payload slot_api m' = Some c \<and> now sim_clk w1 = (t, w')
     \<and> now_ns c = t \<and> now_ns c = 77 \<and> sim_taken w1 = events c"
proof -
  obtain res m' w' where p: "cycle_ingress_process sim_clk sim_rx slot_api
      \<lparr>cycle_rx = (), max_batch = 3\<rparr> fresh_slot demo_world = (res, m', w')"
    by (cases "cycle_ingress_process sim_clk sim_rx slot_api
      \<lparr>cycle_rx = (), max_batch = 3\<rparr> fresh_slot demo_world")
  obtain c t w1 where "payload slot_api m' = Some c" "res = Inr ()" "now sim_clk w1 = (t, w')"
      "now_ns c = t" "sim_taken w1 = events c"
    using cycle_ingress_always_stamps [OF sim_cycles.cycle_ingress_world_axioms p]
    by (auto simp: sim_clk_def demo_world_def)
  moreover have "slot_payload (fst (snd (cycle_ingress_process sim_clk sim_rx slot_api
      \<lparr>cycle_rx = (), max_batch = 3\<rparr> fresh_slot demo_world)))
      = Some \<lparr>now_ns = 77, events = [0, 1, 2], pending = 3\<rparr>"
    by code_simp
  then have "now_ns c = 77"
    using p \<open>payload slot_api m' = Some c\<close> by (simp add: slot_api_def)
  ultimately show ?thesis using p by blast
qed

text \<open>
  Bounded delivery: whatever had arrived when the loop started (a backlog of at most \<open>n\<close>
  times \<open>max_batch\<close> messages) has been put on the copperlist, without loss, duplication or
  reordering, after \<open>n\<close> iterations of \<open>CycleIngressTask\<close>, however much the transport keeps sending.
\<close>

lemma cycle_ingress_delivers:
  assumes "cycle_ingress_world rxa clk hin arrived taken om"
    and "run_source (cycle_ingress_process clk rxa om \<lparr>cycle_rx = hin, max_batch = mb\<rparr>)
           (slot_events om) n m w = (vs, m', w')"
    and "length (arrived w) \<le> length (taken w) + n * unat mb"
  shows "taken w' = taken w @ vs \<and> prefix (arrived w) (taken w') \<and> prefix (taken w') (arrived w')"
proof -
  note src = cycle_ingress_world.cycle_source [OF assms(1)]
  have "prefix (taken w') (arrived w')"
    by (rule source_task.proc_prefix [OF src])
  moreover have "prefix (arrived w) (taken w')"
    by (rule source_task.run_delivers_backlog [OF src assms(2) _ assms(3)]) simp
  ultimately show ?thesis
    using source_task.run_taken [OF src assms(2)] by metis
qed

lemma cycle_ingress_delivers_witness:
  "\<exists>vs m' w'. run_source (cycle_ingress_process sim_clk sim_rx slot_api
          \<lparr>cycle_rx = (), max_batch = 3\<rparr>) (slot_events slot_api) 2 fresh_slot demo_world = (vs, m', w')
     \<and> sim_taken w' = vs \<and> prefix [0, 1, 2, 3, 4] (sim_taken w')"
proof -
  obtain vs m' w' where r: "run_source (cycle_ingress_process sim_clk sim_rx slot_api
      \<lparr>cycle_rx = (), max_batch = 3\<rparr>) (slot_events slot_api) 2 fresh_slot demo_world = (vs, m', w')"
    by (cases "run_source (cycle_ingress_process sim_clk sim_rx slot_api
      \<lparr>cycle_rx = (), max_batch = 3\<rparr>) (slot_events slot_api) 2 fresh_slot demo_world")
  have "length (sim_arrived demo_world) \<le> length (sim_taken demo_world) + 2 * unat (3 :: usize)"
    by (simp add: demo_world_def sim_arrived_def)
  from cycle_ingress_delivers [OF sim_cycles.cycle_ingress_world_axioms r this] r
  show ?thesis by (auto simp: demo_world_def sim_arrived_def)
qed

text \<open>
  C29. \<open>BatchEgressTask\<close> sends the values of a batch one by one in order: what reaches the outbound
  channel is a prefix of the batch, the whole batch exactly when the call returns \<open>Ok\<close>, and on the
  first failed send the call stops with that send's error text and the rest is not sent.
\<close>

theorem batch_egress_sends_prefix:
  assumes "dag_world rxa clk hin arrived taken txa hout sent"
    and "payload im input = Some (Batch vs)"
    and "batch_egress_process txa im \<lparr>batch_egress_tx = hout\<rparr> input w = (res, w')"
  shows "\<exists>k \<le> length vs. sent w' = sent w @ take k vs
           \<and> (if k = length vs then res = Inr ()
               else \<exists>e. res = Inl (Cu_Error (send_error_to_string txa e)))"
  using dag_world.egress_values_spec [OF assms(1)] assms(2,3) by (simp add: batch_egress_process_def)

theorem batch_egress_sends_prefix_witness:
  "\<exists>k \<le> length [1, 2 :: nat].
     sim_sent (snd (batch_egress_process sim_tx slot_api \<lparr>batch_egress_tx = ()\<rparr>
       \<lparr>slot_payload = Some (Batch [1, 2]), slot_tov = Tov_None :: (u64, u64 \<times> u64) tov\<rparr> demo_world))
     = sim_sent demo_world @ take k [1, 2]"
proof -
  obtain res w' where b: "batch_egress_process sim_tx slot_api \<lparr>batch_egress_tx = ()\<rparr>
       \<lparr>slot_payload = Some (Batch [1, 2]), slot_tov = Tov_None :: (u64, u64 \<times> u64) tov\<rparr> demo_world
       = (res, w')"
    by fastforce
  have p: "payload slot_api \<lparr>slot_payload = Some (Batch [1, 2 :: nat]),
      slot_tov = Tov_None :: (u64, u64 \<times> u64) tov\<rparr> = Some (Batch [1, 2])"
    by (simp add: slot_api_def)
  from batch_egress_sends_prefix [OF sim.dag_world_axioms p b] b show ?thesis by auto
qed

text \<open>
  Construction of \<open>CycleIngressTask\<close>: a task that was built has the batch size of the
  configuration (64 when the key or the configuration is absent), which is never zero, and its
  receiver is the value the registry held for the task type with the receiver's type.
\<close>

lemma cycle_ingress_new_ok:
  assumes "registry_ok r"
    and "cycle_ingress_new cfg_get S R config r = Some (Inr task, r')"
  shows "installed r (type_id S) = Some (type_id R, cycle_rx task)
       \<and> installed r' = (installed r)(type_id S := None) \<and> registry_ok r'
       \<and> 0 < unat (max_batch task)
       \<and> (case config of
            None \<Rightarrow> max_batch task = 64
          | Some cfg \<Rightarrow>
              (case cfg_get cfg ''max_batch'' of
                 Inl e \<Rightarrow> False
               | Inr None \<Rightarrow> max_batch task = 64
               | Inr (Some n) \<Rightarrow> unat (max_batch task) = unat n))"
proof -
  obtain n where n: "configured_batch cfg_get config = Inr n" "n \<noteq> 0" "max_batch task = n"
    and t: "registry_take S R r = Some (Inr (cycle_rx task), r')"
    using assms(2)
    by (auto simp: cycle_ingress_new_def split: sum.splits option.splits if_splits)
  have "installed r (type_id S) = Some (type_id R, cycle_rx task)
      \<and> installed r' = (installed r)(type_id S := None) \<and> registry_ok r'"
    using slot_reg.get_missing [OF assms(1), of S R] slot_reg.get_found [OF assms(1), of S R]
      slot_reg.get_wrong [OF assms(1), of S _ _ R] t
    by (cases "installed r (type_id S)") fastforce+
  moreover have "0 < unat (max_batch task)"
    using n by (simp add: unat_gt_0)
  moreover have "case config of
            None \<Rightarrow> max_batch task = 64
          | Some cfg \<Rightarrow>
              (case cfg_get cfg ''max_batch'' of
                 Inl e \<Rightarrow> False
               | Inr None \<Rightarrow> max_batch task = 64
               | Inr (Some n) \<Rightarrow> unat (max_batch task) = unat n)"
    using n by (auto simp: configured_batch_def DEFAULT_MAX_BATCH_def
        split: option.splits sum.splits) (metis unat_ucast_u32)
  ultimately show ?thesis by blast
qed

lemma cycle_ingress_new_ok_witness:
  "\<exists>task r'. cycle_ingress_new (\<lambda>_ _. Inr (Some 16)) (Rust_Type 1 ''S'') (Rust_Type 2 ''R'') (Some ())
       (Some \<lparr>slots_map = [1 \<mapsto> \<lparr>boxed_type = 2, boxed_value = 7::nat\<rparr>],
              locked = False, poisoned = False\<rparr>) = Some (Inr task, r')
     \<and> cycle_rx task = 7 \<and> unat (max_batch task) = 16 \<and> registry_ok r'"
proof -
  let ?r = "Some \<lparr>slots_map = [1 \<mapsto> \<lparr>boxed_type = 2, boxed_value = 7::nat\<rparr>],
              locked = False, poisoned = False\<rparr>"
  let ?new = "cycle_ingress_new (\<lambda>_ _. Inr (Some 16)) (Rust_Type 1 ''S'') (Rust_Type 2 ''R'')
       (Some ()) ?r"
  obtain task r' where t: "?new = Some (Inr task, r')"
    by (auto simp: cycle_ingress_new_def configured_batch_def registry_defs)
  have "registry_ok ?r" by (simp add: registry_ok_def)
  from cycle_ingress_new_ok [OF this t] t show ?thesis by (auto simp: installed_def)
qed

text \<open>
  A rejected configuration, the configuration reader's own error or a batch size of zero, is
  reported without touching the registry: the channel stays installed for the next attempt.
\<close>

lemma cycle_ingress_new_rejects:
  assumes "configured_batch cfg_get config = Inl e \<or> configured_batch cfg_get config = Inr 0"
  shows "\<exists>err. cycle_ingress_new cfg_get S R config r = Some (Inl err, r)
           \<and> (configured_batch cfg_get config = Inl err
               \<or> err = Cu_Error ''CycleIngressTask max_batch must be > 0'')"
  using assms by (auto simp: cycle_ingress_new_def)

lemma cycle_ingress_new_rejects_witness:
  "\<exists>err. cycle_ingress_new (\<lambda>_ _. Inr (Some 0)) (Rust_Type 1 ''S'') (Rust_Type 2 ''R'') (Some ())
       (Some \<lparr>slots_map = [1 \<mapsto> \<lparr>boxed_type = 2, boxed_value = 7::nat\<rparr>],
              locked = False, poisoned = False\<rparr>)
     = Some (Inl err, Some \<lparr>slots_map = [1 \<mapsto> \<lparr>boxed_type = 2, boxed_value = 7\<rparr>],
              locked = False, poisoned = False\<rparr>)"
proof -
  have "configured_batch (\<lambda>_ _. Inr (Some 0)) (Some ()) = Inr 0"
    by (simp add: configured_batch_def)
  from cycle_ingress_new_rejects [OF disjI2, OF this] show ?thesis by blast
qed

end
