(* ===== verification/Watchdog.thy ===== *)
theory Watchdog
  imports Tasks
begin

text \<open>
  \<open>examples/watchdog/src/watchdog.rs\<close>: the reference timed service. The pure store, the statig
  state machine with its three handlers, and the machine that consumes one \<open>Cycle<Feed>\<close> per
  iteration. \<open>watch_spec\<close> is the service as its SPEC describes it: what one cycle does to "never
  fed / supervising since / tripped since"; the machine refines it, and the properties of whole
  runs are proved on it.
\<close>

section \<open>Messages and store\<close>

datatype feed = Feed u32

datatype alarm = Armed | Tripped (silent: u64) | Recovered

instantiation alarm :: default
begin

definition default_alarm :: alarm where
  "default_alarm = Armed"

instance ..

end

definition TIMEOUT_NS :: u64 where
  "TIMEOUT_NS = 50000000"

record watchdog_store =
  timeout_ns :: u64
  last_feed_ns :: "u64 option"

definition watchdog_store_new :: "u64 \<Rightarrow> watchdog_store" where
  "watchdog_store_new timeout = \<lparr>timeout_ns = timeout, last_feed_ns = None\<rparr>"

definition watchdog_store_default :: watchdog_store where
  "watchdog_store_default = watchdog_store_new TIMEOUT_NS"

definition record_feed :: "u64 \<Rightarrow> watchdog_store \<Rightarrow> watchdog_store" where
  "record_feed now_nanos s = s\<lparr>last_feed_ns := Some now_nanos\<rparr>"

definition silent_ns :: "watchdog_store \<Rightarrow> u64 \<Rightarrow> u64" where
  "silent_ns s now_nanos =
     (case last_feed_ns s of None \<Rightarrow> 0 | Some t \<Rightarrow> saturating_sub now_nanos t)"

definition expired :: "watchdog_store \<Rightarrow> u64 \<Rightarrow> bool" where
  "expired s now_nanos \<longleftrightarrow> last_feed_ns s \<noteq> None \<and> timeout_ns s < silent_ns s now_nanos"

section \<open>The state machine\<close>

record watchdog_ctx =
  wd_store :: watchdog_store
  wd_now_ns :: u64
  wd_emitted :: "alarm list"

definition watchdog_ctx_default :: watchdog_ctx where
  "watchdog_ctx_default = \<lparr>wd_store = watchdog_store_default, wd_now_ns = 0, wd_emitted = []\<rparr>"

datatype watchdog_event = Feed_Event | Check

datatype watchdog_state = State_Idle | State_Armed | State_Tripped

definition ctx_record_feed :: "watchdog_ctx \<Rightarrow> watchdog_ctx" where
  "ctx_record_feed c = c\<lparr>wd_store := record_feed (wd_now_ns c) (wd_store c)\<rparr>"

definition ctx_push :: "alarm \<Rightarrow> watchdog_ctx \<Rightarrow> watchdog_ctx" where
  "ctx_push a c = c\<lparr>wd_emitted := wd_emitted c @ [a]\<rparr>"

definition wd_idle ::
    "watchdog_event \<Rightarrow> watchdog_ctx \<Rightarrow> (watchdog_state outcome \<times> watchdog_ctx) exec" where
  "wd_idle event c =
     (case event of
        Feed_Event \<Rightarrow> Done (Transition State_Armed, ctx_push Armed (ctx_record_feed c))
      | Check \<Rightarrow> Done (Handled, c))"

definition wd_armed ::
    "watchdog_event \<Rightarrow> watchdog_ctx \<Rightarrow> (watchdog_state outcome \<times> watchdog_ctx) exec" where
  "wd_armed event c =
     (case event of
        Feed_Event \<Rightarrow> Done (Handled, ctx_record_feed c)
      | Check \<Rightarrow>
          if expired (wd_store c) (wd_now_ns c) then
            Done (Transition State_Tripped,
                  ctx_push (Tripped (silent_ns (wd_store c) (wd_now_ns c))) c)
          else Done (Handled, c))"

definition wd_tripped ::
    "watchdog_event \<Rightarrow> watchdog_ctx \<Rightarrow> (watchdog_state outcome \<times> watchdog_ctx) exec" where
  "wd_tripped event c =
     (case event of
        Feed_Event \<Rightarrow> Done (Transition State_Armed, ctx_push Recovered (ctx_record_feed c))
      | Check \<Rightarrow> Done (Handled, c))"

text \<open>The dispatch table that \<open>#[state_machine]\<close> generates from the handlers.\<close>

fun watchdog_handlers :: "(watchdog_state, watchdog_event, watchdog_ctx) handlers" where
  "watchdog_handlers State_Idle = wd_idle"
| "watchdog_handlers State_Armed = wd_armed"
| "watchdog_handlers State_Tripped = wd_tripped"

section \<open>The machine\<close>

record watchdog_machine =
  wd_sm :: watchdog_state
  wd_ctx :: watchdog_ctx

type_synonym watchdog_statig = "(watchdog_state, watchdog_event, watchdog_ctx) statig_api"

definition watchdog_machine_default :: "watchdog_statig \<Rightarrow> watchdog_machine" where
  "watchdog_machine_default sg =
     (let (s, c) = init_with_context sg State_Idle watchdog_ctx_default
      in \<lparr>wd_sm = s, wd_ctx = c\<rparr>)"

definition watchdog_handle ::
    "watchdog_statig \<Rightarrow> watchdog_event \<Rightarrow> watchdog_machine \<Rightarrow> watchdog_machine exec" where
  "watchdog_handle sg event m =
     exec_bind (handle_with_context sg watchdog_handlers (wd_sm m) event (wd_ctx m))
       (\<lambda>(s, c). Done \<lparr>wd_sm = s, wd_ctx = c\<rparr>)"

definition watchdog_step :: "watchdog_statig \<Rightarrow> (watchdog_machine, feed cycle, alarm) fsm_step" where
  "watchdog_step sg m trigger effects =
     (case message trigger of
        None \<Rightarrow> Done (m, effects)
      | Some c \<Rightarrow>
          let m = m\<lparr>wd_ctx := (wd_ctx m)\<lparr>wd_now_ns := now_ns c\<rparr>\<rparr> in
          exec_bind (exec_fold (\<lambda>_. watchdog_handle sg Feed_Event) (events c) m)
            (\<lambda>m. exec_bind (watchdog_handle sg Check m)
              (\<lambda>m. Done (m\<lparr>wd_ctx := (wd_ctx m)\<lparr>wd_emitted := []\<rparr>\<rparr>,
                         fold emit (wd_emitted (wd_ctx m)) effects))))"

text \<open>\<open>state_name\<close>: the \<open>Debug\<close> name of the current state.\<close>

fun watchdog_state_name :: "watchdog_state \<Rightarrow> string" where
  "watchdog_state_name State_Idle = ''Idle''"
| "watchdog_state_name State_Armed = ''Armed''"
| "watchdog_state_name State_Tripped = ''Tripped''"

section \<open>The machine keeps the \<open>FsmSpec\<close> contract\<close>

interpretation watchdog_fsm: tick_silent_spec "watchdog_step sg" for sg
proof unfold_locales
  fix m t e
  show "watchdog_step sg m t e = exec_bind (watchdog_step sg m t effects_default)
      (\<lambda>(m', e'). Done (m', fold emit (outbox e') e))"
    by (cases t) (simp_all add: watchdog_step_def Let_def exec_bind_assoc)
qed (simp add: watchdog_step_def)

section \<open>The service as specified\<close>

datatype watch = Never_Fed | Supervising u64 | Alarmed u64

fun watch_spec :: "u64 \<Rightarrow> watch \<Rightarrow> u64 \<Rightarrow> bool \<Rightarrow> watch \<times> alarm list" where
  "watch_spec timeout Never_Fed now_nanos fed =
     (if fed then (Supervising now_nanos, [Armed]) else (Never_Fed, []))"
| "watch_spec timeout (Supervising t) now_nanos fed =
     (if fed then (Supervising now_nanos, [])
      else if timeout < saturating_sub now_nanos t
      then (Alarmed t, [Tripped (saturating_sub now_nanos t)])
      else (Supervising t, []))"
| "watch_spec timeout (Alarmed t) now_nanos fed =
     (if fed then (Supervising now_nanos, [Recovered]) else (Alarmed t, []))"

text \<open>
  The abstraction and the invariant between steps: alarms are drained, and the store has a feed
  time exactly when the machine has left its initial state.
\<close>

definition watch_abs :: "watchdog_machine \<Rightarrow> watch" where
  "watch_abs m =
     (case last_feed_ns (wd_store (wd_ctx m)) of
        None \<Rightarrow> Never_Fed
      | Some t \<Rightarrow> if wd_sm m = State_Tripped then Alarmed t else Supervising t)"

definition watchdog_inv :: "watchdog_machine \<Rightarrow> bool" where
  "watchdog_inv m \<longleftrightarrow>
     wd_emitted (wd_ctx m) = [] \<and>
     (wd_sm m = State_Idle \<longleftrightarrow> last_feed_ns (wd_store (wd_ctx m)) = None)"

abbreviation machine_timeout :: "watchdog_machine \<Rightarrow> u64" where
  "machine_timeout m \<equiv> timeout_ns (wd_store (wd_ctx m))"

lemmas watchdog_defs =
  watchdog_handle_def wd_idle_def wd_armed_def wd_tripped_def ctx_push_def ctx_record_feed_def
  record_feed_def expired_def silent_ns_def

text \<open>Dispatch of one event, for any statig that satisfies its laws.\<close>

lemma handle_feed:
  assumes "statig sg"
  shows "watchdog_handle sg Feed_Event m =
     Done \<lparr>wd_sm = State_Armed,
           wd_ctx = (wd_ctx m)
             \<lparr>wd_store := record_feed (wd_now_ns (wd_ctx m)) (wd_store (wd_ctx m)),
              wd_emitted := wd_emitted (wd_ctx m) @
                (case wd_sm m of State_Idle \<Rightarrow> [Armed] | State_Armed \<Rightarrow> []
                               | State_Tripped \<Rightarrow> [Recovered])\<rparr>\<rparr>"
  by (cases "wd_sm m") (simp_all add: watchdog_defs statig.dispatch [OF assms])

lemma handle_check:
  assumes "statig sg"
  shows "watchdog_handle sg Check m =
     Done (if wd_sm m = State_Armed \<and> expired (wd_store (wd_ctx m)) (wd_now_ns (wd_ctx m))
           then \<lparr>wd_sm = State_Tripped,
                 wd_ctx = ctx_push (Tripped (silent_ns (wd_store (wd_ctx m)) (wd_now_ns (wd_ctx m))))
                            (wd_ctx m)\<rparr>
           else m)"
  by (cases "wd_sm m") (simp_all add: watchdog_handle_def wd_idle_def wd_armed_def wd_tripped_def
      statig.dispatch [OF assms])

text \<open>Any number of feeds in one cycle has the effect of the first, plus nothing.\<close>

lemma handle_feeds:
  assumes "statig sg"
  shows "exec_fold (\<lambda>_. watchdog_handle sg Feed_Event) vs m =
     (if vs = [] then Done m else watchdog_handle sg Feed_Event m)"
proof (induction vs arbitrary: m)
  case (Cons v vs)
  then show ?case by (simp add: handle_feed [OF assms] record_feed_def)
qed simp

lemma watchdog_step_spec:
  assumes "statig sg" and "watchdog_inv m"
  shows "\<exists>outs m'. run_step_all (watchdog_step sg) m (Message c) = Done (outs, m')
           \<and> watch_spec (machine_timeout m) (watch_abs m) (now_ns c) (events c \<noteq> [])
               = (watch_abs m', outs)
           \<and> watchdog_inv m' \<and> machine_timeout m' = machine_timeout m"
  using assms(2)
  by (cases "wd_sm m"; cases "last_feed_ns (wd_store (wd_ctx m))")
    (auto simp: run_step_all_def watchdog_step_def Let_def handle_feeds [OF assms(1)]
      handle_feed [OF assms(1)] handle_check [OF assms(1)] watch_abs_def watchdog_inv_def
      record_feed_def expired_def silent_ns_def ctx_push_def)

text \<open>
  C8. Refinement of the service description: on every cycle a machine that satisfies the invariant
  does exactly what \<open>watch_spec\<close> says for its abstraction, in the alarms it emits and in its next
  state, never panics, keeps the invariant and its timeout. The feeds of a cycle come before its
  deadline check, and several feeds count as one.
\<close>

theorem watchdog_refines_spec:
  assumes "statig sg" and "watchdog_inv m"
  shows "\<exists>outs m'. run_step_all (watchdog_step sg) m (Message c) = Done (outs, m')
           \<and> watch_spec (machine_timeout m) (watch_abs m) (now_ns c) (events c \<noteq> [])
               = (watch_abs m', outs)
           \<and> watchdog_inv m' \<and> machine_timeout m' = machine_timeout m"
  by (rule watchdog_step_spec [OF assms])

theorem watchdog_refines_spec_witness:
  "\<exists>outs m'. run_step_all (watchdog_step leaf_statig)
        \<lparr>wd_sm = State_Armed, wd_ctx = \<lparr>wd_store = \<lparr>timeout_ns = 10, last_feed_ns = Some 100\<rparr>,
           wd_now_ns = 100, wd_emitted = []\<rparr>\<rparr>
        (Message \<lparr>now_ns = 111, events = [], pending = 0\<rparr>) = Done (outs, m')
     \<and> outs = [Tripped 11] \<and> watch_abs m' = Alarmed 100"
  using watchdog_refines_spec [OF leaf.statig_axioms, of
      "\<lparr>wd_sm = State_Armed, wd_ctx = \<lparr>wd_store = \<lparr>timeout_ns = 10, last_feed_ns = Some 100\<rparr>,
          wd_now_ns = 100, wd_emitted = []\<rparr>\<rparr>"
      "\<lparr>now_ns = 111, events = [], pending = 0\<rparr>"]
  by (auto simp: watchdog_inv_def watch_abs_def saturating_sub_def)

section \<open>Runs\<close>

fun watch_run :: "u64 \<Rightarrow> watch \<Rightarrow> feed cycle list \<Rightarrow> alarm list list \<times> watch" where
  "watch_run timeout s [] = ([], s)"
| "watch_run timeout s (c # cs) =
     (case watch_spec timeout s (now_ns c) (events c \<noteq> []) of
        (s, outs) \<Rightarrow> (case watch_run timeout s cs of (rest, s) \<Rightarrow> (outs # rest, s)))"

lemma watch_run_Cons [simp]:
  "fst (watch_run timeout s (c # cs)) =
     snd (watch_spec timeout s (now_ns c) (events c \<noteq> [])) #
     fst (watch_run timeout (fst (watch_spec timeout s (now_ns c) (events c \<noteq> []))) cs)"
  "snd (watch_run timeout s (c # cs)) =
     snd (watch_run timeout (fst (watch_spec timeout s (now_ns c) (events c \<noteq> []))) cs)"
  by (simp_all split: prod.splits)

lemma watch_run_append:
  "watch_run timeout s (cs @ ds) =
     (case watch_run timeout s cs of (o1, s) \<Rightarrow>
        (case watch_run timeout s ds of (o2, s) \<Rightarrow> (o1 @ o2, s)))"
  by (induction cs arbitrary: s) (auto split: prod.splits)

lemma length_watch_run: "length (fst (watch_run timeout s cs)) = length cs"
  by (induction cs arbitrary: s) (simp_all del: watch_run.simps(2))

lemma watchdog_run_refines:
  assumes "statig sg" and "watchdog_inv m"
  shows "\<exists>outs m'. run_all (watchdog_step sg) (map Message cs) m = Done (outs, m')
           \<and> watch_run (machine_timeout m) (watch_abs m) cs = (outs, watch_abs m')
           \<and> watchdog_inv m' \<and> machine_timeout m' = machine_timeout m"
  using assms(2)
proof (induction cs arbitrary: m)
  case (Cons c cs)
  obtain outs m1 where s: "run_step_all (watchdog_step sg) m (Message c) = Done (outs, m1)"
      "watch_spec (machine_timeout m) (watch_abs m) (now_ns c) (events c \<noteq> []) = (watch_abs m1, outs)"
      "watchdog_inv m1" "machine_timeout m1 = machine_timeout m"
    using watchdog_step_spec [OF assms(1) Cons.prems] by blast
  from Cons.IH [OF s(3)] s show ?case by auto
qed simp

lemma watchdog_default:
  assumes "statig sg"
  shows "watchdog_inv (watchdog_machine_default sg)"
    and "watch_abs (watchdog_machine_default sg) = Never_Fed"
    and "machine_timeout (watchdog_machine_default sg) = TIMEOUT_NS"
  by (simp_all add: watchdog_machine_default_def statig.init [OF assms] watchdog_inv_def
      watch_abs_def watchdog_ctx_default_def watchdog_store_default_def watchdog_store_new_def)

text \<open>A fresh machine over any cycles, in terms of the specification.\<close>

lemma watchdog_fresh_run:
  assumes "statig sg"
  obtains outs m' where
    "run_all (watchdog_step sg) (map Message cs) (watchdog_machine_default sg) = Done (outs, m')"
    "watch_run TIMEOUT_NS Never_Fed cs = (outs, watch_abs m')" "watchdog_inv m'"
  using watchdog_run_refines [OF assms watchdog_default(1) [OF assms], of cs]
  by (auto simp: watchdog_default [OF assms])

section \<open>The alarm stream\<close>

text \<open>
  The order in which alarms may come: one \<open>Armed\<close> first, then \<open>Tripped\<close> and \<open>Recovered\<close> in
  turn. The flag says whether a trip is outstanding.
\<close>

fun alternating :: "bool \<Rightarrow> alarm list \<Rightarrow> bool" where
  "alternating trip [] = True"
| "alternating False (Tripped d # as) = alternating True as"
| "alternating True (Recovered # as) = alternating False as"
| "alternating trip as = False"

fun alarm_stream_ok :: "alarm list \<Rightarrow> bool" where
  "alarm_stream_ok [] = True"
| "alarm_stream_ok (Armed # as) = alternating False as"
| "alarm_stream_ok as = False"

fun stream_from :: "watch \<Rightarrow> alarm list \<Rightarrow> bool" where
  "stream_from Never_Fed as = alarm_stream_ok as"
| "stream_from (Supervising t) as = alternating False as"
| "stream_from (Alarmed t) as = alternating True as"

lemma watch_run_stream: "stream_from s (concat (fst (watch_run timeout s cs)))"
proof (induction cs arbitrary: s)
  case Nil
  then show ?case by (cases s) simp_all
next
  case (Cons c cs)
  obtain s' outs where s: "watch_spec timeout s (now_ns c) (events c \<noteq> []) = (s', outs)"
    by (cases "watch_spec timeout s (now_ns c) (events c \<noteq> [])")
  have "stream_from s' as \<Longrightarrow> stream_from s (outs @ as)" for as
    using s by (cases s) (auto split: if_splits)
  from this [OF Cons.IH [of s']] show ?case by (simp add: s del: watch_run.simps(2))
qed

lemma watch_run_trips:
  "Tripped d \<in> set (concat (fst (watch_run timeout s cs))) \<Longrightarrow> timeout < d"
proof (induction cs arbitrary: s)
  case (Cons c cs)
  obtain s' outs where s: "watch_spec timeout s (now_ns c) (events c \<noteq> []) = (s', outs)"
    by (cases "watch_spec timeout s (now_ns c) (events c \<noteq> [])")
  have "Tripped d \<in> set outs \<Longrightarrow> timeout < d"
    using s by (cases s) (auto split: if_splits)
  with Cons.IH [of s'] Cons.prems s show ?case by (auto simp del: watch_run.simps(2))
qed simp

text \<open>
  C11. The alarms a fresh watchdog ever sends, over any cycles with any times, never panic and come
  in the one sensible order: \<open>Armed\<close> once and first, then \<open>Tripped\<close> and \<open>Recovered\<close> in turn (no
  double trip, no recovery without a trip), and every \<open>Tripped\<close> reports a silence longer than the
  timeout.
\<close>

theorem watchdog_alarm_stream:
  assumes "statig sg"
  shows "\<exists>outs m'. run_all (watchdog_step sg) (map Message cs) (watchdog_machine_default sg)
                     = Done (outs, m')
           \<and> length outs = length cs
           \<and> alarm_stream_ok (concat outs)
           \<and> (\<forall>d. Tripped d \<in> set (concat outs) \<longrightarrow> TIMEOUT_NS < d)"
proof -
  obtain outs m' where
      r: "run_all (watchdog_step sg) (map Message cs) (watchdog_machine_default sg) = Done (outs, m')"
      "watch_run TIMEOUT_NS Never_Fed cs = (outs, watch_abs m')"
    by (rule watchdog_fresh_run [OF assms])
  with watch_run_stream [of Never_Fed TIMEOUT_NS cs] watch_run_trips [of _ TIMEOUT_NS Never_Fed cs]
    length_watch_run [of TIMEOUT_NS Never_Fed cs]
  show ?thesis by auto
qed

definition demo_cycles :: "feed cycle list" where
  "demo_cycles =
     [\<lparr>now_ns = 0, events = [Feed 0, Feed 1], pending = 0\<rparr>,
      \<lparr>now_ns = 50000001, events = [], pending = 0\<rparr>,
      \<lparr>now_ns = 60000000, events = [], pending = 0\<rparr>,
      \<lparr>now_ns = 60000001, events = [Feed 2], pending = 0\<rparr>]"

theorem watchdog_alarm_stream_witness:
  "\<exists>m'. run_all (watchdog_step leaf_statig) (map Message demo_cycles)
          (watchdog_machine_default leaf_statig)
        = Done ([[Armed], [Tripped 50000001], [], [Recovered]], m')
     \<and> alarm_stream_ok (concat [[Armed], [Tripped 50000001], [], [Recovered]])"
proof -
  obtain outs m' where r: "run_all (watchdog_step leaf_statig) (map Message demo_cycles)
      (watchdog_machine_default leaf_statig) = Done (outs, m')" "alarm_stream_ok (concat outs)"
    using watchdog_alarm_stream [OF leaf.statig_axioms, of demo_cycles] by blast
  have "(case run_all (watchdog_step leaf_statig) (map Message demo_cycles)
      (watchdog_machine_default leaf_statig) of Done (outs, m') \<Rightarrow> outs | Panic p \<Rightarrow> [])
      = [[Armed], [Tripped 50000001], [], [Recovered]]"
    by code_simp
  with r show ?thesis by auto
qed

section \<open>Exact detection of silence\<close>

text \<open>
  What silent cycles after a feed at time \<open>t\<close> must emit: nothing until the first cycle whose time
  is more than the timeout after \<open>t\<close>, there one \<open>Tripped\<close> with the gap, and nothing afterwards.
\<close>

fun silent_alarms :: "u64 \<Rightarrow> u64 \<Rightarrow> feed cycle list \<Rightarrow> alarm list list" where
  "silent_alarms timeout t [] = []"
| "silent_alarms timeout t (c # cs) =
     (if unat timeout < unat (now_ns c) - unat t
      then [Tripped (saturating_sub (now_ns c) t)] # map (\<lambda>_. []) cs
      else [] # silent_alarms timeout t cs)"

lemma watch_run_alarmed:
  "\<forall>c \<in> set cs. events c = [] \<Longrightarrow>
     watch_run timeout (Alarmed t) cs = (map (\<lambda>_. []) cs, Alarmed t)"
  by (induction cs) auto

lemma watch_run_silent:
  "\<forall>c \<in> set cs. events c = [] \<Longrightarrow>
     fst (watch_run timeout (Supervising t) cs) = silent_alarms timeout t cs"
  by (induction cs)
    (auto simp: watch_run_alarmed word_less_nat_alt simp del: watch_run.simps(2))

lemma watch_spec_fed: "fst (watch_spec timeout s n True) = Supervising n"
  by (cases s) simp_all

text \<open>
  C10. Exact detection: after a cycle with a feed, a run of silent cycles emits exactly what
  \<open>silent_alarms\<close> lists, whatever happened before: no alarm while the cycle time is within the
  timeout of the feed's cycle, exactly one \<open>Tripped\<close> with the exact gap in the first cycle beyond
  it, and none later. Times that run backwards count as no silence.
\<close>

theorem watchdog_detects_silence:
  assumes "statig sg" and "events f \<noteq> []" and "\<forall>c \<in> set ss. events c = []"
  shows "\<exists>outs m'. run_all (watchdog_step sg) (map Message (pre @ f # ss))
                       (watchdog_machine_default sg) = Done (outs, m')
           \<and> drop (Suc (length pre)) outs = silent_alarms TIMEOUT_NS (now_ns f) ss"
proof -
  obtain outs m' where
      r: "run_all (watchdog_step sg) (map Message (pre @ f # ss)) (watchdog_machine_default sg)
        = Done (outs, m')"
    and w: "watch_run TIMEOUT_NS Never_Fed (pre @ f # ss) = (outs, watch_abs m')"
    by (rule watchdog_fresh_run [OF assms(1)])
  obtain o1 s where p: "watch_run TIMEOUT_NS Never_Fed pre = (o1, s)"
    by (cases "watch_run TIMEOUT_NS Never_Fed pre")
  obtain of' where f: "watch_spec TIMEOUT_NS s (now_ns f) True = (Supervising (now_ns f), of')"
    using watch_spec_fed [of TIMEOUT_NS s "now_ns f"] by (metis prod.collapse)
  have "length o1 = length pre"
    using length_watch_run [of TIMEOUT_NS Never_Fed pre] p by simp
  with w p f assms(2) have "drop (Suc (length pre)) outs
      = fst (watch_run TIMEOUT_NS (Supervising (now_ns f)) ss)"
    by (auto simp: watch_run_append split: prod.splits)
  with r watch_run_silent [OF assms(3)] show ?thesis by auto
qed

theorem watchdog_detects_silence_witness:
  "\<exists>outs m'. run_all (watchdog_step leaf_statig)
        (map Message ([] @ \<lparr>now_ns = 5, events = [Feed 0], pending = 0\<rparr> #
           [\<lparr>now_ns = 50000005, events = [], pending = 0\<rparr>,
            \<lparr>now_ns = 50000006, events = [], pending = 0\<rparr>]))
        (watchdog_machine_default leaf_statig) = Done (outs, m')
     \<and> drop 1 outs = [[], [Tripped 50000001]]"
  using watchdog_detects_silence [OF leaf.statig_axioms, of
      "\<lparr>now_ns = 5, events = [Feed 0], pending = 0\<rparr>"
      "[\<lparr>now_ns = 50000005, events = [], pending = 0\<rparr>,
        \<lparr>now_ns = 50000006, events = [], pending = 0\<rparr>]" "[]"]
  by (simp add: TIMEOUT_NS_def saturating_sub_def)

section \<open>No false alarm\<close>

text \<open>Every cycle is fed, or its time is within the timeout of the last feed's cycle.\<close>

fun fed_in_time :: "u64 \<Rightarrow> u64 option \<Rightarrow> feed cycle list \<Rightarrow> bool" where
  "fed_in_time timeout last_fed [] = True"
| "fed_in_time timeout last_fed (c # cs) =
     (if events c \<noteq> [] then fed_in_time timeout (Some (now_ns c)) cs
      else (case last_fed of None \<Rightarrow> True | Some t \<Rightarrow> unat (now_ns c) - unat t \<le> unat timeout)
           \<and> fed_in_time timeout last_fed cs)"

lemma watch_run_in_time:
  "fed_in_time timeout (Some t) cs \<Longrightarrow> concat (fst (watch_run timeout (Supervising t) cs)) = []"
  by (induction cs arbitrary: t)
    (auto simp: word_less_nat_alt simp del: watch_run.simps(2) split: if_splits)

lemma watch_run_in_time_fresh:
  "fed_in_time timeout None cs \<Longrightarrow>
     concat (fst (watch_run timeout Never_Fed cs)) = (if \<exists>c \<in> set cs. events c \<noteq> [] then [Armed] else [])"
proof (induction cs)
  case (Cons c cs)
  then show ?case
    using watch_run_in_time [of timeout "now_ns c" cs]
    by (auto simp del: watch_run.simps(2) split: if_splits)
qed simp

text \<open>
  The last feed time after some cycles, and silent cycles of which one is past the deadline. The
  timing of a live run with a silence in the middle and one at the end: cycles fed in time, a
  silence, cycles fed in time again, a silence.
\<close>

fun last_fed :: "u64 option \<Rightarrow> feed cycle list \<Rightarrow> u64 option" where
  "last_fed t [] = t"
| "last_fed t (c # cs) = last_fed (if events c \<noteq> [] then Some (now_ns c) else t) cs"

definition silent_past :: "u64 \<Rightarrow> u64 \<Rightarrow> feed cycle list \<Rightarrow> bool" where
  "silent_past timeout t ss \<longleftrightarrow>
     (\<forall>c \<in> set ss. events c = []) \<and> (\<exists>c \<in> set ss. unat timeout < unat (now_ns c) - unat t)"

definition two_silences :: "feed cycle list \<Rightarrow> bool" where
  "two_silences cs \<longleftrightarrow>
     (\<exists>b1 s1 g b2 s2 t1 t2. cs = b1 @ s1 @ g # b2 @ s2
        \<and> fed_in_time TIMEOUT_NS None b1 \<and> last_fed None b1 = Some t1 \<and> silent_past TIMEOUT_NS t1 s1
        \<and> events g \<noteq> [] \<and> fed_in_time TIMEOUT_NS (Some (now_ns g)) b2
        \<and> last_fed (Some (now_ns g)) b2 = Some t2 \<and> silent_past TIMEOUT_NS t2 s2)"

lemma watch_run_in_time_last:
  "fed_in_time timeout (Some t) cs \<Longrightarrow> last_fed (Some t) cs = Some t' \<Longrightarrow>
     snd (watch_run timeout (Supervising t) cs) = Supervising t'"
  by (induction cs arbitrary: t)
    (auto simp: word_less_nat_alt simp del: watch_run.simps(2) split: if_splits)

lemma watch_run_in_time_fresh_last:
  "fed_in_time timeout None cs \<Longrightarrow> last_fed None cs = Some t \<Longrightarrow>
     concat (fst (watch_run timeout Never_Fed cs)) = [Armed]
   \<and> snd (watch_run timeout Never_Fed cs) = Supervising t"
proof (induction cs)
  case (Cons c cs)
  then show ?case
    using watch_run_in_time [of timeout "now_ns c" cs] watch_run_in_time_last [of timeout "now_ns c" cs t]
    by (auto simp del: watch_run.simps(2) split: if_splits)
qed simp

lemma silent_past_trips:
  "silent_past timeout t ss \<Longrightarrow>
     \<exists>d. concat (fst (watch_run timeout (Supervising t) ss)) = [Tripped d]
       \<and> snd (watch_run timeout (Supervising t) ss) = Alarmed t"
proof (induction ss)
  case (Cons c ss)
  show ?case
  proof (cases "unat timeout < unat (now_ns c) - unat t")
    case True
    with Cons.prems watch_run_alarmed [of ss timeout t] show ?thesis
      by (auto simp: silent_past_def word_less_nat_alt simp del: watch_run.simps(2))
  next
    case False
    with Cons.prems have "silent_past timeout t ss" by (auto simp: silent_past_def)
    with Cons.IH Cons.prems False show ?thesis
      by (auto simp: silent_past_def word_less_nat_alt simp del: watch_run.simps(2))
  qed
qed (simp add: silent_past_def)

lemma watch_run_two_silences:
  assumes "two_silences cs"
  obtains d1 d2 where
    "concat (fst (watch_run TIMEOUT_NS Never_Fed cs)) = [Armed, Tripped d1, Recovered, Tripped d2]"
proof -
  obtain b1 s1 g b2 s2 t1 t2 where cs: "cs = b1 @ s1 @ g # b2 @ s2"
    and b1: "fed_in_time TIMEOUT_NS None b1" "last_fed None b1 = Some t1"
    and s1: "silent_past TIMEOUT_NS t1 s1" and g: "events g \<noteq> []"
    and b2: "fed_in_time TIMEOUT_NS (Some (now_ns g)) b2" "last_fed (Some (now_ns g)) b2 = Some t2"
    and s2: "silent_past TIMEOUT_NS t2 s2"
    using assms unfolding two_silences_def by blast
  obtain d1 where d1: "concat (fst (watch_run TIMEOUT_NS (Supervising t1) s1)) = [Tripped d1]"
      "snd (watch_run TIMEOUT_NS (Supervising t1) s1) = Alarmed t1"
    using silent_past_trips [OF s1] by blast
  obtain d2 where d2: "concat (fst (watch_run TIMEOUT_NS (Supervising t2) s2)) = [Tripped d2]"
    using silent_past_trips [OF s2] by blast
  have "concat (fst (watch_run TIMEOUT_NS Never_Fed cs)) = [Armed, Tripped d1, Recovered, Tripped d2]"
    using watch_run_in_time_fresh_last [OF b1] d1 watch_run_in_time [OF b2(1)]
      watch_run_in_time_last [OF b2] d2 g
    by (simp add: cs watch_run_append split_def del: watch_run.simps(2))
  then show thesis by (rule that)
qed

text \<open>
  C19. No false alarm: as long as feeds keep coming within the timeout (measured on the cycle
  times), the only alarm a fresh watchdog ever sends is the initial \<open>Armed\<close>, and it sends none
  before the first feed.
\<close>

theorem watchdog_no_false_alarm:
  assumes "statig sg" and "fed_in_time TIMEOUT_NS None cs"
  shows "\<exists>outs m'. run_all (watchdog_step sg) (map Message cs) (watchdog_machine_default sg)
                     = Done (outs, m')
           \<and> concat outs = (if \<exists>c \<in> set cs. events c \<noteq> [] then [Armed] else [])"
proof -
  obtain outs m' where
      r: "run_all (watchdog_step sg) (map Message cs) (watchdog_machine_default sg) = Done (outs, m')"
      "watch_run TIMEOUT_NS Never_Fed cs = (outs, watch_abs m')"
    by (rule watchdog_fresh_run [OF assms(1)])
  with watch_run_in_time_fresh [OF assms(2)] show ?thesis by auto
qed

theorem watchdog_no_false_alarm_witness:
  "\<exists>outs m'. run_all (watchdog_step leaf_statig)
        (map Message [\<lparr>now_ns = 9, events = [], pending = 0\<rparr>,
           \<lparr>now_ns = 10, events = [Feed 0], pending = 0\<rparr>,
           \<lparr>now_ns = 50000010, events = [], pending = 0\<rparr>])
        (watchdog_machine_default leaf_statig) = Done (outs, m')
     \<and> concat outs = [Armed]"
  using watchdog_no_false_alarm [OF leaf.statig_axioms, of
      "[\<lparr>now_ns = 9, events = [], pending = 0\<rparr>, \<lparr>now_ns = 10, events = [Feed 0], pending = 0\<rparr>,
        \<lparr>now_ns = 50000010, events = [], pending = 0\<rparr>]"]
  by (simp add: TIMEOUT_NS_def)

end
