(* ===== verification/Dag.thy ===== *)
theory Dag
  imports Tasks
begin

text \<open>
  The \<open>ingress, fsm, egress\<close> graphs of the two services (\<open>examples/*/copperconfig.ron\<close> and the
  module comments of the two \<open>main.rs\<close>). The copper runtime and the code it generates are not in
  the repository: what a service relies on is that one iteration calls \<open>process\<close> of each task once,
  in graph order, on the two message slots of one copperlist, whose previous contents are
  arbitrary, and logs these slots. \<open>dag_env\<close> collects the outside operations of such a graph.
\<close>

section \<open>The environment of a graph\<close>

record ('w, 'h, 'v, 'e, 'o, 'f, 't, 'r, 'mi, 'pi, 'mo, 'po) dag_env =
  env_clk :: "('w, 't, 'r) clock_api"
  env_rx :: "('w, 'h, 'v, 'e) rx_api"
  env_tx :: "('w, 'h, 'o, 'f) tx_api"
  env_in :: "('mi, 'pi, 't, 'r) msg_api"
  env_out :: "('mo, 'po, 't, 'r) msg_api"

text \<open>Message slots that obey their laws, and channels that obey theirs.\<close>

locale slot_env =
  im: cu_msg "env_in env" + om: cu_msg "env_out env"
  for env :: "('w, 'h, 'v, 'e, 'o, 'f, 't, 'r, 'mi, 'pi, 'mo, 'po) dag_env"

locale service_env = slot_env env +
  chan: dag_world "env_rx env" "env_clk env" hin arrived taken "env_tx env" hout sent
  for env :: "('w, 'h, 'v, 'e, 'o, 'f, 't, 'r, 'mi, 'pi, 'mo, 'po) dag_env"
    and hin hout :: 'h
    and arrived taken :: "'w \<Rightarrow> 'v list"
    and sent :: "'w \<Rightarrow> 'o list"

definition sim_env ::
    "(('v, 'o) sim_world, unit, 'v, unit, 'o, unit, u64, u64 \<times> u64,
      ('pi, u64, u64 \<times> u64) slot, 'pi, ('po, u64, u64 \<times> u64) slot, 'po) dag_env" where
  "sim_env = \<lparr>env_clk = sim_clk, env_rx = sim_rx, env_tx = sim_tx, env_in = slot_api,
              env_out = slot_api\<rparr>"

interpretation sim_service: service_env sim_env "()" "()" sim_arrived sim_taken sim_sent
  rewrites "env_in sim_env = slot_api" and "env_out sim_env = slot_api"
    and "env_clk sim_env = sim_clk" and "env_rx sim_env = sim_rx" and "env_tx sim_env = sim_tx"
proof -
  show "service_env sim_env () () sim_arrived sim_taken sim_sent"
    by (simp add: service_env_def slot_env_def sim_env_def slot_msg.cu_msg_axioms
        sim.dag_world_axioms)
qed (simp_all add: sim_env_def)

section \<open>Copperlists\<close>

text \<open>What an iteration leaves in the log: the copperlist id and the two slots.\<close>

record ('mi, 'mo) copperlist =
  cl_id :: u64
  ingress_slot :: 'mi
  fsm_slot :: 'mo

text \<open>
  What a service relies on of the runtime: \<open>run_one\<close>, its \<open>run_one_iteration\<close>, does to the tasks, to
  the copperlist it is given and to the world what the configured graph says, task by task.
\<close>

definition copper_iteration ::
    "('a \<Rightarrow> 'cl \<Rightarrow> 'w \<Rightarrow> 'b) \<Rightarrow> ('a \<Rightarrow> 'cl \<Rightarrow> 'w \<Rightarrow> 'b) \<Rightarrow> bool" where
  "copper_iteration run_one graph \<longleftrightarrow> (\<forall>app cl w. run_one app cl w = graph app cl w)"

lemma copper_iteration_refl [simp]: "copper_iteration graph graph"
  by (simp add: copper_iteration_def)

lemma copper_iterationD: "copper_iteration run_one graph \<Longrightarrow> run_one = graph"
  by (simp add: copper_iteration_def fun_eq_iff)

section \<open>The life of an application\<close>

text \<open>
  What the two \<open>run_live\<close> and the spike use of the application type that \<open>copper_runtime\<close> generates,
  around the iterations: the log path as a string (\<open>to_str\<close>, nothing when it is not UTF-8), the
  set-up of the log, and the start and stop of all tasks.
\<close>

record app_runtime =
  log_path_str :: "string option"
  with_log_path :: "string \<Rightarrow> usize option \<Rightarrow> cu_error + unit"
  start_all_tasks :: "cu_error + unit"
  stop_all_tasks :: "cu_error + unit"

definition SLAB_SIZE :: "usize option" where
  "SLAB_SIZE = Some (1024 * 1024 * 10)"

definition setup_log :: "'z app_runtime_scheme \<Rightarrow> unit exec" where
  "setup_log rt =
     (case log_path_str rt of
        None \<Rightarrow> Panic ''utf-8 log path''
      | Some path \<Rightarrow> result_expect ''Failed to setup logger.'' (with_log_path rt path SLAB_SIZE))"

text \<open>\<open>run_one_iteration().expect(..)\<close>; \<open>ok\<close> says for which results of the tasks it returns \<open>Ok\<close>.\<close>

definition checked_iteration ::
    "('rs \<Rightarrow> bool) \<Rightarrow> ('a \<Rightarrow> 'cl \<Rightarrow> 'w \<Rightarrow> ('rs \<times> 'b) exec) \<Rightarrow> 'a \<Rightarrow> 'cl \<Rightarrow> 'w \<Rightarrow> ('rs \<times> 'b) exec" where
  "checked_iteration ok run_one app cl w =
     exec_bind (run_one app cl w) (\<lambda>(rs, rest).
       if ok rs then Done (rs, rest) else Panic ''run_one_iteration failed'')"

text \<open>An application whose log can be set up and whose tasks start and stop.\<close>

definition app_runs :: "'z app_runtime_scheme \<Rightarrow> bool" where
  "app_runs rt \<longleftrightarrow> setup_log rt = Done ()
     \<and> start_all_tasks rt = Inr () \<and> stop_all_tasks rt = Inr ()"

text \<open>A map whose function may panic, in list order: an iterator collected by the code.\<close>

fun exec_map :: "('a \<Rightarrow> 'b exec) \<Rightarrow> 'a list \<Rightarrow> 'b list exec" where
  "exec_map f [] = Done []"
| "exec_map f (x # xs) = exec_bind (f x) (\<lambda>y. exec_bind (exec_map f xs) (\<lambda>ys. Done (y # ys)))"

lemma exec_map_Done: "(\<And>x. x \<in> set xs \<Longrightarrow> f x = Done (g x)) \<Longrightarrow> exec_map f xs = Done (map g xs)"
  by (induction xs) simp_all

section \<open>Invariants of the world\<close>

text \<open>
  A property of the world that every operation of the DAG side keeps is kept by every task. It lets
  a client carry what it knows of the other thread through an iteration.
\<close>

locale world_invariant =
  fixes clk :: "('w, 't, 'r) clock_api"
    and rxa :: "('w, 'h, 'v, 'e) rx_api" and hin :: 'h
    and txa :: "('w, 'h, 'o, 'f) tx_api" and hout :: 'h
    and I :: "'w \<Rightarrow> bool"
  assumes recv_inv: "I w \<Longrightarrow> try_recv rxa hin w = (r, w') \<Longrightarrow> I w'"
    and len_inv: "I w \<Longrightarrow> rx_len rxa hin w = (n, w') \<Longrightarrow> I w'"
    and now_inv: "I w \<Longrightarrow> now clk w = (t, w') \<Longrightarrow> I w'"
    and send_inv: "I w \<Longrightarrow> send txa hout v w = (q, w') \<Longrightarrow> I w'"
begin

lemma try_iter_take_inv: "I w \<Longrightarrow> try_iter_take rxa hin n w = (vs, w') \<Longrightarrow> I w'"
proof (induction n arbitrary: w vs)
  case (Suc n)
  obtain r w1 where t: "try_recv rxa hin w = (r, w1)" by (metis prod.exhaust)
  with Suc recv_inv [OF Suc.prems(1) t] show ?case
    by (cases r) (auto split: prod.splits)
qed simp

lemma ingress_process_inv:
  "I w \<Longrightarrow> ingress_process clk rxa om \<lparr>ingress_rx = hin\<rparr> m w = (res, m', w') \<Longrightarrow> I w'"
  by (auto simp: ingress_process_def ingress_step_def Let_def split: prod.splits
      intro: recv_inv now_inv)

lemma cycle_ingress_process_inv:
  assumes "I w"
    and "cycle_ingress_process clk rxa om \<lparr>cycle_rx = hin, max_batch = mb\<rparr> m w = (res, m', w')"
  shows "I w'"
proof -
  obtain vs w1 where d: "try_iter_take rxa hin (unat mb) w = (vs, w1)" by (metis prod.exhaust)
  obtain n w2 where l: "rx_len rxa hin w1 = (n, w2)" by (metis prod.exhaust)
  obtain t w3 where n: "now clk w2 = (t, w3)" by (metis prod.exhaust)
  have "w' = w3" using assms(2) d l n by (simp add: cycle_ingress_process_def cycle_step_def)
  with now_inv [OF len_inv [OF try_iter_take_inv [OF assms(1) d] l] n] show ?thesis by simp
qed

lemma trigger_for_inv: "I w \<Longrightarrow> trigger_for clk im m w = (t, w') \<Longrightarrow> I w'"
  by (auto simp: trigger_for_def Let_def split: option.splits tov.splits prod.splits intro: now_inv)

lemma trigger_for_snd_inv: "I w \<Longrightarrow> I (snd (trigger_for clk im m w))"
  by (metis prod.collapse trigger_for_inv)

lemma forward_single_inv: "I w \<Longrightarrow> forward_single clk om out w outs = (res, out', w') \<Longrightarrow> I w'"
  by (auto simp: forward_single_def split: list.splits prod.splits intro: now_inv)

lemma forward_batch_inv: "I w \<Longrightarrow> forward_batch clk om out w outs = (res, out', w') \<Longrightarrow> I w'"
  by (auto simp: forward_batch_def split: if_splits prod.splits intro: now_inv)

lemma fsm_task_process_inv:
  assumes "I w" and "fsm_task_process clk im om step task m out w = Done (res, task', out', w')"
  shows "I w'"
  by (rule fsm_task_process_DoneE [OF assms(2)])
    (rule forward_single_inv [OF trigger_for_snd_inv [OF assms(1)]])

lemma fsm_batch_task_process_inv:
  assumes "I w" and "fsm_batch_task_process clk im om step task m out w = Done (res, task', out', w')"
  shows "I w'"
  by (rule fsm_batch_task_process_DoneE [OF assms(2)])
    (rule forward_batch_inv [OF trigger_for_snd_inv [OF assms(1)]])

lemma egress_process_inv:
  "I w \<Longrightarrow> egress_process txa im \<lparr>egress_tx = hout\<rparr> m w = (res, w') \<Longrightarrow> I w'"
  by (auto simp: egress_process_def egress_step_def Let_def split: prod.splits option.splits
      intro: send_inv)

lemma egress_values_inv: "I w \<Longrightarrow> egress_values txa hout vs w = (res, w') \<Longrightarrow> I w'"
proof (induction vs arbitrary: w)
  case (Cons v vs)
  then show ?case
    by (auto simp: egress_step_def Let_def split: prod.splits sum.splits dest: send_inv)
qed simp

lemma batch_egress_process_inv:
  "I w \<Longrightarrow> batch_egress_process txa im \<lparr>batch_egress_tx = hout\<rparr> m w = (res, w') \<Longrightarrow> I w'"
  by (auto simp: batch_egress_process_def split: option.splits batch.splits intro: egress_values_inv)

end

text \<open>
  The worlds that the operations of the DAG side lead to from a given one. To be one of them is an
  invariant, so whatever the tasks do leads from world to world along these operations.
\<close>

inductive world_reach ::
    "('w, 't, 'r) clock_api \<Rightarrow> ('w, 'h, 'v, 'e) rx_api \<Rightarrow> 'h \<Rightarrow> ('w, 'h, 'o, 'f) tx_api \<Rightarrow> 'h \<Rightarrow>
     'w \<Rightarrow> 'w \<Rightarrow> bool"
  for clk :: "('w, 't, 'r) clock_api" and rxa :: "('w, 'h, 'v, 'e) rx_api" and hin :: 'h
    and txa :: "('w, 'h, 'o, 'f) tx_api" and hout :: 'h and w0 :: 'w where
  reach_start: "world_reach clk rxa hin txa hout w0 w0"
| reach_recv: "world_reach clk rxa hin txa hout w0 w \<Longrightarrow> try_recv rxa hin w = (res, w') \<Longrightarrow>
    world_reach clk rxa hin txa hout w0 w'"
| reach_len: "world_reach clk rxa hin txa hout w0 w \<Longrightarrow> rx_len rxa hin w = (n, w') \<Longrightarrow>
    world_reach clk rxa hin txa hout w0 w'"
| reach_now: "world_reach clk rxa hin txa hout w0 w \<Longrightarrow> now clk w = (t, w') \<Longrightarrow>
    world_reach clk rxa hin txa hout w0 w'"
| reach_send: "world_reach clk rxa hin txa hout w0 w \<Longrightarrow> send txa hout v w = (q, w') \<Longrightarrow>
    world_reach clk rxa hin txa hout w0 w'"

interpretation reach: world_invariant clk rxa hin txa hout "world_reach clk rxa hin txa hout w0"
  for clk :: "('w, 't, 'r) clock_api" and rxa :: "('w, 'h, 'v, 'e) rx_api" and hin :: 'h
    and txa :: "('w, 'h, 'o, 'f) tx_api" and hout :: 'h and w0 :: 'w
  by unfold_locales (rule reach_recv reach_len reach_now reach_send; assumption)+

lemma world_reach_trans:
  assumes "world_reach clk rxa hin txa hout w1 w2" and "world_reach clk rxa hin txa hout w w1"
  shows "world_reach clk rxa hin txa hout w w2"
  using assms by (induction) (blast intro: world_reach.intros)+

text \<open>While the invariant promises that no send fails, the egress tasks report no error.\<close>

locale world_sends = world_invariant +
  assumes send_ok: "I w \<Longrightarrow> send txa hout v w = (q, w') \<Longrightarrow> q = Inr ()"
begin

lemma egress_values_no_error: "I w \<Longrightarrow> egress_values txa hout vs w = (res, w') \<Longrightarrow> res = Inr ()"
proof (induction vs arbitrary: w)
  case (Cons v vs)
  obtain q w1 where s: "send txa hout v w = (q, w1)" by (metis prod.exhaust)
  with Cons.IH [OF send_inv [OF Cons.prems(1) s]] Cons.prems(2) send_ok [OF Cons.prems(1) s]
  show ?case by (simp add: egress_step_def)
qed simp

lemma batch_egress_process_no_error:
  "I w \<Longrightarrow> batch_egress_process txa im \<lparr>batch_egress_tx = hout\<rparr> m w = (res, w') \<Longrightarrow> res = Inr ()"
  by (auto simp: batch_egress_process_def split: option.splits batch.splits
      intro: egress_values_no_error)

lemma egress_process_no_error:
  "I w \<Longrightarrow> egress_process txa im \<lparr>egress_tx = hout\<rparr> m w = (res, w') \<Longrightarrow> res = Inr ()"
  by (auto simp: egress_process_def egress_step_def Let_def split: option.splits prod.splits
      dest: send_ok)

end

text \<open>
  A receiver of the outbound channel that goes away and stays away: \<open>closed\<close> holds after every send
  that failed, and then no send succeeds any more.
\<close>

locale world_closes = world_invariant clk rxa hin txa hout closed
  for clk :: "('w, 't, 'r) clock_api"
    and rxa :: "('w, 'h, 'v, 'e) rx_api" and hin :: 'h
    and txa :: "('w, 'h, 'o, 'f) tx_api" and hout :: 'h
    and closed :: "'w \<Rightarrow> bool" +
  assumes send_closes: "send txa hout v w = (Inl e, w') \<Longrightarrow> closed w'"
    and send_closed: "closed w \<Longrightarrow> send txa hout v w = (q, w') \<Longrightarrow> q \<noteq> Inr ()"
begin

lemma egress_process_closes:
  "egress_process txa im \<lparr>egress_tx = hout\<rparr> m w = (res, w') \<Longrightarrow>
     res \<noteq> Inr () \<Longrightarrow> closed w'"
  by (auto simp: egress_process_def egress_step_def Let_def not_Ok_iff map_err_Inl_iff split: option.splits prod.splits
      dest: send_closes)

lemma egress_process_closed:
  "closed w \<Longrightarrow> egress_process txa im \<lparr>egress_tx = hout\<rparr> m w = (res, w') \<Longrightarrow>
     res \<noteq> Inr () \<or> payload im m = None"
  by (auto simp: egress_process_def egress_step_def Let_def split: option.splits prod.splits sum.splits
      dest: send_closed)

end

end
