(* ===== verification/Watchdog_Service.thy ===== *)
theory Watchdog_Service
  imports Watchdog Dag Replay
begin

text \<open>
  \<open>examples/watchdog/src/main.rs\<close>: the watchdog service end to end. Installing the channel ends and
  building the tasks, the iterations of the live loop, reading the log back, the replay and the
  checks of \<open>main\<close>. The properties tie the live run, the log and the replay together.
\<close>

section \<open>Building the application\<close>

record 'h watchdog_app =
  wd_ingress :: "'h cycle_ingress_task"
  wd_fsm :: "watchdog_machine fsm_batch_task"
  wd_egress :: "'h batch_egress_task"

text \<open>
  The four types the registry sees: the task aliases \<open>WatchdogIngress\<close> and \<open>WatchdogEgress\<close>, and the
  channel ends \<open>Receiver<Feed>\<close> and \<open>Sender<Alarm>\<close>.
\<close>

record service_types =
  ingress_ty :: rust_type
  egress_ty :: rust_type
  receiver_ty :: rust_type
  sender_ty :: rust_type

definition watchdog_install ::
    "service_types \<Rightarrow> 'h \<Rightarrow> 'h \<Rightarrow> 'h registry \<Rightarrow> (unit exec \<times> 'h registry) option" where
  "watchdog_install ty from_transport to_transport r =
     (case cycle_ingress_install (ingress_ty ty) (receiver_ty ty) from_transport r of
        None \<Rightarrow> None
      | Some (Panic p, r) \<Rightarrow> Some (Panic p, r)
      | Some (Done u, r) \<Rightarrow> batch_egress_install (egress_ty ty) (sender_ty ty) to_transport r)"

text \<open>The builder constructs the tasks in graph order, with their configuration.\<close>

definition watchdog_build ::
    "('cfg \<Rightarrow> string \<Rightarrow> cu_error + u32 option) \<Rightarrow> watchdog_statig \<Rightarrow> service_types \<Rightarrow> 'cfg option \<Rightarrow>
     'h registry \<Rightarrow> ((cu_error + 'h watchdog_app) \<times> 'h registry) option" where
  "watchdog_build cfg_get sg ty config r =
     (case cycle_ingress_new cfg_get (ingress_ty ty) (receiver_ty ty) config r of
        None \<Rightarrow> None
      | Some (Inl e, r) \<Rightarrow> Some (Inl e, r)
      | Some (Inr ingress, r) \<Rightarrow>
          (case fsm_batch_task_new (watchdog_machine_default sg) of
             Inl e \<Rightarrow> Some (Inl e, r)
           | Inr fsm \<Rightarrow>
               (case batch_egress_new (egress_ty ty) (sender_ty ty) r of
                  None \<Rightarrow> None
                | Some (Inl e, r) \<Rightarrow> Some (Inl e, r)
                | Some (Inr egress, r) \<Rightarrow>
                    Some (Inr \<lparr>wd_ingress = ingress, wd_fsm = fsm, wd_egress = egress\<rparr>, r))))"

section \<open>The live loop\<close>

type_synonym ('w, 'h, 'e, 'f, 't, 'r, 'mi, 'mo) watchdog_env =
  "('w, 'h, feed, 'e, alarm, 'f, 't, 'r, 'mi, feed cycle, 'mo, alarm batch) dag_env"

text \<open>
  The graph of \<open>copperconfig.ron\<close> for one iteration: the three \<open>process\<close> calls in order on the slots of
  a copperlist, for the task types that \<open>main.rs\<close> names. The results of the calls are returned with the
  slots, since what the runtime does with a task error is configured outside this repository.
\<close>

definition watchdog_iteration ::
    "('w, 'h, 'e, 'f, 't, 'r, 'mi, 'mo) watchdog_env \<Rightarrow> watchdog_statig \<Rightarrow> 'h watchdog_app \<Rightarrow>
     ('mi, 'mo) copperlist \<Rightarrow> 'w \<Rightarrow>
     ((cu_error + unit) list \<times> ('mi, 'mo) copperlist \<times> 'h watchdog_app \<times> 'w) exec" where
  "watchdog_iteration env sg app cl w =
     (let (r0, m0, w) = cycle_ingress_process (env_clk env) (env_rx env) (env_in env) (wd_ingress app)
                          (ingress_slot cl) w
      in exec_bind (fsm_batch_task_process (env_clk env) (env_in env) (env_out env) (watchdog_step sg)
                      (wd_fsm app) m0 (fsm_slot cl) w)
           (\<lambda>(r1, fsm, m1, w).
              let (r2, w) = batch_egress_process (env_tx env) (env_out env) (wd_egress app) m1 w
              in Done ([r0, r1, r2], cl\<lparr>ingress_slot := m0, fsm_slot := m1\<rparr>,
                       app\<lparr>wd_fsm := fsm\<rparr>, w)))"

text \<open>
  The loop of \<open>run_live\<close> over the copperlists the runtime hands out (any number of them); \<open>run_one\<close> is
  the runtime's \<open>run_one_iteration\<close>.
\<close>

fun watchdog_live ::
    "('h watchdog_app \<Rightarrow> ('mi, 'mo) copperlist \<Rightarrow> 'w \<Rightarrow>
       ((cu_error + unit) list \<times> ('mi, 'mo) copperlist \<times> 'h watchdog_app \<times> 'w) exec) \<Rightarrow>
     'h watchdog_app \<Rightarrow> ('mi, 'mo) copperlist list \<Rightarrow> 'w \<Rightarrow>
     ((cu_error + unit) list list \<times> ('mi, 'mo) copperlist list \<times> 'h watchdog_app \<times> 'w) exec" where
  "watchdog_live run_one app [] w = Done ([], [], app, w)"
| "watchdog_live run_one app (cl # cls) w =
     exec_bind (run_one app cl w) (\<lambda>(rs, cl, app, w).
       exec_bind (watchdog_live run_one app cls w) (\<lambda>(rss, log, app, w).
         Done (rs # rss, cl # log, app, w)))"

section \<open>Reading the log and replaying it\<close>

type_synonym watchdog_recorded = "(feed cycle, alarm batch option) recorded"

definition watchdog_record ::
    "('mi, feed cycle, 't, 'r) msg_api \<Rightarrow> ('mo, alarm batch, 't, 'r) msg_api \<Rightarrow>
     ('mi, 'mo) copperlist \<Rightarrow> watchdog_recorded exec" where
  "watchdog_record im om cl =
     (case payload im (ingress_slot cl) of
        None \<Rightarrow> Panic ''copperlist without a cycle''
      | Some c \<Rightarrow>
          Done \<lparr>rec_id = cl_id cl, rec_input = c, rec_output = payload om (fsm_slot cl)\<rparr>)"

text \<open>
  \<open>read_recorded\<close>. Of the panic texts of \<open>assert_eq!\<close> and \<open>expect\<close> the part written in the source
  is kept. \<open>log\<close> is the result of \<open>read_copperlists\<close>.
\<close>

definition watchdog_read_recorded ::
    "('mi, feed cycle, 't, 'r) msg_api \<Rightarrow> ('mo, alarm batch, 't, 'r) msg_api \<Rightarrow> string list \<Rightarrow>
     (cu_error + ('mi, 'mo) copperlist list \<times> log_end) option \<Rightarrow> watchdog_recorded list exec option"
  where
  "watchdog_read_recorded im om ids log =
     (if ids \<noteq> [''ingress'', ''watchdog'', ''egress'']
      then Some (Panic ''unexpected copperlist slot order'')
      else map_option (\<lambda>res. case res of
             Inl e \<Rightarrow> Panic ''read unified log''
           | Inr (copperlists, end_of_log) \<Rightarrow>
               if end_of_log \<noteq> Eof then Panic ''log did not end cleanly''
               else exec_map (watchdog_record im om) copperlists) log)"

text \<open>The closure that \<open>replay\<close> gives to the gate.\<close>

definition watchdog_replay_step ::
    "watchdog_statig \<Rightarrow> feed cycle \<Rightarrow> watchdog_machine \<Rightarrow> (alarm batch option \<times> watchdog_machine) exec"
  where
  "watchdog_replay_step sg c m =
     exec_bind (run_step_all (watchdog_step sg) m (Message c))
       (\<lambda>(out, m). Done (if out \<noteq> [] then Some (Batch out) else None, m))"

definition watchdog_replay ::
    "bool \<Rightarrow> (alarm batch option \<Rightarrow> 'e + 'b list) \<Rightarrow> (feed cycle \<Rightarrow> string) \<Rightarrow>
     (alarm batch option \<Rightarrow> string) \<Rightarrow> watchdog_statig \<Rightarrow> watchdog_recorded list \<Rightarrow> gate_report exec" where
  "watchdog_replay oc encode show_i show_o sg recorded =
     replay_gate oc encode show_i show_o recorded (watchdog_replay_step sg)
       (watchdog_machine_default sg)"

section \<open>The checks of \<open>main\<close>\<close>

fun alarm_kind :: "alarm \<Rightarrow> string" where
  "alarm_kind Armed = ''armed''"
| "alarm_kind (Tripped d) = ''tripped''"
| "alarm_kind Recovered = ''recovered''"

definition recorded_alarms :: "watchdog_recorded list \<Rightarrow> alarm list" where
  "recorded_alarms recorded =
     concat (map (\<lambda>r. case rec_output r of None \<Rightarrow> [] | Some b \<Rightarrow> batch_values b) recorded)"

text \<open>The perturbation of the negative control; \<open>None\<close>: no cycle armed the watchdog.\<close>

definition holds_armed :: "watchdog_recorded \<Rightarrow> bool" where
  "holds_armed r = (case rec_output r of None \<Rightarrow> False | Some b \<Rightarrow> Armed \<in> set (batch_values b))"

fun clear_armed :: "watchdog_recorded list \<Rightarrow> watchdog_recorded list option" where
  "clear_armed [] = None"
| "clear_armed (r # rs) =
     (if holds_armed r then Some (r\<lparr>rec_input := (rec_input r)\<lparr>events := []\<rparr>\<rparr> # rs)
      else map_option ((#) r) (clear_armed rs))"

text \<open>What \<open>main\<close> asserts about the alarms received live and the recorded steps.\<close>

definition watchdog_checks ::
    "bool \<Rightarrow> (alarm batch option \<Rightarrow> 'e + 'b list) \<Rightarrow> (feed cycle \<Rightarrow> string) \<Rightarrow>
     (alarm batch option \<Rightarrow> string) \<Rightarrow> watchdog_statig \<Rightarrow> alarm list \<Rightarrow> watchdog_recorded list \<Rightarrow>
     unit exec" where
  "watchdog_checks oc encode show_i show_o sg live recorded =
     (if map alarm_kind live \<noteq> [''armed'', ''tripped'', ''recovered'', ''tripped'']
      then Panic ''live run did not arm, trip on silence, recover, and trip after the last feed''
      else if recorded_alarms recorded \<noteq> live
      then Panic ''the log does not hold the alarms the live run sent''
      else exec_bind (watchdog_replay oc encode show_i show_o sg recorded) (\<lambda>report.
        if \<not> passed report then Panic ''replay diverged or the log has gaps''
        else (case clear_armed recorded of
                None \<Rightarrow> Panic ''a cycle that armed''
              | Some perturbed \<Rightarrow>
                  exec_bind (watchdog_replay oc encode show_i show_o sg perturbed) (\<lambda>control.
                    if passed control then Panic ''negative control passed: the gate is vacuous''
                    else Done ()))))"

section \<open>One iteration\<close>

lemma watchdog_step_total:
  assumes "statig sg" and "watchdog_inv m"
  obtains outs m' where "run_step_all (watchdog_step sg) m (Message c) = Done (outs, m')"
    "watchdog_inv m'"
    "watch_spec (machine_timeout m) (watch_abs m) (now_ns c) (events c \<noteq> []) = (watch_abs m', outs)"
    "machine_timeout m' = machine_timeout m"
  using watchdog_step_spec [OF assms] by blast

lemma trigger_for_message:
  "payload im input = Some i \<Longrightarrow> trigger_for clk im input w = (Message i, w)"
  by (simp add: trigger_for_def)

lemma cycle_ingress_payload:
  assumes "cu_msg om"
    and "cycle_ingress_process clk rxa om task m w = (res, m', w')"
  obtains c where "res = Inr ()" "payload om m' = Some c"
  using assms(2) that
  by (auto simp: cycle_ingress_process_def Let_def cu_msg.payload_set_tov [OF assms(1)]
      cu_msg.payload_set [OF assms(1)] split: prod.splits)

lemma watchdog_iteration_spec:
  assumes "slot_env env" and "statig sg" and "watchdog_inv (batch_machine (wd_fsm app))"
  obtains rs cl' app' w' r where
    "watchdog_iteration env sg app cl w = Done (rs, cl', app', w')"
    "watchdog_record (env_in env) (env_out env) cl' = Done r" "rec_id r = cl_id cl"
    "watchdog_replay_step sg (rec_input r) (batch_machine (wd_fsm app))
       = Done (rec_output r, batch_machine (wd_fsm app'))"
    "watchdog_inv (batch_machine (wd_fsm app'))"
    "wd_ingress app' = wd_ingress app" "wd_egress app' = wd_egress app"
proof -
  have im: "cu_msg (env_in env)" and om: "cu_msg (env_out env)"
    using assms(1) by (simp_all add: slot_env_def)
  obtain res m0 w0 where p0: "cycle_ingress_process (env_clk env) (env_rx env) (env_in env)
      (wd_ingress app) (ingress_slot cl) w = (res, m0, w0)" by (metis prod.exhaust)
  then obtain c where c: "payload (env_in env) m0 = Some c"
    by (rule cycle_ingress_payload [OF im])
  obtain outs m' where step: "run_step_all (watchdog_step sg) (batch_machine (wd_fsm app)) (Message c)
        = Done (outs, m')" "watchdog_inv m'"
    by (rule watchdog_step_total [OF assms(2,3)])
  obtain r1 m1 w1 where f: "forward_batch (env_clk env) (env_out env) (fsm_slot cl) w0 outs
      = (r1, m1, w1)" by (metis prod.exhaust)
  have p1: "fsm_batch_task_process (env_clk env) (env_in env) (env_out env) (watchdog_step sg)
      (wd_fsm app) m0 (fsm_slot cl) w0 = Done (r1, (wd_fsm app)\<lparr>batch_machine := m'\<rparr>, m1, w1)"
    using fst_forward_batch [of "env_clk env" "env_out env" "fsm_slot cl" w0 outs]
    by (simp add: fsm_batch_task_process_alt trigger_for_message [OF c] step(1) f)
  have o: "payload (env_out env) m1 = (if outs = [] then None else Some (Batch outs))"
    using payload_forward_batch [OF om, of "env_clk env" "fsm_slot cl" w0 outs] f by simp
  obtain r2 w2 where p2: "batch_egress_process (env_tx env) (env_out env) (wd_egress app) m1 w1
      = (r2, w2)" by (metis prod.exhaust)
  show thesis
    by (rule that [of "[res, r1, r2]" "cl\<lparr>ingress_slot := m0, fsm_slot := m1\<rparr>"
          "app\<lparr>wd_fsm := (wd_fsm app)\<lparr>batch_machine := m'\<rparr>\<rparr>" w2
          "\<lparr>rec_id = cl_id cl, rec_input = c, rec_output = payload (env_out env) m1\<rparr>"])
      (simp_all add: watchdog_iteration_def p0 p1 p2 watchdog_record_def c o
        watchdog_replay_step_def step)
qed

section \<open>The live loop\<close>

lemma watchdog_live_spec:
  assumes "slot_env env" and "statig sg"
  shows "watchdog_inv (batch_machine (wd_fsm app)) \<Longrightarrow>
    \<exists>rss log app' w' recs. watchdog_live (watchdog_iteration env sg) app cls w = Done (rss, log, app', w')
      \<and> exec_map (watchdog_record (env_in env) (env_out env)) log = Done recs
      \<and> map rec_id recs = map cl_id cls
      \<and> replay_outputs (watchdog_replay_step sg) (map rec_input recs) (batch_machine (wd_fsm app))
          = Done (map rec_output recs)"
proof (induction cls arbitrary: app w)
  case (Cons cl cls)
  obtain rs cl' app1 w1 r where it: "watchdog_iteration env sg app cl w = Done (rs, cl', app1, w1)"
    "watchdog_record (env_in env) (env_out env) cl' = Done r" "rec_id r = cl_id cl"
    "watchdog_replay_step sg (rec_input r) (batch_machine (wd_fsm app))
       = Done (rec_output r, batch_machine (wd_fsm app1))"
    "watchdog_inv (batch_machine (wd_fsm app1))"
    by (rule watchdog_iteration_spec [OF assms Cons.prems])
  from Cons.IH [OF it(5), of w1] it show ?case by fastforce
qed simp

definition record_alarms :: "watchdog_recorded \<Rightarrow> alarm list" where
  "record_alarms r = (case rec_output r of None \<Rightarrow> [] | Some b \<Rightarrow> batch_values b)"

lemma recorded_alarms_simps [simp]:
  "recorded_alarms [] = []"
  "recorded_alarms (r # rs) = record_alarms r @ recorded_alarms rs"
  by (simp_all add: recorded_alarms_def record_alarms_def)

lemma holds_armed_alt: "holds_armed r \<longleftrightarrow> Armed \<in> set (record_alarms r)"
  by (simp add: holds_armed_def record_alarms_def split: option.split)

text \<open>Without a failed send, an iteration sends exactly the alarms it logs.\<close>

lemma watchdog_iteration_sends:
  assumes "service_env env hin hout arrived taken sent"
    and "wd_ingress app = \<lparr>cycle_rx = hin, max_batch = mb\<rparr>"
    and "wd_egress app = \<lparr>batch_egress_tx = hout\<rparr>"
    and "watchdog_iteration env sg app cl w = Done (rs, cl', app', w')"
    and "watchdog_record (env_in env) (env_out env) cl' = Done r"
    and "\<forall>x \<in> set rs. x = Inr ()"
  shows "sent w' = sent w @ record_alarms r"
proof -
  have im: "cu_msg (env_in env)"
    and ch: "dag_world (env_rx env) (env_clk env) hin arrived taken (env_tx env) hout sent"
    using assms(1) by (simp_all add: service_env_def slot_env_def)
  obtain res m0 w0 where p0: "cycle_ingress_process (env_clk env) (env_rx env) (env_in env)
      (wd_ingress app) (ingress_slot cl) w = (res, m0, w0)" by (metis prod.exhaust)
  then obtain c where c: "payload (env_in env) m0 = Some c"
    by (rule cycle_ingress_payload [OF im])
  obtain r1 fsm m1 w1 where p1: "fsm_batch_task_process (env_clk env) (env_in env) (env_out env)
        (watchdog_step sg) (wd_fsm app) m0 (fsm_slot cl) w0 = Done (r1, fsm, m1, w1)"
    using assms(4) by (auto simp: watchdog_iteration_def p0)
  obtain r2 w2 where p2': "batch_egress_process (env_tx env) (env_out env) (wd_egress app) m1 w1
      = (r2, w2)" by (metis prod.exhaust)
  have out: "rs = [res, r1, r2]" "fsm_slot cl' = m1"
    and p2: "batch_egress_process (env_tx env) (env_out env) (wd_egress app) m1 w1 = (r2, w')"
    using assms(4) p2' by (auto simp: watchdog_iteration_def p0 p1)
  have s0: "sent w0 = sent w"
    using dag_world.cycle_ingress_sent [OF ch] p0 assms(2) by metis
  have s1: "sent w1 = sent w0"
    by (rule fsm_batch_task_process_DoneE [OF p1])
      (auto simp: trigger_for_message [OF c] dest: dag_world.forward_batch_sent [OF ch])
  have "record_alarms r = (case payload (env_out env) m1 of None \<Rightarrow> [] | Some b \<Rightarrow> batch_values b)"
    using assms(5) out(2) by (auto simp: watchdog_record_def record_alarms_def split: option.splits)
  moreover have "r2 = Inr ()" using assms(6) out(1) by simp
  ultimately have "sent w' = sent w1 @ record_alarms r"
    using p2 assms(3) dag_world.egress_values_ok [OF ch]
    by (auto simp: batch_egress_process_def split: option.splits batch.splits)
  with s0 s1 show ?thesis by simp
qed

lemma watchdog_live_sends:
  assumes "service_env env hin hout arrived taken sent" and "statig sg"
  shows "watchdog_inv (batch_machine (wd_fsm app)) \<Longrightarrow>
    wd_ingress app = \<lparr>cycle_rx = hin, max_batch = mb\<rparr> \<Longrightarrow>
    wd_egress app = \<lparr>batch_egress_tx = hout\<rparr> \<Longrightarrow>
    watchdog_live (watchdog_iteration env sg) app cls w = Done (rss, log, app', w') \<Longrightarrow>
    exec_map (watchdog_record (env_in env) (env_out env)) log = Done recs \<Longrightarrow>
    \<forall>rs \<in> set rss. \<forall>x \<in> set rs. x = Inr () \<Longrightarrow>
    sent w' = sent w @ recorded_alarms recs"
proof (induction cls arbitrary: app w rss log recs)
  case (Cons cl cls)
  have slots: "slot_env env" using assms(1) by (simp add: service_env_def)
  obtain rs cl' app1 w1 r where it: "watchdog_iteration env sg app cl w = Done (rs, cl', app1, w1)"
    "watchdog_record (env_in env) (env_out env) cl' = Done r"
    "watchdog_inv (batch_machine (wd_fsm app1))"
    "wd_ingress app1 = wd_ingress app" "wd_egress app1 = wd_egress app"
    by (rule watchdog_iteration_spec [OF slots assms(2) Cons.prems(1)])
  obtain rss1 log1 recs1 where rest: "watchdog_live (watchdog_iteration env sg) app1 cls w1 = Done (rss1, log1, app', w')"
    "exec_map (watchdog_record (env_in env) (env_out env)) log1 = Done recs1"
    and eqs: "rss = rs # rss1" "log = cl' # log1" "recs = r # recs1"
    using Cons.prems(4,5) it by auto
  have "sent w1 = sent w @ record_alarms r"
    using watchdog_iteration_sends [OF assms(1) Cons.prems(2,3) it(1,2)] Cons.prems(6) eqs by simp
  moreover have "sent w' = sent w1 @ recorded_alarms recs1"
    using Cons.IH [OF it(3) _ _ rest] Cons.prems(2,3,6) it eqs by simp
  ultimately show ?case by (simp add: eqs)
qed simp

text \<open>The feeds of the logged cycles are the messages taken from the transport, in order.\<close>

lemma watchdog_iteration_takes:
  assumes "service_env env hin hout arrived taken sent"
    and "wd_ingress app = \<lparr>cycle_rx = hin, max_batch = mb\<rparr>"
    and "wd_egress app = \<lparr>batch_egress_tx = hout\<rparr>"
    and "watchdog_iteration env sg app cl w = Done (rs, cl', app', w')"
    and "watchdog_record (env_in env) (env_out env) cl' = Done r"
  shows "taken w' = taken w @ events (rec_input r)"
proof -
  have im: "cu_msg (env_in env)"
    and ch: "dag_world (env_rx env) (env_clk env) hin arrived taken (env_tx env) hout sent"
    using assms(1) by (simp_all add: service_env_def slot_env_def)
  then have cw: "cycle_ingress_world (env_rx env) (env_clk env) hin arrived taken (env_in env)"
    by (simp add: dag_world_def cycle_ingress_world_def)
  obtain res m0 w0 where p0: "cycle_ingress_process (env_clk env) (env_rx env) (env_in env)
      (wd_ingress app) (ingress_slot cl) w = (res, m0, w0)" by (metis prod.exhaust)
  then obtain c where c: "payload (env_in env) m0 = Some c"
    by (rule cycle_ingress_payload [OF im])
  obtain r1 fsm m1 w1 where p1: "fsm_batch_task_process (env_clk env) (env_in env) (env_out env)
        (watchdog_step sg) (wd_fsm app) m0 (fsm_slot cl) w0 = Done (r1, fsm, m1, w1)"
    using assms(4) by (auto simp: watchdog_iteration_def p0)
  obtain r2 w2 where p2: "batch_egress_process (env_tx env) (env_out env) (wd_egress app) m1 w1
      = (r2, w2)" by (metis prod.exhaust)
  have out: "ingress_slot cl' = m0" "w' = w2"
    using assms(4) p2 by (auto simp: watchdog_iteration_def p0 p1)
  have "taken w0 = taken w @ slot_events (env_in env) m0"
    by (rule source_task.proc_taken [OF cycle_ingress_world.cycle_source [OF cw] p0 [unfolded assms(2)]])
  moreover have "taken w1 = taken w0"
    by (rule fsm_batch_task_process_DoneE [OF p1])
      (auto simp: trigger_for_message [OF c] dest: dag_world.forward_batch_taken [OF ch])
  moreover have "taken w2 = taken w1"
    by (rule dag_world.batch_egress_taken [OF ch p2 [unfolded assms(3)]])
  moreover have "rec_input r = c"
    using assms(5) out(1) c by (auto simp: watchdog_record_def)
  ultimately show ?thesis by (simp add: out(2) slot_events_def c)
qed

lemma watchdog_live_takes:
  assumes "service_env env hin hout arrived taken sent" and "statig sg"
  shows "watchdog_inv (batch_machine (wd_fsm app)) \<Longrightarrow>
    wd_ingress app = \<lparr>cycle_rx = hin, max_batch = mb\<rparr> \<Longrightarrow>
    wd_egress app = \<lparr>batch_egress_tx = hout\<rparr> \<Longrightarrow>
    watchdog_live (watchdog_iteration env sg) app cls w = Done (rss, log, app', w') \<Longrightarrow>
    exec_map (watchdog_record (env_in env) (env_out env)) log = Done recs \<Longrightarrow>
    taken w' = taken w @ concat (map (\<lambda>r. events (rec_input r)) recs)"
proof (induction cls arbitrary: app w rss log recs)
  case (Cons cl cls)
  have slots: "slot_env env" using assms(1) by (simp add: service_env_def)
  obtain rs cl' app1 w1 r where it: "watchdog_iteration env sg app cl w = Done (rs, cl', app1, w1)"
    "watchdog_record (env_in env) (env_out env) cl' = Done r"
    "watchdog_inv (batch_machine (wd_fsm app1))"
    "wd_ingress app1 = wd_ingress app" "wd_egress app1 = wd_egress app"
    by (rule watchdog_iteration_spec [OF slots assms(2) Cons.prems(1)])
  obtain rss1 log1 recs1 where rest: "watchdog_live (watchdog_iteration env sg) app1 cls w1 = Done (rss1, log1, app', w')"
    "exec_map (watchdog_record (env_in env) (env_out env)) log1 = Done recs1"
    and eqs: "recs = r # recs1"
    using Cons.prems(4,5) it by auto
  have "taken w1 = taken w @ events (rec_input r)"
    using watchdog_iteration_takes [OF assms(1) Cons.prems(2,3) it(1,2)] .
  with Cons.IH [OF it(3) _ _ rest] Cons.prems(2,3) it show ?case by (simp add: eqs)
qed simp

text \<open>What the replay closure yields, in terms of the service description.\<close>

lemma replay_outputs_spec:
  assumes "statig sg"
  shows "watchdog_inv m \<Longrightarrow> replay_outputs (watchdog_replay_step sg) cs m = Done outs \<Longrightarrow>
    outs = map (\<lambda>as. if as = [] then None else Some (Batch as))
      (fst (watch_run (machine_timeout m) (watch_abs m) cs))"
proof (induction cs arbitrary: m outs)
  case (Cons c cs)
  obtain as m' where s: "run_step_all (watchdog_step sg) m (Message c) = Done (as, m')"
    "watchdog_inv m'"
    "watch_spec (machine_timeout m) (watch_abs m) (now_ns c) (events c \<noteq> []) = (watch_abs m', as)"
    "machine_timeout m' = machine_timeout m"
    by (rule watchdog_step_total [OF assms Cons.prems(1)])
  have step: "watchdog_replay_step sg c m = Done (if as \<noteq> [] then Some (Batch as) else None, m')"
    by (simp add: watchdog_replay_step_def s(1))
  obtain rest where r: "replay_outputs (watchdog_replay_step sg) cs m' = Done rest"
    and outs: "outs = (if as \<noteq> [] then Some (Batch as) else None) # rest"
    using Cons.prems(2) by (auto simp: step)
  from Cons.IH [OF s(2) r] s(3,4) outs show ?case by (simp del: watch_run.simps(2))
qed simp

lemma recorded_alarms_spec:
  assumes "map rec_output recs = map (\<lambda>as. if as = [] then None else Some (Batch as)) ass"
  shows "recorded_alarms recs = concat ass"
  using assms
proof (induction recs arbitrary: ass)
  case (Cons r recs)
  then show ?case by (cases ass) (auto simp: record_alarms_def split: if_splits)
qed simp

section \<open>The negative control\<close>

lemma replay_outputs_total:
  assumes "statig sg"
  shows "watchdog_inv m \<Longrightarrow> \<exists>outs. replay_outputs (watchdog_replay_step sg) cs m = Done outs"
proof (induction cs arbitrary: m)
  case (Cons c cs)
  obtain outs m' where "run_step_all (watchdog_step sg) m (Message c) = Done (outs, m')"
    "watchdog_inv m'" by (rule watchdog_step_total [OF assms Cons.prems])
  with Cons.IH [of m'] show ?case by (auto simp: watchdog_replay_step_def)
qed simp

lemma watch_spec_armed:
  "watch_spec timeout s n fed = (s', outs) \<Longrightarrow> Armed \<in> set outs \<Longrightarrow> s = Never_Fed"
  by (cases s) (auto split: if_splits)

text \<open>A step that emitted \<open>Armed\<close> emits nothing once its feeds are gone.\<close>

lemma cleared_step_silent:
  assumes "statig sg" and "watchdog_inv m"
    and "watchdog_replay_step sg (rec_input r) m = Done (rec_output r, m')" and "holds_armed r"
  obtains m1 where "watchdog_replay_step sg ((rec_input r)\<lparr>events := []\<rparr>) m = Done (None, m1)"
    "watchdog_inv m1"
proof -
  let ?c = "rec_input r"
  obtain outs m2 where s: "run_step_all (watchdog_step sg) m (Message ?c) = Done (outs, m2)"
    "watch_spec (machine_timeout m) (watch_abs m) (now_ns ?c) (events ?c \<noteq> []) = (watch_abs m2, outs)"
    by (rule watchdog_step_total [OF assms(1,2)])
  have "Armed \<in> set outs"
    using assms(3,4) s(1)
    by (auto simp: watchdog_replay_step_def holds_armed_def split: if_splits option.splits)
  with s(2) have idle: "watch_abs m = Never_Fed" by (rule watch_spec_armed)
  obtain outs1 m1 where s1: "run_step_all (watchdog_step sg) m (Message (?c\<lparr>events := []\<rparr>))
        = Done (outs1, m1)" "watchdog_inv m1"
      "watch_spec (machine_timeout m) (watch_abs m) (now_ns (?c\<lparr>events := []\<rparr>))
        (events (?c\<lparr>events := []\<rparr>) \<noteq> []) = (watch_abs m1, outs1)"
    by (rule watchdog_step_total [OF assms(1,2)])
  with idle have "outs1 = []" by simp
  with s1 show thesis by (intro that [of m1]) (simp_all add: watchdog_replay_step_def)
qed

lemma clear_armed_diverges:
  assumes "statig sg"
  shows "watchdog_inv m \<Longrightarrow>
    replay_outputs (watchdog_replay_step sg) (map rec_input recs) m = Done (map rec_output recs) \<Longrightarrow>
    clear_armed recs = Some perturbed \<Longrightarrow>
    map rec_id perturbed = map rec_id recs \<and>
    (\<exists>outs n. replay_outputs (watchdog_replay_step sg) (map rec_input perturbed) m = Done outs
       \<and> n < length perturbed \<and> outs ! n = None \<and> rec_output (perturbed ! n) \<noteq> None)"
proof (induction recs arbitrary: m perturbed)
  case (Cons r rs)
  obtain m' where step: "watchdog_replay_step sg (rec_input r) m = Done (rec_output r, m')"
    and rest: "replay_outputs (watchdog_replay_step sg) (map rec_input rs) m'
      = Done (map rec_output rs)"
    using Cons.prems(2) by auto
  show ?case
  proof (cases "holds_armed r")
    case True
    then have p: "perturbed = r\<lparr>rec_input := (rec_input r)\<lparr>events := []\<rparr>\<rparr> # rs"
      using Cons.prems(3) by simp
    obtain m1 where "watchdog_replay_step sg ((rec_input r)\<lparr>events := []\<rparr>) m = Done (None, m1)"
      "watchdog_inv m1"
      by (rule cleared_step_silent [OF assms Cons.prems(1) step True])
    moreover obtain outs where
      "replay_outputs (watchdog_replay_step sg) (map rec_input rs) m1 = Done outs"
      using replay_outputs_total [OF assms \<open>watchdog_inv m1\<close>] by blast
    moreover have "rec_output r \<noteq> None"
      using True by (auto simp: holds_armed_def split: option.splits)
    ultimately show ?thesis
      by (intro conjI exI [of _ "None # outs"] exI [of _ 0]) (simp_all add: p)
  next
    case False
    then obtain ps where p: "clear_armed rs = Some ps" "perturbed = r # ps"
      using Cons.prems(3) by auto
    obtain outs0 m0 where "run_step_all (watchdog_step sg) m (Message (rec_input r)) = Done (outs0, m0)"
      "watchdog_inv m0" by (rule watchdog_step_total [OF assms Cons.prems(1)])
    with step have "watchdog_inv m'" by (simp add: watchdog_replay_step_def)
    from Cons.IH [OF this rest p(1)] obtain outs n where
      "map rec_id ps = map rec_id rs"
      "replay_outputs (watchdog_replay_step sg) (map rec_input ps) m' = Done outs"
      "n < length ps" "outs ! n = None" "rec_output (ps ! n) \<noteq> None" by blast
    with step p(2) show ?thesis
      by (intro conjI exI [of _ "rec_output r # outs"] exI [of _ "Suc n"]) simp_all
  qed
qed simp

lemma clear_armed_Some:
  "Armed \<in> set (recorded_alarms recs) \<Longrightarrow> \<exists>perturbed. clear_armed recs = Some perturbed"
  by (induction recs) (auto simp: holds_armed_alt)

lemma clear_armed_fails:
  assumes "statig sg"
    and "replay_outputs (watchdog_replay_step sg) (map rec_input recs) (watchdog_machine_default sg)
           = Done (map rec_output recs)"
    and "length recs < 2 ^ 64" and "ids_in_range oc (map rec_id recs)"
    and "\<And>b. result_ok (encode None) \<noteq> result_ok (encode (Some b))"
    and "clear_armed recs = Some perturbed"
  obtains report where "watchdog_replay oc encode show_i show_o sg perturbed = Done report"
    "\<not> passed report"
proof -
  obtain outs n where ids: "map rec_id perturbed = map rec_id recs"
    and d: "replay_outputs (watchdog_replay_step sg) (map rec_input perturbed)
        (watchdog_machine_default sg) = Done outs"
      "n < length perturbed" "outs ! n = None" "rec_output (perturbed ! n) \<noteq> None"
    using clear_armed_diverges [OF assms(1) watchdog_default(1) [OF assms(1)] assms(2,6)] by blast
  have len: "length perturbed < 2 ^ 64"
    using assms(3) map_eq_imp_length_eq [OF ids] by simp
  have diff: "\<not> same_bytes encode (outs ! n) (rec_output (perturbed ! n))"
    using d(3,4) assms(5) unfolding same_bytes_def by (metis option.exhaust)
  from gate_rejects [OF d(1) len _ d(2) diff, of oc show_i show_o] assms(4) ids that
  show thesis unfolding watchdog_replay_def by metis
qed

section \<open>Properties\<close>

definition watchdog_ids :: "string list" where
  "watchdog_ids = [''ingress'', ''watchdog'', ''egress'']"

lemma read_recorded_clean:
  "exec_map (watchdog_record im om) log = Done recs \<Longrightarrow>
     watchdog_read_recorded im om watchdog_ids (Some (Inr (log, Eof))) = Some (Done recs)"
  by (simp add: watchdog_read_recorded_def watchdog_ids_def)

text \<open>A live run of a cold application, with what its log reads back as.\<close>

lemma watchdog_cold_live:
  assumes "slot_env env" and "statig sg"
    and "batch_machine (wd_fsm app) = watchdog_machine_default sg"
  obtains rss log app' w' recs where
    "watchdog_live (watchdog_iteration env sg) app cls w = Done (rss, log, app', w')"
    "exec_map (watchdog_record (env_in env) (env_out env)) log = Done recs"
    "map rec_id recs = map cl_id cls"
    "replay_outputs (watchdog_replay_step sg) (map rec_input recs) (watchdog_machine_default sg)
       = Done (map rec_output recs)"
  using watchdog_live_spec [OF assms(1,2), of app cls w] watchdog_default(1) [OF assms(2)] assms(3)
  by auto

lemma recorded_run_passes:
  assumes "replay_outputs (watchdog_replay_step sg) (map rec_input recs) (watchdog_machine_default sg)
       = Done (map rec_output recs)"
    and "map rec_id recs = ids" and "ids \<noteq> []" and "length ids < 2 ^ 64"
    and "consecutive ids" and "ids_in_range oc ids"
  obtains report where "watchdog_replay oc encode show_i show_o sg recs = Done report" "passed report"
proof (rule gate_accepts_self [OF assms(1)])
  show "length recs < 2 ^ 64" "ids_in_range oc (map rec_id recs)" "recs \<noteq> []"
    "consecutive (map rec_id recs)"
    using assms(2-6) by (auto dest: map_eq_imp_length_eq)
next
  fix report
  assume "replay_gate oc encode show_i show_o recs (watchdog_replay_step sg)
      (watchdog_machine_default sg) = Done report" "passed report"
  then show thesis using that by (simp add: watchdog_replay_def)
qed

text \<open>
  A scripted run for the witnesses: a feed, a silence, a feed sent during the eleventh channel or
  clock operation, and a silence, on a clock that advances by more than the timeout.
\<close>

definition demo_env ::
    "((feed, alarm) sim_world, unit, unit, unit, u64, u64 \<times> u64,
      (feed cycle, u64, u64 \<times> u64) slot, (alarm batch, u64, u64 \<times> u64) slot) watchdog_env" where
  "demo_env = sim_env"

lemma demo_service: "service_env demo_env () () sim_arrived sim_taken sim_sent"
  and demo_slots: "slot_env demo_env"
  unfolding demo_env_def by (fact sim_service.service_env_axioms, fact sim_service.slot_env_axioms)

abbreviation demo_run_one where
  "demo_run_one \<equiv> watchdog_iteration demo_env leaf_statig"

definition demo_run_world :: "(feed, alarm) sim_world" where
  "demo_run_world =
     \<lparr>sim_queue = [Feed 0], sim_taken = [], sim_bursts = replicate 11 [] @ [[Feed 1]],
      sim_sent = [], sim_open = True, sim_clock = 0, sim_period = 60000000\<rparr>"

definition demo_app :: "unit watchdog_app" where
  "demo_app =
     \<lparr>wd_ingress = \<lparr>cycle_rx = (), max_batch = 16\<rparr>,
      wd_fsm = \<lparr>batch_machine = watchdog_machine_default leaf_statig\<rparr>,
      wd_egress = \<lparr>batch_egress_tx = ()\<rparr>\<rparr>"

definition demo_copperlists ::
    "((feed cycle, u64, u64 \<times> u64) slot, (alarm batch, u64, u64 \<times> u64) slot) copperlist list" where
  "demo_copperlists =
     map (\<lambda>i. \<lparr>cl_id = i, ingress_slot = fresh_slot, fsm_slot = fresh_slot\<rparr>) [0, 1, 2, 3]"

lemma demo_copperlists_ids:
  "demo_copperlists \<noteq> []" "length demo_copperlists < 2 ^ 64"
  "consecutive (map cl_id demo_copperlists)" "ids_in_range True (map cl_id demo_copperlists)"
  by (simp_all add: demo_copperlists_def ids_in_range_def)

lemma demo_app_simps [simp]:
  "batch_machine (wd_fsm demo_app) = watchdog_machine_default leaf_statig"
  "wd_ingress demo_app = \<lparr>cycle_rx = (), max_batch = 16\<rparr>"
  "wd_egress demo_app = \<lparr>batch_egress_tx = ()\<rparr>"
  by (simp_all add: demo_app_def)

definition demo_live_ok :: bool where
  "demo_live_ok =
     (case watchdog_live demo_run_one demo_app demo_copperlists demo_run_world of
        Done (rss, log, app, w) \<Rightarrow>
          (\<forall>rs \<in> set rss. \<forall>x \<in> set rs. x = Inr ()) \<and>
          map alarm_kind (sim_sent w) = [''armed'', ''tripped'', ''recovered'', ''tripped'']
      | Panic p \<Rightarrow> False)"

lemma demo_live_ok: demo_live_ok
  by code_simp

lemma alarm_kind_armed [simp]: "alarm_kind a = ''armed'' \<longleftrightarrow> a = Armed"
  by (cases a) simp_all

lemma demo_live:
  obtains rss log app' w' recs where
    "watchdog_live demo_run_one demo_app demo_copperlists demo_run_world
       = Done (rss, log, app', w')"
    "exec_map (watchdog_record slot_api slot_api) log = Done recs"
    "\<forall>rs \<in> set rss. \<forall>x \<in> set rs. x = Inr ()"
    "map alarm_kind (sim_sent w') = [''armed'', ''tripped'', ''recovered'', ''tripped'']"
    "sim_sent w' = recorded_alarms recs"
proof (rule watchdog_cold_live [OF demo_slots leaf.statig_axioms demo_app_simps(1),
      of demo_copperlists demo_run_world])
  fix rss log app' w' recs
  assume live: "watchdog_live demo_run_one demo_app demo_copperlists demo_run_world
       = Done (rss, log, app', w')"
    and recs: "exec_map (watchdog_record (env_in demo_env) (env_out demo_env)) log = Done recs"
  from demo_live_ok live have ok: "\<forall>rs \<in> set rss. \<forall>x \<in> set rs. x = Inr ()"
    "map alarm_kind (sim_sent w') = [''armed'', ''tripped'', ''recovered'', ''tripped'']"
    by (simp_all add: demo_live_ok_def)
  have "sim_sent w' = sim_sent demo_run_world @ recorded_alarms recs"
    by (rule watchdog_live_sends [OF demo_service leaf.statig_axioms _ _ _ live recs
          ok(1)]) (simp_all add: watchdog_default(1) [OF leaf.statig_axioms])
  with live recs ok show thesis
    by (intro that) (simp_all add: demo_env_def sim_env_def demo_run_world_def)
qed

text \<open>
  C4. Replay determinism, the promise of the repository: whatever the clock reads, whatever arrives
  while the service runs, and whatever the reused message slots held, the log of a live run of the
  watchdog reads back, and replaying it through a fresh machine passes the gate. The copperlist
  ids, which the runtime gives, are assumed consecutive.
\<close>

theorem watchdog_live_replay_passes:
  assumes "slot_env env" and "statig sg"
    and "batch_machine (wd_fsm app) = watchdog_machine_default sg"
    and "cls \<noteq> []" and "length cls < 2 ^ 64"
    and "consecutive (map cl_id cls)" and "ids_in_range oc (map cl_id cls)"
    and "copper_iteration run_one (watchdog_iteration env sg)"
  shows "\<exists>rss log app' w' recs report.
           watchdog_live run_one app cls w = Done (rss, log, app', w')
         \<and> watchdog_read_recorded (env_in env) (env_out env) watchdog_ids (Some (Inr (log, Eof)))
             = Some (Done recs)
         \<and> watchdog_replay oc encode show_i show_o sg recs = Done report \<and> passed report"
proof -
  note loop = copper_iterationD [OF assms(8)]
  obtain rss log app' w' recs where live: "watchdog_live (watchdog_iteration env sg) app cls w = Done (rss, log, app', w')"
    "exec_map (watchdog_record (env_in env) (env_out env)) log = Done recs"
    "map rec_id recs = map cl_id cls"
    "replay_outputs (watchdog_replay_step sg) (map rec_input recs) (watchdog_machine_default sg)
       = Done (map rec_output recs)"
    by (rule watchdog_cold_live [OF assms(1-3)])
  obtain report where "watchdog_replay oc encode show_i show_o sg recs = Done report" "passed report"
    by (rule recorded_run_passes [OF live(4,3)]) (use assms(4-7) in simp_all)
  with live(1) read_recorded_clean [OF live(2)] show ?thesis unfolding loop by blast
qed

theorem watchdog_live_replay_passes_witness:
  "\<exists>rss log app' w' recs report.
     watchdog_live demo_run_one demo_app demo_copperlists demo_run_world = Done (rss, log, app', w')
     \<and> watchdog_read_recorded (env_in demo_env) (env_out demo_env) watchdog_ids (Some (Inr (log, Eof)))
         = Some (Done recs)
     \<and> watchdog_replay True (\<lambda>_. Inr [] :: unit + nat list) (\<lambda>_. '''') (\<lambda>_. '''') leaf_statig recs
         = Done report \<and> passed report"
  by (rule watchdog_live_replay_passes [OF demo_slots leaf.statig_axioms
      demo_app_simps(1) demo_copperlists_ids copper_iteration_refl])

text \<open>
  C22. The negative control is never vacuous: dropping the feeds of the first recorded cycle that
  armed the watchdog makes the gate fail on every log of a live run, provided the encoding of "no
  alarm" differs from that of every batch.
\<close>

theorem watchdog_negative_control:
  assumes "slot_env env" and "statig sg"
    and "batch_machine (wd_fsm app) = watchdog_machine_default sg"
    and "length cls < 2 ^ 64" and "ids_in_range oc (map cl_id cls)"
    and "\<And>b. result_ok (encode None) \<noteq> result_ok (encode (Some b))"
    and "watchdog_live run_one app cls w = Done (rss, log, app', w')"
    and "exec_map (watchdog_record (env_in env) (env_out env)) log = Done recs"
    and "Armed \<in> set (recorded_alarms recs)"
    and "copper_iteration run_one (watchdog_iteration env sg)"
  shows "\<exists>perturbed report. clear_armed recs = Some perturbed
         \<and> watchdog_replay oc encode show_i show_o sg perturbed = Done report \<and> \<not> passed report"
proof -
  note loop = copper_iterationD [OF assms(10)]
  obtain perturbed where p: "clear_armed recs = Some perturbed"
    using clear_armed_Some [OF assms(9)] by blast
  have "map rec_id recs = map cl_id cls"
    and run: "replay_outputs (watchdog_replay_step sg) (map rec_input recs)
      (watchdog_machine_default sg) = Done (map rec_output recs)"
    using watchdog_cold_live [OF assms(1-3), of cls w] assms(7) [unfolded loop] assms(8) by auto
  then have "length recs < 2 ^ 64" "ids_in_range oc (map rec_id recs)"
    using assms(4,5) by (auto dest: map_eq_imp_length_eq)
  from clear_armed_fails [OF assms(2) run this assms(6) p, of show_i show_o] p show ?thesis
    by metis
qed

text \<open>An encoder of alarm batches for the witnesses: the number of alarms, or nothing.\<close>

definition encode_count :: "alarm batch option \<Rightarrow> unit + nat list" where
  "encode_count out = (case out of None \<Rightarrow> Inr [] | Some b \<Rightarrow> Inr [length (batch_values b)])"

lemma encode_count_None: "result_ok (encode_count None) \<noteq> result_ok (encode_count (Some b))"
  by (simp add: encode_count_def)

theorem watchdog_negative_control_witness:
  "\<exists>rss log app' w' recs perturbed report.
     watchdog_live demo_run_one demo_app demo_copperlists demo_run_world
       = Done (rss, log, app', w')
     \<and> exec_map (watchdog_record slot_api slot_api) log = Done recs
     \<and> clear_armed recs = Some perturbed
     \<and> watchdog_replay True encode_count (\<lambda>_. '''') (\<lambda>_. '''') leaf_statig perturbed = Done report
     \<and> \<not> passed report"
proof (rule demo_live)
  fix rss log app' w' recs
  assume live: "watchdog_live demo_run_one demo_app demo_copperlists demo_run_world
       = Done (rss, log, app', w')"
    and recs: "exec_map (watchdog_record slot_api slot_api) log = Done recs"
    and alarms: "map alarm_kind (sim_sent w') = [''armed'', ''tripped'', ''recovered'', ''tripped'']"
      "sim_sent w' = recorded_alarms recs"
  from alarms have armed: "Armed \<in> set (recorded_alarms recs)"
    by (auto simp: map_eq_Cons_conv)
  have recs': "exec_map (watchdog_record (env_in demo_env) (env_out demo_env)) log = Done recs"
    using recs by (simp add: demo_env_def sim_env_def)
  from watchdog_negative_control [OF demo_slots leaf.statig_axioms demo_app_simps(1)
      demo_copperlists_ids(2,4) encode_count_None live recs' armed
      copper_iteration_refl] live recs
  show ?thesis by blast
qed

text \<open>
  The outbound side of a live run: as long as no task reports an error, the alarms that reach
  the outbound channel are exactly the alarms of the log, in the order of the copperlists and, in
  each of them, of the batch.
\<close>

lemma watchdog_live_sends_log:
  assumes "service_env env hin hout arrived taken sent" and "statig sg"
    and "app = \<lparr>wd_ingress = \<lparr>cycle_rx = hin, max_batch = mb\<rparr>,
                wd_fsm = \<lparr>batch_machine = watchdog_machine_default sg\<rparr>,
                wd_egress = \<lparr>batch_egress_tx = hout\<rparr>\<rparr>"
    and "watchdog_live run_one app cls w = Done (rss, log, app', w')"
    and "\<forall>rs \<in> set rss. \<forall>x \<in> set rs. x = Inr ()"
    and "copper_iteration run_one (watchdog_iteration env sg)"
  shows "\<exists>recs. exec_map (watchdog_record (env_in env) (env_out env)) log = Done recs
           \<and> sent w' = sent w @ recorded_alarms recs"
proof -
  note loop = copper_iterationD [OF assms(6)]
  have slots: "slot_env env" using assms(1) by (simp add: service_env_def)
  obtain recs where recs: "exec_map (watchdog_record (env_in env) (env_out env)) log = Done recs"
    using watchdog_cold_live [OF slots assms(2), of app cls w] assms(3) assms(4) [unfolded loop] by auto
  have "sent w' = sent w @ recorded_alarms recs"
    by (rule watchdog_live_sends [OF assms(1,2) _ _ _ assms(4) [unfolded loop] recs assms(5)])
      (simp_all add: assms(3) watchdog_default(1) [OF assms(2)])
  with recs show ?thesis by blast
qed

lemma watchdog_live_sends_log_witness:
  "\<exists>rss log app' w' recs. watchdog_live demo_run_one demo_app demo_copperlists demo_run_world
       = Done (rss, log, app', w')
     \<and> exec_map (watchdog_record (env_in demo_env) (env_out demo_env)) log = Done recs
     \<and> sim_sent w' = sim_sent demo_run_world @ recorded_alarms recs"
proof (rule demo_live)
  fix rss log app' w'
  assume live: "watchdog_live demo_run_one demo_app demo_copperlists demo_run_world
       = Done (rss, log, app', w')"
    and ok: "\<forall>rs \<in> set rss. \<forall>x \<in> set rs. x = Inr ()"
  from watchdog_live_sends_log [OF demo_service leaf.statig_axioms demo_app_def
      live ok copper_iteration_refl] live
  show ?thesis by blast
qed

text \<open>Every check of \<open>main\<close> after the one on the kinds follows from the run.\<close>

lemma watchdog_checks_pass:
  assumes "statig sg"
    and "replay_outputs (watchdog_replay_step sg) (map rec_input recs) (watchdog_machine_default sg)
           = Done (map rec_output recs)"
    and "map rec_id recs = ids" and "ids \<noteq> []" and "length ids < 2 ^ 64"
    and "consecutive ids" and "ids_in_range oc ids"
    and "\<And>b. result_ok (encode None) \<noteq> result_ok (encode (Some b))"
    and "map alarm_kind (recorded_alarms recs) = [''armed'', ''tripped'', ''recovered'', ''tripped'']"
  shows "watchdog_checks oc encode show_i show_o sg (recorded_alarms recs) recs = Done ()"
proof -
  have "Armed \<in> set (recorded_alarms recs)" using assms(9) by (auto simp: map_eq_Cons_conv)
  then obtain perturbed where p: "clear_armed recs = Some perturbed"
    using clear_armed_Some [of recs] by auto
  have range: "length recs < 2 ^ 64" "ids_in_range oc (map rec_id recs)"
    using assms(3,5,7) by (auto dest: map_eq_imp_length_eq)
  obtain report where "watchdog_replay oc encode show_i show_o sg recs = Done report" "passed report"
    by (rule recorded_run_passes [OF assms(2,3)]) (use assms(4-7) in simp_all)
  moreover obtain control where
    "watchdog_replay oc encode show_i show_o sg perturbed = Done control" "\<not> passed control"
    by (rule clear_armed_fails [OF assms(1,2) range assms(8) p])
  ultimately show ?thesis using assms(9) p by (simp add: watchdog_checks_def)
qed

text \<open>
  The whole of \<open>main\<close> after the live run succeeds whenever the live alarms have the expected
  kinds: the log holds the alarms that were sent, the replay passes, a cycle that armed is found,
  and the negative control fails. No assertion but the one on the live kinds depends on timing.
\<close>

lemma watchdog_main_succeeds:
  assumes "service_env env hin hout arrived taken sent" and "statig sg"
    and "app = \<lparr>wd_ingress = \<lparr>cycle_rx = hin, max_batch = mb\<rparr>,
                wd_fsm = \<lparr>batch_machine = watchdog_machine_default sg\<rparr>,
                wd_egress = \<lparr>batch_egress_tx = hout\<rparr>\<rparr>"
    and "cls \<noteq> []" and "length cls < 2 ^ 64"
    and "consecutive (map cl_id cls)" and "ids_in_range oc (map cl_id cls)"
    and "\<And>b. result_ok (encode None) \<noteq> result_ok (encode (Some b))"
    and "sent w = []" and "watchdog_live run_one app cls w = Done (rss, log, app', w')"
    and "\<forall>rs \<in> set rss. \<forall>x \<in> set rs. x = Inr ()"
    and "map alarm_kind (sent w') = [''armed'', ''tripped'', ''recovered'', ''tripped'']"
    and "copper_iteration run_one (watchdog_iteration env sg)"
  shows "\<exists>recs. watchdog_read_recorded (env_in env) (env_out env) watchdog_ids (Some (Inr (log, Eof)))
                  = Some (Done recs)
           \<and> watchdog_checks oc encode show_i show_o sg (sent w') recs = Done ()"
proof -
  note loop = copper_iterationD [OF assms(13)]
  have slots: "slot_env env" using assms(1) by (simp add: service_env_def)
  obtain recs where recs: "exec_map (watchdog_record (env_in env) (env_out env)) log = Done recs"
    and ids: "map rec_id recs = map cl_id cls"
    and run: "replay_outputs (watchdog_replay_step sg) (map rec_input recs)
      (watchdog_machine_default sg) = Done (map rec_output recs)"
    using watchdog_cold_live [OF slots assms(2), of app cls w] assms(3) assms(10) [unfolded loop] by auto
  have "sent w' = sent w @ recorded_alarms recs"
    by (rule watchdog_live_sends [OF assms(1,2) _ _ _ assms(10) [unfolded loop] recs assms(11)])
      (simp_all add: assms(3) watchdog_default(1) [OF assms(2)])
  then have alarms: "recorded_alarms recs = sent w'" by (simp add: assms(9))
  have "watchdog_checks oc encode show_i show_o sg (sent w') recs = Done ()"
    unfolding alarms [symmetric]
    by (rule watchdog_checks_pass [OF assms(2) run ids])
      (use assms(4-8,12) alarms in simp_all)
  with read_recorded_clean [OF recs] show ?thesis by blast
qed

lemma watchdog_main_succeeds_witness:
  "\<exists>rss log app' w' recs. watchdog_live demo_run_one demo_app demo_copperlists demo_run_world
       = Done (rss, log, app', w')
     \<and> watchdog_read_recorded (env_in demo_env) (env_out demo_env) watchdog_ids (Some (Inr (log, Eof)))
         = Some (Done recs)
     \<and> watchdog_checks True encode_count (\<lambda>_. '''') (\<lambda>_. '''') leaf_statig (sim_sent w') recs = Done ()"
proof (rule demo_live)
  fix rss log app' w'
  assume live: "watchdog_live demo_run_one demo_app demo_copperlists demo_run_world
       = Done (rss, log, app', w')"
    and ok: "\<forall>rs \<in> set rss. \<forall>x \<in> set rs. x = Inr ()"
      "map alarm_kind (sim_sent w') = [''armed'', ''tripped'', ''recovered'', ''tripped'']"
  have "sim_sent demo_run_world = []" by (simp add: demo_run_world_def)
  from watchdog_main_succeeds [OF demo_service leaf.statig_axioms demo_app_def
      demo_copperlists_ids encode_count_None this live ok copper_iteration_refl] live
  show ?thesis by blast
qed

lemma watchdog_build_spec:
  assumes "registry_ok r"
    and "type_id (ingress_ty ty) \<noteq> type_id (egress_ty ty)"
    and "installed r (type_id (ingress_ty ty)) = None" "installed r (type_id (egress_ty ty)) = None"
    and "configured_batch cfg_get config = Inr n" and "n \<noteq> 0"
  obtains r1 r2 where "watchdog_install ty from_transport to_transport r = Some (Done (), r1)"
    "watchdog_build cfg_get sg ty config r1 = Some (Inr
       \<lparr>wd_ingress = \<lparr>cycle_rx = from_transport, max_batch = n\<rparr>,
        wd_fsm = \<lparr>batch_machine = watchdog_machine_default sg\<rparr>,
        wd_egress = \<lparr>batch_egress_tx = to_transport\<rparr>\<rparr>, r2)"
    "registry_ok r2" "installed r2 = installed r"
proof -
  obtain r1 r2 r3 r4 where r: "install (ingress_ty ty) (receiver_ty ty) from_transport r = Some (Done (), r1)"
      "install (egress_ty ty) (sender_ty ty) to_transport r1 = Some (Done (), r2)"
      "registry_take (ingress_ty ty) (receiver_ty ty) r2 = Some (Inr from_transport, r3)"
      "registry_take (egress_ty ty) (sender_ty ty) r3 = Some (Inr to_transport, r4)"
      "registry_ok r4" "installed r4 = installed r"
    by (rule slot_reg.two_hand_overs [OF assms(1-4)])
  show thesis
  proof (rule that [OF _ _ r(5,6)])
    show "watchdog_install ty from_transport to_transport r = Some (Done (), r2)"
      by (simp add: watchdog_install_def cycle_ingress_install_def batch_egress_install_def r)
    have "cycle_ingress_new cfg_get (ingress_ty ty) (receiver_ty ty) config r2
        = Some (Inr \<lparr>cycle_rx = from_transport, max_batch = n\<rparr>, r3)"
      by (simp add: cycle_ingress_new_def r assms(5,6))
    moreover have "batch_egress_new (egress_ty ty) (sender_ty ty) r3
        = Some (Inr \<lparr>batch_egress_tx = to_transport\<rparr>, r4)"
      by (simp add: batch_egress_new_def r)
    ultimately show "watchdog_build cfg_get sg ty config r2 = Some (Inr
        \<lparr>wd_ingress = \<lparr>cycle_rx = from_transport, max_batch = n\<rparr>,
         wd_fsm = \<lparr>batch_machine = watchdog_machine_default sg\<rparr>,
         wd_egress = \<lparr>batch_egress_tx = to_transport\<rparr>\<rparr>, r4)"
      by (simp add: watchdog_build_def fsm_batch_task_new_def)
  qed
qed

text \<open>
  Building the service: from a registry in which the two task types have nothing installed,
  installing the two channel ends and building the tasks succeeds, whatever else is installed. The
  ingress task gets the receiver and the configured batch size, the egress task the sender, the
  machine is cold, and the registry holds afterwards exactly what it held before.
\<close>

lemma watchdog_build_ok:
  assumes "registry_ok r"
    and "type_id (ingress_ty ty) \<noteq> type_id (egress_ty ty)"
    and "installed r (type_id (ingress_ty ty)) = None" "installed r (type_id (egress_ty ty)) = None"
    and "cfg_get cfg ''max_batch'' = Inr (Some n)" and "n \<noteq> 0"
  shows "\<exists>r1 r2 app. watchdog_install ty from_transport to_transport r = Some (Done (), r1)
           \<and> watchdog_build cfg_get sg ty (Some cfg) r1 = Some (Inr app, r2)
           \<and> app = \<lparr>wd_ingress = \<lparr>cycle_rx = from_transport, max_batch = ucast n\<rparr>,
                    wd_fsm = \<lparr>batch_machine = watchdog_machine_default sg\<rparr>,
                    wd_egress = \<lparr>batch_egress_tx = to_transport\<rparr>\<rparr>
           \<and> registry_ok r2 \<and> installed r2 = installed r"
proof -
  have "configured_batch cfg_get (Some cfg) = Inr (ucast n)"
    by (simp add: configured_batch_def assms(5))
  moreover have "(ucast n :: usize) \<noteq> 0"
    using assms(6) unat_ucast_u32 [of n] by (metis unat_0 unat_eq_0)
  ultimately show ?thesis
    using watchdog_build_spec [OF assms(1-4)] by metis
qed

definition demo_types :: service_types where
  "demo_types =
     \<lparr>ingress_ty = Rust_Type 1 ''CycleIngressTask<Feed>'', egress_ty = Rust_Type 2 ''BatchEgressTask<Alarm>'',
      receiver_ty = Rust_Type 3 ''Receiver<Feed>'', sender_ty = Rust_Type 4 ''Sender<Alarm>''\<rparr>"

lemma watchdog_build_ok_witness:
  "\<exists>r1 r2 app. watchdog_install demo_types (7 :: nat) 8 None = Some (Done (), r1)
     \<and> watchdog_build (\<lambda>_ _. Inr (Some 16)) leaf_statig demo_types (Some ()) r1 = Some (Inr app, r2)
     \<and> max_batch (wd_ingress app) = 16 \<and> cycle_rx (wd_ingress app) = 7
     \<and> batch_egress_tx (wd_egress app) = 8"
  using watchdog_build_ok [of None demo_types "\<lambda>_ _. Inr (Some 16)" "()" 16 "7 :: nat" 8 leaf_statig]
  by (auto simp: demo_types_def)

end
