(* ===== verification/Echo.thy ===== *)
theory Echo
  imports Fsm_Task
begin

text \<open>
  \<open>examples/echo/src/echo.rs\<close>: the reference message service. The pure store with its message
  counter, the one-state statig machine, and the machine that \<open>FsmTask\<close> drives. \<open>oc\<close> says whether
  the build checks integer overflow. \<open>echo_replies\<close> is the service as described: the n-th message
  is answered with its number and its text, ticks are not answered.
\<close>

section \<open>Messages and store\<close>

datatype echo_msg = Echo_Msg (echo_text: string)

instantiation echo_msg :: default
begin

definition default_echo_msg :: echo_msg where
  "default_echo_msg = Echo_Msg ''''"

instance ..

end

definition echo_msg_new :: "string \<Rightarrow> echo_msg" where
  "echo_msg_new s = Echo_Msg s"

record echo_store =
  echo_count :: u64

definition echo_store_default :: echo_store where
  "echo_store_default = \<lparr>echo_count = 0\<rparr>"

definition echo :: "bool \<Rightarrow> echo_store \<Rightarrow> string \<Rightarrow> string exec" where
  "echo oc s msg =
     exec_bind (add_word oc (echo_count s) 1)
       (\<lambda>n. Done (''echo '' @ show_word n @ '': '' @ msg))"

section \<open>The state machine\<close>

record echo_ctx =
  echo_ctx_store :: echo_store
  echo_emitted :: "string option"

definition echo_ctx_default :: echo_ctx where
  "echo_ctx_default = \<lparr>echo_ctx_store = echo_store_default, echo_emitted = None\<rparr>"

datatype echo_event = Echo_Event string

datatype echo_state = State_Running

definition echo_running ::
    "bool \<Rightarrow> echo_event \<Rightarrow> echo_ctx \<Rightarrow> (echo_state outcome \<times> echo_ctx) exec" where
  "echo_running oc event context =
     (case event of Echo_Event body \<Rightarrow>
        exec_bind (echo oc (echo_ctx_store context) body) (\<lambda>out.
          let context = context\<lparr>echo_emitted := Some out\<rparr> in
          exec_bind (add_word oc (echo_count (echo_ctx_store context)) 1) (\<lambda>n.
            Done (Handled,
                  context\<lparr>echo_ctx_store := (echo_ctx_store context)\<lparr>echo_count := n\<rparr>\<rparr>))))"

fun echo_handlers :: "bool \<Rightarrow> (echo_state, echo_event, echo_ctx) handlers" where
  "echo_handlers oc State_Running = echo_running oc"

section \<open>The machine\<close>

record echo_machine =
  echo_sm :: echo_state
  echo_ctx :: echo_ctx

type_synonym echo_statig = "(echo_state, echo_event, echo_ctx) statig_api"

definition echo_machine_default :: "echo_statig \<Rightarrow> echo_machine" where
  "echo_machine_default sg =
     (let (s, c) = init_with_context sg State_Running echo_ctx_default
      in \<lparr>echo_sm = s, echo_ctx = c\<rparr>)"

definition echo_step :: "bool \<Rightarrow> echo_statig \<Rightarrow> (echo_machine, echo_msg, echo_msg) fsm_step" where
  "echo_step oc sg m trigger effects =
     (case message trigger of
        None \<Rightarrow> Done (m, effects)
      | Some msg \<Rightarrow>
          let ctx = (echo_ctx m)\<lparr>echo_emitted := None\<rparr> in
          exec_bind
            (handle_with_context sg (echo_handlers oc) (echo_sm m) (Echo_Event (echo_text msg)) ctx)
            (\<lambda>(s, ctx).
               let emitted = echo_emitted ctx; ctx = ctx\<lparr>echo_emitted := None\<rparr> in
               Done (\<lparr>echo_sm = s, echo_ctx = ctx\<rparr>,
                     case emitted of None \<Rightarrow> effects | Some out \<Rightarrow> emit (Echo_Msg out) effects)))"

fun echo_state_name :: "echo_state \<Rightarrow> string" where
  "echo_state_name State_Running = ''Running''"

section \<open>The machine keeps the \<open>FsmSpec\<close> contracts\<close>

text \<open>At most one emission per step, on any buffer and for any statig: what \<open>FsmTask\<close> asks for.\<close>

interpretation echo_fsm: single_emit_spec "echo_step oc sg" for oc sg
proof unfold_locales
  show "echo_step oc sg m t e = exec_bind (echo_step oc sg m t effects_default)
      (\<lambda>(m', e'). Done (m', fold emit (outbox e') e))" for m t e
    by (cases t) (auto simp: echo_step_def Let_def exec_bind_assoc
        intro!: exec_bind_cong split: option.splits)
  show "length outs \<le> 1" if "run_step_all (echo_step oc sg) m t = Done (outs, m')" for m t outs m'
    using that by (cases t) (auto simp: run_step_all_def echo_step_def split: option.splits)
qed

interpretation echo_ticks: tick_silent_spec "echo_step oc sg" for oc sg
  by unfold_locales (simp add: echo_step_def)

section \<open>The service as specified\<close>

definition reply :: "nat \<Rightarrow> string \<Rightarrow> string" where
  "reply n msg = ''echo '' @ show_nat n @ '': '' @ msg"

fun echo_replies :: "nat \<Rightarrow> echo_msg trigger list \<Rightarrow> echo_msg list list" where
  "echo_replies n [] = []"
| "echo_replies n (Tick ns # ts) = [] # echo_replies n ts"
| "echo_replies n (Message (Echo_Msg msg) # ts) =
     [Echo_Msg (reply (Suc n) msg)] # echo_replies (Suc n) ts"

definition message_count :: "'i trigger list \<Rightarrow> nat" where
  "message_count ts = length (filter (\<lambda>t. \<not> is_tick t) ts)"

lemma message_count_simps [simp]:
  "message_count [] = 0"
  "message_count (Tick ns # ts) = message_count ts"
  "message_count (Message i # ts) = Suc (message_count ts)"
  by (simp_all add: message_count_def)

abbreviation machine_count :: "echo_machine \<Rightarrow> nat" where
  "machine_count m \<equiv> unat (echo_count (echo_ctx_store (echo_ctx m)))"

lemma unat_inc: "unat (n :: u64) + 1 < 2 ^ 64 \<Longrightarrow> unat (n + 1) = Suc (unat n)"
  using unat_add_lem [of n 1] by simp

text \<open>One message, for any statig that satisfies its laws; \<open>n\<close> is the incremented counter.\<close>

lemma echo_step_add:
  assumes "statig sg"
    and "add_word oc (echo_count (echo_ctx_store (echo_ctx m))) 1 = Done n"
  shows "run_step_all (echo_step oc sg) m (Message (Echo_Msg msg)) =
     Done ([Echo_Msg (''echo '' @ show_word n @ '': '' @ msg)],
           \<lparr>echo_sm = echo_sm m,
            echo_ctx = \<lparr>echo_ctx_store = \<lparr>echo_count = n\<rparr>, echo_emitted = None\<rparr>\<rparr>)"
proof (cases m)
  case (fields sm ctx)
  show ?thesis
  proof (cases ctx)
    case ctx: (fields st em)
    show ?thesis
      using assms(2)
      by (cases sm; cases st)
        (simp add: fields ctx run_step_all_def echo_step_def statig.dispatch [OF assms(1)]
          echo_running_def echo_def Let_def effects_take_def emit_def effects_default_def)
  qed
qed

lemma echo_step_message:
  assumes "statig sg" and "machine_count m + 1 < 2 ^ 64"
  obtains m' where
    "run_step_all (echo_step oc sg) m (Message (Echo_Msg msg))
       = Done ([Echo_Msg (reply (Suc (machine_count m)) msg)], m')"
    "machine_count m' = Suc (machine_count m)"
proof -
  let ?n = "echo_count (echo_ctx_store (echo_ctx m)) + 1"
  have add: "add_word oc (echo_count (echo_ctx_store (echo_ctx m))) 1 = Done ?n"
    using assms(2) by (simp add: add_word_def)
  have n: "unat ?n = Suc (machine_count m)" by (rule unat_inc [OF assms(2)])
  from echo_step_add [OF assms(1) add, of msg] show thesis
    by (rule that [unfolded reply_def, folded n show_word_def]) (simp add: n)
qed

lemma echo_run:
  assumes "statig sg"
  shows "machine_count m + message_count ts < 2 ^ 64 \<Longrightarrow>
    \<exists>m'. run_all (echo_step oc sg) ts m = Done (echo_replies (machine_count m) ts, m')
       \<and> machine_count m' = machine_count m + message_count ts"
proof (induction ts arbitrary: m)
  case (Cons t ts)
  show ?case
  proof (cases t)
    case (Tick ns)
    with Cons.IH [of m] Cons.prems show ?thesis
      by (auto simp: echo_ticks.run_step_all_tick)
  next
    case (Message i)
    obtain msg where i: "i = Echo_Msg msg" by (cases i)
    have room: "machine_count m + 1 < 2 ^ 64" using Cons.prems Message by simp
    obtain m1 where "run_step_all (echo_step oc sg) m t
          = Done ([Echo_Msg (reply (Suc (machine_count m)) msg)], m1)"
        "machine_count m1 = Suc (machine_count m)"
      using echo_step_message [OF assms room] Message i by metis
    with Cons.IH [of m1] Cons.prems Message i show ?thesis by auto
  qed
qed simp

lemma echo_default_count:
  "statig sg \<Longrightarrow> machine_count (echo_machine_default sg) = 0"
  by (simp add: echo_machine_default_def statig.init echo_ctx_default_def echo_store_default_def)

lemma echo_fresh_run:
  assumes "statig sg" and "message_count ts < 2 ^ 64"
  obtains m' where
    "run_all (echo_step oc sg) ts (echo_machine_default sg) = Done (echo_replies 0 ts, m')"
    "machine_count m' = message_count ts"
  using echo_run [OF assms(1), of "echo_machine_default sg" ts] assms(2)
  by (auto simp: echo_default_count [OF assms(1)])

section \<open>Properties\<close>

definition demo_triggers :: "echo_msg trigger list" where
  "demo_triggers = [Message (Echo_Msg ''hello''), Tick 5, Message (Echo_Msg ''world'')]"

text \<open>
  C28. The echo service on any input: as long as fewer than \<open>2 ^ 64\<close> messages come, a fresh machine
  never panics, answers the k-th message with exactly one reply \<open>echo k: <message>\<close> in the step that
  receives it, answers no tick, and its counter ends at the number of messages.
\<close>

theorem echo_replies_exact:
  assumes "statig sg" and "message_count ts < 2 ^ 64"
  shows "\<exists>m'. run_all (echo_step oc sg) ts (echo_machine_default sg) = Done (echo_replies 0 ts, m')
           \<and> unat (echo_count (echo_ctx_store (echo_ctx m'))) = message_count ts"
  using echo_fresh_run [OF assms, of oc] by blast

theorem echo_replies_exact_witness:
  "\<exists>m'. run_all (echo_step True leaf_statig) demo_triggers (echo_machine_default leaf_statig)
          = Done ([[Echo_Msg ''echo 1: hello''], [], [Echo_Msg ''echo 2: world'']], m')
     \<and> unat (echo_count (echo_ctx_store (echo_ctx m'))) = 2"
proof -
  have "message_count demo_triggers < 2 ^ 64" by (simp add: demo_triggers_def)
  moreover have "message_count demo_triggers = 2"
    "echo_replies 0 demo_triggers = [[Echo_Msg ''echo 1: hello''], [], [Echo_Msg ''echo 2: world'']]"
    by code_simp+
  ultimately show ?thesis
    using echo_replies_exact [OF leaf.statig_axioms, of demo_triggers True] by simp
qed

text \<open>
  The one failure of the echo machine: with the counter at \<open>u64::MAX\<close> a message panics a build
  with overflow checks, before anything is emitted, and in a build without them the reply is
  numbered 0 and the counter starts again.
\<close>

lemma echo_counter_overflow:
  assumes "statig sg" and "echo_count (echo_ctx_store (echo_ctx m)) = - 1"
  shows "run_step (echo_step True sg) m (Message (Echo_Msg msg))
           = Panic ''attempt to add with overflow''
       \<and> (\<exists>m'. run_step (echo_step False sg) m (Message (Echo_Msg msg))
             = Done (Some (Echo_Msg (reply 0 msg)), m')
           \<and> echo_count (echo_ctx_store (echo_ctx m')) = 0)"
proof
  show "run_step (echo_step True sg) m (Message (Echo_Msg msg))
      = Panic ''attempt to add with overflow''"
    by (cases "echo_sm m") (simp add: run_step_def echo_step_def Let_def add_word_max
        statig.dispatch [OF assms(1)] echo_running_def echo_def assms(2))
  have "add_word False (echo_count (echo_ctx_store (echo_ctx m))) 1 = Done 0"
    by (simp add: add_word_max assms(2))
  note add = run_step_of_all(2) [OF echo_step_add [OF assms(1) this]]
  show "\<exists>m'. run_step (echo_step False sg) m (Message (Echo_Msg msg))
        = Done (Some (Echo_Msg (reply 0 msg)), m')
      \<and> echo_count (echo_ctx_store (echo_ctx m')) = 0"
    by (simp add: add reply_def show_word_def)
qed

lemma echo_counter_overflow_witness:
  "run_step (echo_step True leaf_statig)
      \<lparr>echo_sm = State_Running,
       echo_ctx = \<lparr>echo_ctx_store = \<lparr>echo_count = - 1\<rparr>, echo_emitted = None\<rparr>\<rparr>
      (Message (Echo_Msg ''hi'')) = Panic ''attempt to add with overflow''"
  using echo_counter_overflow [OF leaf.statig_axioms, of
      "\<lparr>echo_sm = State_Running,
        echo_ctx = \<lparr>echo_ctx_store = \<lparr>echo_count = - 1\<rparr>, echo_emitted = None\<rparr>\<rparr>"]
  by simp

lemma echo_replies_numbered:
  "Echo_Msg r \<in> set (concat (echo_replies n ts)) \<Longrightarrow> \<exists>k msg. n < k \<and> r = reply k msg"
  by (induction n ts rule: echo_replies.induct) (fastforce dest: Suc_lessD)+

lemma reply_inject: "reply m a = reply n b \<longleftrightarrow> m = n \<and> a = b"
  by (auto simp: reply_def dest: append_sep_inject [rotated 2])

text \<open>The replies determine the messages and their number.\<close>

lemma distinct_echo_replies: "distinct (concat (echo_replies n ts))"
proof (induction n ts rule: echo_replies.induct)
  case (3 n msg ts)
  have "Echo_Msg (reply (Suc n) msg) \<notin> set (concat (echo_replies (Suc n) ts))"
    using echo_replies_numbered [of "reply (Suc n) msg" "Suc n" ts] by (auto simp: reply_inject)
  with 3 show ?case by simp
qed simp_all

text \<open>
  Replies are never confused: over any input the reply texts of a run are pairwise different,
  even for equal messages, because each carries its own number.
\<close>

lemma echo_replies_never_repeat:
  assumes "statig sg" and "message_count ts < 2 ^ 64"
    and "run_all (echo_step oc sg) ts (echo_machine_default sg) = Done (outs, m')"
  shows "distinct (concat outs) \<and> length (concat outs) = message_count ts"
proof -
  have "length (concat (echo_replies n ts)) = message_count ts" for n
    by (induction n ts rule: echo_replies.induct) simp_all
  moreover have "outs = echo_replies 0 ts"
    using echo_fresh_run [OF assms(1,2), of oc] assms(3) by auto
  ultimately show ?thesis by (simp add: distinct_echo_replies)
qed

lemma echo_replies_never_repeat_witness:
  "\<exists>outs m'. run_all (echo_step True leaf_statig)
        [Message (Echo_Msg ''a''), Message (Echo_Msg ''a'')] (echo_machine_default leaf_statig)
      = Done (outs, m') \<and> distinct (concat outs) \<and> length (concat outs) = 2"
proof -
  let ?ts = "[Message (Echo_Msg ''a''), Message (Echo_Msg ''a'')]"
  have n: "message_count ?ts < 2 ^ 64" "message_count ?ts = 2" by simp_all
  obtain m' where r: "run_all (echo_step True leaf_statig) ?ts (echo_machine_default leaf_statig)
      = Done (echo_replies 0 ?ts, m')"
    using echo_fresh_run [OF leaf.statig_axioms n(1), of True] by blast
  from echo_replies_never_repeat [OF leaf.statig_axioms n(1) r] r n(2) show ?thesis by metis
qed

end
