(* ===== verification/Echo_Service.thy ===== *)
theory Echo_Service
  imports Echo Dag Replay
begin

text \<open>
  \<open>examples/echo/src/main.rs\<close>: the echo service end to end. The iterations of the live loop, the
  reader of its log and the replay. The properties say that the replay reproduces the logged
  echoes, that the echoes sent answer the messages taken from the transport one by one, and what
  the fixed number of iterations of the live loop does and does not guarantee.
\<close>

section \<open>The live loop\<close>

record 'h echo_app =
  ec_ingress :: "'h ingress_task"
  ec_fsm :: "echo_machine fsm_task"
  ec_egress :: "'h egress_task"

type_synonym ('w, 'h, 'e, 'f, 't, 'r, 'mi, 'mo) echo_env =
  "('w, 'h, echo_msg, 'e, echo_msg, 'f, 't, 'r, 'mi, echo_msg, 'mo, echo_msg) dag_env"

text \<open>
  The graph of \<open>copperconfig.ron\<close> for one iteration: the three \<open>process\<close> calls in order on the slots of
  a copperlist, for the task types that \<open>main.rs\<close> names.
\<close>

definition echo_iteration ::
    "bool \<Rightarrow> ('w, 'h, 'e, 'f, 't, 'r, 'mi, 'mo) echo_env \<Rightarrow> echo_statig \<Rightarrow> 'h echo_app \<Rightarrow>
     ('mi, 'mo) copperlist \<Rightarrow> 'w \<Rightarrow>
     ((cu_error + unit) list \<times> ('mi, 'mo) copperlist \<times> 'h echo_app \<times> 'w) exec" where
  "echo_iteration oc env sg app cl w =
     (let (r0, m0, w) = ingress_process (env_clk env) (env_rx env) (env_in env) (ec_ingress app)
                          (ingress_slot cl) w
      in exec_bind (fsm_task_process (env_clk env) (env_in env) (env_out env) (echo_step oc sg)
                      (ec_fsm app) m0 (fsm_slot cl) w)
           (\<lambda>(r1, fsm, m1, w).
              let (r2, w) = egress_process (env_tx env) (env_out env) (ec_egress app) m1 w
              in Done ([r0, r1, r2], cl\<lparr>ingress_slot := m0, fsm_slot := m1\<rparr>,
                       app\<lparr>ec_fsm := fsm\<rparr>, w)))"

text \<open>
  The loop of \<open>run_live\<close>, over the copperlists the runtime hands out; \<open>run_one\<close> is the runtime's
  \<open>run_one_iteration\<close>.
\<close>

fun echo_live ::
    "('h echo_app \<Rightarrow> ('mi, 'mo) copperlist \<Rightarrow> 'w \<Rightarrow>
       ((cu_error + unit) list \<times> ('mi, 'mo) copperlist \<times> 'h echo_app \<times> 'w) exec) \<Rightarrow>
     'h echo_app \<Rightarrow> ('mi, 'mo) copperlist list \<Rightarrow> 'w \<Rightarrow>
     ((cu_error + unit) list list \<times> ('mi, 'mo) copperlist list \<times> 'h echo_app \<times> 'w) exec" where
  "echo_live run_one app [] w = Done ([], [], app, w)"
| "echo_live run_one app (cl # cls) w =
     exec_bind (run_one app cl w) (\<lambda>(rs, cl, app, w).
       exec_bind (echo_live run_one app cls w) (\<lambda>(rss, log, app, w).
         Done (rs # rss, cl # log, app, w)))"

text \<open>How many iterations \<open>run_live\<close> makes for a given list of inputs.\<close>

definition echo_iterations :: "string list \<Rightarrow> nat" where
  "echo_iterations inputs = length inputs + 3"

section \<open>Reading the log and replaying it\<close>

datatype recorded_input = Recorded_Message string | Recorded_Tick u64

record echo_recorded =
  ingress_inputs :: "recorded_input list"
  echo_outputs :: "string list"

text \<open>The match on the ingress slot; of the panic text, the part written in the source.\<close>

definition echo_record_input ::
    "('w, 't, 'r) clock_api \<Rightarrow> ('mi, echo_msg, 't, 'r) msg_api \<Rightarrow> 'mi \<Rightarrow> recorded_input exec" where
  "echo_record_input clk im ingress =
     (case (payload im ingress, msg_tov im ingress) of
        (Some input, _) \<Rightarrow> Done (Recorded_Message (echo_text input))
      | (None, Tov_Time t) \<Rightarrow> Done (Recorded_Tick (as_nanos clk t))
      | (None, _) \<Rightarrow> Panic ''ingress cycle recorded without a time'')"

definition echo_record ::
    "('w, 't, 'r) clock_api \<Rightarrow> ('mi, echo_msg, 't, 'r) msg_api \<Rightarrow> ('mo, echo_msg, 't, 'r) msg_api \<Rightarrow>
     ('mi, 'mo) copperlist \<Rightarrow> echo_recorded \<Rightarrow> echo_recorded exec" where
  "echo_record clk im om cl recorded =
     exec_bind (echo_record_input clk im (ingress_slot cl)) (\<lambda>input.
       let recorded = recorded\<lparr>ingress_inputs := ingress_inputs recorded @ [input]\<rparr> in
       Done (case payload om (fsm_slot cl) of
               Some out \<Rightarrow> recorded\<lparr>echo_outputs := echo_outputs recorded @ [echo_text out]\<rparr>
             | None \<Rightarrow> recorded))"

text \<open>\<open>while let Ok(cl) = decode(..)\<close>: any decoding error ends the loop.\<close>

partial_function (option) echo_read_loop ::
    "('rd \<Rightarrow> (decode_error + ('mi, 'mo) copperlist) \<times> 'rd) \<Rightarrow>
     (('mi, 'mo) copperlist \<Rightarrow> echo_recorded \<Rightarrow> echo_recorded exec) \<Rightarrow> 'rd \<Rightarrow> echo_recorded \<Rightarrow>
     echo_recorded exec option" where
  "echo_read_loop decode record_cl reader recorded =
     (case decode reader of
        (Inl e, reader) \<Rightarrow> Some (Done recorded)
      | (Inr cl, reader) \<Rightarrow>
          (case record_cl cl recorded of
             Panic p \<Rightarrow> Some (Panic p)
           | Done recorded \<Rightarrow> echo_read_loop decode record_cl reader recorded))"

definition echo_read_recorded ::
    "('w, 't, 'r) clock_api \<Rightarrow> ('mi, echo_msg, 't, 'r) msg_api \<Rightarrow> ('mo, echo_msg, 't, 'r) msg_api \<Rightarrow>
     string list \<Rightarrow> (string \<Rightarrow> string + 'rd unified_logger) \<Rightarrow>
     ('rd \<Rightarrow> (decode_error + ('mi, 'mo) copperlist) \<times> 'rd) \<Rightarrow> string \<Rightarrow> echo_recorded exec option"
  where
  "echo_read_recorded clk im om ids open_log decode log_base =
     (if ids \<noteq> [''ingress'', ''echo'', ''egress''] then
        Some (Panic ''unexpected copperlist slot order'')
      else (case open_log log_base of
              Inl e \<Rightarrow> Some (Panic ''open unified log for reading'')
            | Inr Logger_Write \<Rightarrow> Some (Panic ''expected a read-only unified logger'')
            | Inr (Logger_Read reader) \<Rightarrow>
                echo_read_loop decode (echo_record clk im om) reader
                  \<lparr>ingress_inputs = [], echo_outputs = []\<rparr>))"

definition recorded_trigger :: "recorded_input \<Rightarrow> echo_msg trigger" where
  "recorded_trigger input =
     (case input of Recorded_Message msg \<Rightarrow> Message (echo_msg_new msg) | Recorded_Tick ns \<Rightarrow> Tick ns)"

fun echo_replay_from ::
    "bool \<Rightarrow> echo_statig \<Rightarrow> recorded_input list \<Rightarrow> echo_machine \<Rightarrow> string list exec" where
  "echo_replay_from oc sg [] m = Done []"
| "echo_replay_from oc sg (input # inputs) m =
     exec_bind (run_step (echo_step oc sg) m (recorded_trigger input)) (\<lambda>(out, m).
       exec_bind (echo_replay_from oc sg inputs m) (\<lambda>outs.
         Done (case out of None \<Rightarrow> outs | Some out \<Rightarrow> echo_text out # outs)))"

definition echo_replay :: "bool \<Rightarrow> echo_statig \<Rightarrow> recorded_input list \<Rightarrow> string list exec" where
  "echo_replay oc sg inputs = echo_replay_from oc sg inputs (echo_machine_default sg)"

section \<open>One step\<close>

lemma echo_step_any:
  assumes "statig sg" and "machine_count m + 1 < 2 ^ 64"
  obtains outs m' where "run_step_all (echo_step oc sg) m t = Done (outs, m')"
    "outs = hd (echo_replies (machine_count m) [t])" "length outs \<le> 1"
    "machine_count m' = machine_count m + message_count [t]"
proof (cases t)
  case (Tick ns)
  then show thesis by (intro that [of "[]" m]) (simp_all add: echo_ticks.run_step_all_tick)
next
  case (Message i)
  obtain msg where i: "i = Echo_Msg msg" by (cases i)
  obtain m' where "run_step_all (echo_step oc sg) m (Message (Echo_Msg msg))
       = Done ([Echo_Msg (reply (Suc (machine_count m)) msg)], m')"
    "machine_count m' = Suc (machine_count m)"
    by (rule echo_step_message [OF assms])
  then show thesis
    by (intro that [of "[Echo_Msg (reply (Suc (machine_count m)) msg)]" m']) (simp_all add: Message i)
qed

text \<open>
  The texts received, and their numbered replies.
\<close>

fun input_texts :: "recorded_input list \<Rightarrow> string list" where
  "input_texts [] = []"
| "input_texts (Recorded_Message s # is) = s # input_texts is"
| "input_texts (Recorded_Tick ns # is) = input_texts is"

fun numbered :: "nat \<Rightarrow> string list \<Rightarrow> string list" where
  "numbered n [] = []"
| "numbered n (s # ss) = reply (Suc n) s # numbered (Suc n) ss"

lemma length_numbered [simp]: "length (numbered n ss) = length ss"
  by (induction ss arbitrary: n) simp_all

lemma numbered_append: "numbered n (ss @ ts) = numbered n ss @ numbered (n + length ss) ts"
  by (induction ss arbitrary: n) simp_all

lemma length_input_texts: "length (input_texts is) \<le> length is"
  by (induction "is" rule: input_texts.induct) simp_all

lemma echo_replay_numbered:
  assumes "statig sg"
  shows "machine_count m + length is < 2 ^ 64 \<Longrightarrow>
    echo_replay_from oc sg is m = Done (numbered (machine_count m) (input_texts is))"
proof (induction "is" arbitrary: m)
  case (Cons i "is")
  have room: "machine_count m + 1 < 2 ^ 64" using Cons.prems by simp
  show ?case
  proof (cases i)
    case (Recorded_Tick ns)
    with Cons show ?thesis by (simp add: recorded_trigger_def echo_ticks.run_step_tick)
  next
    case (Recorded_Message msg)
    obtain m' where "run_step_all (echo_step oc sg) m (Message (Echo_Msg msg))
       = Done ([Echo_Msg (reply (Suc (machine_count m)) msg)], m')"
      "machine_count m' = Suc (machine_count m)"
      by (rule echo_step_message [OF assms room])
    with Cons.IH [of m'] Cons.prems Recorded_Message show ?thesis
      by (simp add: recorded_trigger_def echo_msg_new_def run_step_of_all(2))
  qed
qed simp

section \<open>One iteration\<close>

definition slot_texts :: "('mo, echo_msg, 't, 'r) msg_api \<Rightarrow> 'mo \<Rightarrow> string list" where
  "slot_texts om m = (case payload om m of None \<Rightarrow> [] | Some out \<Rightarrow> [echo_text out])"

lemma ingress_slot_shape:
  assumes "cu_msg im"
    and "ingress_process clk rxa im task m w = (res, m', w')"
  obtains t v where "res = Inr ()" "msg_tov im m' = Tov_Time t" "payload im m' = v"
  using assms(2) that
  by (auto simp: ingress_process_def Let_def cu_msg.tov_set_tov [OF assms(1)] split: prod.splits)

text \<open>The trigger built live is the trigger of the recorded input.\<close>

lemma recorded_input_trigger:
  assumes "msg_tov im m = Tov_Time t"
  obtains i where "echo_record_input clk im m = Done i"
    "trigger_for clk im m w = (recorded_trigger i, w)"
    "slot_messages im m = map Echo_Msg (input_texts [i])"
proof (cases "payload im m")
  case None
  then show thesis
    by (intro that [of "Recorded_Tick (as_nanos clk t)"])
      (simp_all add: echo_record_input_def trigger_for_def assms recorded_trigger_def slot_messages_def)
next
  case (Some v)
  then show thesis
    by (intro that [of "Recorded_Message (echo_text v)"])
      (simp_all add: echo_record_input_def trigger_for_def recorded_trigger_def slot_messages_def
        echo_msg_new_def)
qed

lemma echo_step_numbered:
  assumes "statig sg" and "machine_count m + 1 < 2 ^ 64"
  obtains m' where "run_step_all (echo_step oc sg) m (recorded_trigger i)
      = Done (map Echo_Msg (numbered (machine_count m) (input_texts [i])), m')"
    "machine_count m' = machine_count m + length (input_texts [i])"
proof (cases i)
  case (Recorded_Tick ns)
  then show thesis
    by (intro that [of m]) (simp_all add: recorded_trigger_def echo_ticks.run_step_all_tick)
next
  case (Recorded_Message msg)
  obtain m' where "run_step_all (echo_step oc sg) m (Message (Echo_Msg msg))
       = Done ([Echo_Msg (reply (Suc (machine_count m)) msg)], m')"
    "machine_count m' = Suc (machine_count m)"
    by (rule echo_step_message [OF assms])
  then show thesis
    by (intro that [of m']) (simp_all add: Recorded_Message recorded_trigger_def echo_msg_new_def)
qed

lemma echo_iteration_parts:
  assumes "slot_env env" and "statig sg" and "machine_count (machine (ec_fsm app)) + 1 < 2 ^ 64"
  obtains m0 w0 i m1 w1 r2 w2 m' where
    "ingress_process (env_clk env) (env_rx env) (env_in env) (ec_ingress app) (ingress_slot cl) w
       = (Inr (), m0, w0)"
    "echo_record_input (env_clk env) (env_in env) m0 = Done i"
    "slot_messages (env_in env) m0 = map Echo_Msg (input_texts [i])"
    "forward_single (env_clk env) (env_out env) (fsm_slot cl) w0
       (map Echo_Msg (numbered (machine_count (machine (ec_fsm app))) (input_texts [i])))
       = (Inr (), m1, w1)"
    "slot_texts (env_out env) m1 = numbered (machine_count (machine (ec_fsm app))) (input_texts [i])"
    "egress_process (env_tx env) (env_out env) (ec_egress app) m1 w1 = (r2, w2)"
    "echo_iteration oc env sg app cl w = Done ([Inr (), Inr (), r2],
       cl\<lparr>ingress_slot := m0, fsm_slot := m1\<rparr>,
       app\<lparr>ec_fsm := (ec_fsm app)\<lparr>machine := m'\<rparr>\<rparr>, w2)"
    "machine_count m' = machine_count (machine (ec_fsm app)) + length (input_texts [i])"
proof -
  have im: "cu_msg (env_in env)" and om: "cu_msg (env_out env)"
    using assms(1) by (simp_all add: slot_env_def)
  obtain res m0 w0 where p0: "ingress_process (env_clk env) (env_rx env) (env_in env)
      (ec_ingress app) (ingress_slot cl) w = (res, m0, w0)" by (metis prod.exhaust)
  obtain t v where t: "res = Inr ()" "msg_tov (env_in env) m0 = Tov_Time t"
    by (rule ingress_slot_shape [OF im p0])
  obtain i where i: "echo_record_input (env_clk env) (env_in env) m0 = Done i"
    "trigger_for (env_clk env) (env_in env) m0 w0 = (recorded_trigger i, w0)"
    "slot_messages (env_in env) m0 = map Echo_Msg (input_texts [i])"
    by (rule recorded_input_trigger [OF t(2)])
  let ?texts = "numbered (machine_count (machine (ec_fsm app))) (input_texts [i])"
  obtain m' where step: "run_step_all (echo_step oc sg) (machine (ec_fsm app)) (recorded_trigger i)
      = Done (map Echo_Msg ?texts, m')"
    "machine_count m' = machine_count (machine (ec_fsm app)) + length (input_texts [i])"
    by (rule echo_step_numbered [OF assms(2,3)])
  have one: "length ?texts \<le> 1" by (cases i) simp_all
  obtain r1 m1 w1 where f: "forward_single (env_clk env) (env_out env) (fsm_slot cl) w0
      (map Echo_Msg ?texts) = (r1, m1, w1)" by (metis prod.exhaust)
  have r1: "r1 = Inr ()"
    using fst_forward_single [of "env_clk env" "env_out env" "fsm_slot cl" w0 "map Echo_Msg ?texts"]
      f one by simp
  have p1: "fsm_task_process (env_clk env) (env_in env) (env_out env) (echo_step oc sg)
      (ec_fsm app) m0 (fsm_slot cl) w0 = Done (Inr (), (ec_fsm app)\<lparr>machine := m'\<rparr>, m1, w1)"
    using f r1 by (simp add: fsm_task_process_alt i(2) step(1))
  have o: "slot_texts (env_out env) m1 = ?texts"
    using payload_forward_single [OF om, of "env_clk env" "fsm_slot cl" w0 "map Echo_Msg ?texts"]
      f one by (cases ?texts) (simp_all add: slot_texts_def)
  obtain r2 w2 where p2: "egress_process (env_tx env) (env_out env) (ec_egress app) m1 w1 = (r2, w2)"
    by (metis prod.exhaust)
  have "echo_iteration oc env sg app cl w = Done ([Inr (), Inr (), r2],
       cl\<lparr>ingress_slot := m0, fsm_slot := m1\<rparr>,
       app\<lparr>ec_fsm := (ec_fsm app)\<lparr>machine := m'\<rparr>\<rparr>, w2)"
    by (simp add: echo_iteration_def p0 p1 p2 t(1))
  from that [OF p0 [unfolded t(1)] i(1,3) f [unfolded r1] o p2 this step(2)] show thesis .
qed

section \<open>The live loop\<close>

lemma echo_live_spec:
  assumes "slot_env env" and "statig sg"
  shows "machine_count (machine (ec_fsm app)) + length cls < 2 ^ 64 \<Longrightarrow>
    \<exists>rss log app' w' is. echo_live (echo_iteration oc env sg) app cls w = Done (rss, log, app', w')
      \<and> exec_map (\<lambda>cl. echo_record_input (env_clk env) (env_in env) (ingress_slot cl)) log = Done is
      \<and> concat (map (\<lambda>cl. slot_texts (env_out env) (fsm_slot cl)) log)
          = numbered (machine_count (machine (ec_fsm app))) (input_texts is)
      \<and> length is = length cls"
proof (induction cls arbitrary: app w)
  case (Cons cl cls)
  let ?k = "machine_count (machine (ec_fsm app))"
  have room: "?k + 1 < 2 ^ 64" using Cons.prems by simp
  obtain m0 w0 i m1 w1 r2 w2 m' where it:
    "echo_record_input (env_clk env) (env_in env) m0 = Done i"
    "slot_texts (env_out env) m1 = numbered ?k (input_texts [i])"
    "echo_iteration oc env sg app cl w = Done ([Inr (), Inr (), r2],
       cl\<lparr>ingress_slot := m0, fsm_slot := m1\<rparr>,
       app\<lparr>ec_fsm := (ec_fsm app)\<lparr>machine := m'\<rparr>\<rparr>, w2)"
    "machine_count m' = ?k + length (input_texts [i])"
    by (rule echo_iteration_parts [OF assms room])
  let ?app = "app\<lparr>ec_fsm := (ec_fsm app)\<lparr>machine := m'\<rparr>\<rparr>"
  have "machine_count (machine (ec_fsm ?app)) + length cls < 2 ^ 64"
    using Cons.prems it(4) length_input_texts [of "[i]"] by simp
  from Cons.IH [OF this, of w2] obtain rss log app' w' "is" where
    "echo_live (echo_iteration oc env sg) ?app cls w2 = Done (rss, log, app', w')"
    "exec_map (\<lambda>cl. echo_record_input (env_clk env) (env_in env) (ingress_slot cl)) log = Done is"
    "concat (map (\<lambda>cl. slot_texts (env_out env) (fsm_slot cl)) log)
       = numbered (?k + length (input_texts [i])) (input_texts is)"
    "length is = length cls"
    using it(4) by auto
  moreover have "input_texts (i # is) = input_texts [i] @ input_texts is"
    by (cases i) simp_all
  ultimately show ?case using it by (simp add: numbered_append)
qed simp

lemma echo_live_channels:
  assumes "service_env env hin hout arrived taken sent" and "statig sg"
  shows "machine_count (machine (ec_fsm app)) + length cls < 2 ^ 64 \<Longrightarrow>
    ec_ingress app = \<lparr>ingress_rx = hin\<rparr> \<Longrightarrow> ec_egress app = \<lparr>egress_tx = hout\<rparr> \<Longrightarrow>
    echo_live (echo_iteration oc env sg) app cls w = Done (rss, log, app', w') \<Longrightarrow>
    \<exists>texts. length texts \<le> length cls \<and> taken w' = taken w @ map Echo_Msg texts
      \<and> ((\<forall>rs \<in> set rss. \<forall>x \<in> set rs. x = Inr ()) \<longrightarrow>
          sent w' = sent w @ map Echo_Msg (numbered (machine_count (machine (ec_fsm app))) texts))
      \<and> prefix (arrived w) (arrived w')
      \<and> (\<forall>A. prefix A (arrived w) \<and> length A \<le> length (taken w) + length cls \<longrightarrow>
              prefix A (taken w'))
      \<and> concat (map (\<lambda>cl. slot_texts (env_out env) (fsm_slot cl)) log)
          = numbered (machine_count (machine (ec_fsm app))) texts"
proof (induction cls arbitrary: app w rss log)
  case Nil
  have rx: "rx_world (env_rx env) (env_clk env) hin arrived taken"
    using assms(1) by (simp add: service_env_def dag_world_def)
  from Nil rx_world.taken_arrived [OF rx, of w] show ?case
    by (auto intro: prefix_length_prefix)
next
  case (Cons cl cls)
  have slots: "slot_env env" and im: "cu_msg (env_in env)" and om: "cu_msg (env_out env)"
    and ch: "dag_world (env_rx env) (env_clk env) hin arrived taken (env_tx env) hout sent"
    using assms(1) by (simp_all add: service_env_def slot_env_def)
  then have rx: "rx_world (env_rx env) (env_clk env) hin arrived taken"
    by (simp add: dag_world_def)
  have ing: "ingress_world (env_rx env) (env_clk env) hin arrived taken (env_in env)"
    using rx im by (simp add: ingress_world_def)
  let ?k = "machine_count (machine (ec_fsm app))"
  have room: "?k + 1 < 2 ^ 64" using Cons.prems(1) by simp
  obtain m0 w0 i m1 w1 r2 w2 m' where it:
    "ingress_process (env_clk env) (env_rx env) (env_in env) (ec_ingress app) (ingress_slot cl) w
       = (Inr (), m0, w0)"
    "slot_messages (env_in env) m0 = map Echo_Msg (input_texts [i])"
    "forward_single (env_clk env) (env_out env) (fsm_slot cl) w0
       (map Echo_Msg (numbered ?k (input_texts [i]))) = (Inr (), m1, w1)"
    "slot_texts (env_out env) m1 = numbered ?k (input_texts [i])"
    "egress_process (env_tx env) (env_out env) (ec_egress app) m1 w1 = (r2, w2)"
    "echo_iteration oc env sg app cl w = Done ([Inr (), Inr (), r2],
       cl\<lparr>ingress_slot := m0, fsm_slot := m1\<rparr>,
       app\<lparr>ec_fsm := (ec_fsm app)\<lparr>machine := m'\<rparr>\<rparr>, w2)"
    "machine_count m' = ?k + length (input_texts [i])"
    by (rule echo_iteration_parts [OF slots assms(2) room])
  let ?app = "app\<lparr>ec_fsm := (ec_fsm app)\<lparr>machine := m'\<rparr>\<rparr>"
  obtain rss1 log1 where rest: "echo_live (echo_iteration oc env sg) ?app cls w2 = Done (rss1, log1, app', w')"
    and rss: "rss = [Inr (), Inr (), r2] # rss1"
    and log: "log = cl\<lparr>ingress_slot := m0, fsm_slot := m1\<rparr> # log1"
    using Cons.prems(4) it(6) by auto
  have len: "length (input_texts [i]) \<le> 1" using length_input_texts [of "[i]"] by simp
  have room1: "machine_count (machine (ec_fsm ?app)) + length cls < 2 ^ 64"
    using Cons.prems(1) it(7) len by simp
  have handles: "ec_ingress ?app = \<lparr>ingress_rx = hin\<rparr>" "ec_egress ?app = \<lparr>egress_tx = hout\<rparr>"
    and count: "machine_count (machine (ec_fsm ?app)) = ?k + length (input_texts [i])"
    using Cons.prems(2,3) it(7) by simp_all
  note ih = Cons.IH [OF room1 handles rest]
  obtain texts where T: "length texts \<le> length cls" "taken w' = taken w2 @ map Echo_Msg texts"
      "(\<forall>rs \<in> set rss1. \<forall>x \<in> set rs. x = Inr ()) \<longrightarrow>
        sent w' = sent w2 @ map Echo_Msg (numbered (?k + length (input_texts [i])) texts)"
      "prefix (arrived w2) (arrived w')"
      "\<And>A. prefix A (arrived w2) \<Longrightarrow> length A \<le> length (taken w2) + length cls \<Longrightarrow> prefix A (taken w')"
      "concat (map (\<lambda>cl. slot_texts (env_out env) (fsm_slot cl)) log1)
        = numbered (?k + length (input_texts [i])) texts"
    using ih unfolding count by blast
  note ingress = ingress_world.ingress_process_spec [OF ing it(1) [unfolded Cons.prems(2)]]
  note fsm = dag_world.forward_single_rx [OF ch it(3)]
  note fsm_sent = dag_world.forward_single_sent [OF ch it(3)]
  note egress = dag_world.egress_process_spec [OF ch it(5) [unfolded Cons.prems(3)]]
  have t2: "taken w2 = taken w @ map Echo_Msg (input_texts [i])"
    using ingress(2) fsm egress(1) it(2) by simp
  have a2: "prefix (arrived w) (arrived w2)"
    using ingress(3) fsm egress(1) by (meson prefix_order.trans)
  have "slot_messages (env_out env) m1 = map Echo_Msg (slot_texts (env_out env) m1)"
    by (simp add: slot_messages_def slot_texts_def split: option.split)
  then have s2: "sent w2 = sent w @ map Echo_Msg (numbered ?k (input_texts [i]))" if "r2 = Inr ()"
    using egress(2) [OF that] fsm_sent it(1,4) Cons.prems(2) dag_world.ingress_sent [OF ch] by metis
  have progress: "prefix A (taken w')"
    if A: "prefix A (arrived w)" "length A \<le> length (taken w) + length (cl # cls)" for A
  proof (cases "length A \<le> length (taken w2)")
    case True
    have "prefix A (arrived w2)" using A(1) a2 by (rule prefix_order.trans)
    then have "prefix A (taken w2)"
      using rx_world.taken_arrived [OF rx, of w2] True by (blast intro: prefix_length_prefix)
    then show ?thesis using T(2) by simp
  next
    case False
    have "length A \<le> length (arrived w)" using A(1) by (rule prefix_length_le)
    with False t2 it(2) ingress(5) have "1 \<le> length (input_texts [i])" by simp
    with A(2) t2 have "length A \<le> length (taken w2) + length cls" by simp
    with prefix_order.trans [OF A(1) a2] show ?thesis by (rule T(5))
  qed
  show ?case
    by (rule exI [of _ "input_texts [i] @ texts"])
      (use T t2 s2 a2 len progress rss log it(4) in \<open>auto simp: numbered_append intro: prefix_order.trans\<close>)
qed

text \<open>
  With failed sends among them: a failure is for good, so what is sent is a first part of the echoes
  in the log.
\<close>

lemma echo_live_sends:
  assumes "service_env env hin hout arrived taken sent" and "statig sg"
    and closes: "world_closes (env_clk env) (env_rx env) hin (env_tx env) hout closed"
  shows "machine_count (machine (ec_fsm app)) + length cls < 2 ^ 64 \<Longrightarrow>
    ec_ingress app = \<lparr>ingress_rx = hin\<rparr> \<Longrightarrow> ec_egress app = \<lparr>egress_tx = hout\<rparr> \<Longrightarrow>
    echo_live (echo_iteration oc env sg) app cls w = Done (rss, log, app', w') \<Longrightarrow>
    prefix (sent w') (sent w @ map Echo_Msg (concat (map (\<lambda>cl. slot_texts (env_out env) (fsm_slot cl)) log)))
    \<and> (closed w \<longrightarrow> sent w' = sent w)"
proof (induction cls arbitrary: app w rss log)
  case (Cons cl cls)
  have slots: "slot_env env"
    and ch: "dag_world (env_rx env) (env_clk env) hin arrived taken (env_tx env) hout sent"
    using assms(1) by (simp_all add: service_env_def)
  note inv = world_closes.axioms(1) [OF closes]
  let ?k = "machine_count (machine (ec_fsm app))"
  have room: "?k + 1 < 2 ^ 64" using Cons.prems(1) by simp
  obtain m0 w0 i m1 w1 r2 w2 m' where it:
    "ingress_process (env_clk env) (env_rx env) (env_in env) (ec_ingress app) (ingress_slot cl) w
       = (Inr (), m0, w0)"
    "forward_single (env_clk env) (env_out env) (fsm_slot cl) w0
       (map Echo_Msg (numbered ?k (input_texts [i]))) = (Inr (), m1, w1)"
    "egress_process (env_tx env) (env_out env) (ec_egress app) m1 w1 = (r2, w2)"
    "echo_iteration oc env sg app cl w = Done ([Inr (), Inr (), r2],
       cl\<lparr>ingress_slot := m0, fsm_slot := m1\<rparr>,
       app\<lparr>ec_fsm := (ec_fsm app)\<lparr>machine := m'\<rparr>\<rparr>, w2)"
    "machine_count m' = ?k + length (input_texts [i])"
    by (rule echo_iteration_parts [OF slots assms(2) room])
  let ?app = "app\<lparr>ec_fsm := (ec_fsm app)\<lparr>machine := m'\<rparr>\<rparr>"
  obtain rss1 log1 where rest: "echo_live (echo_iteration oc env sg) ?app cls w2 = Done (rss1, log1, app', w')"
    and log: "log = cl\<lparr>ingress_slot := m0, fsm_slot := m1\<rparr> # log1"
    using Cons.prems(4) it(4) by auto
  let ?L = "\<lambda>log. map Echo_Msg (concat (map (\<lambda>cl. slot_texts (env_out env) (fsm_slot cl)) log))"
  have room1: "machine_count (machine (ec_fsm ?app)) + length cls < 2 ^ 64"
    using Cons.prems(1) it(5) length_input_texts [of "[i]"] by simp
  have ih: "prefix (sent w') (sent w2 @ ?L log1)" "closed w2 \<longrightarrow> sent w' = sent w2"
    using Cons.IH [OF room1 _ _ rest] Cons.prems(2,3) by simp_all
  note e = it(3) [unfolded Cons.prems(3)]
  note egress = dag_world.egress_process_spec [OF ch e]
  have s1: "sent w1 = sent w"
    using dag_world.forward_single_sent [OF ch it(2)]
      dag_world.ingress_sent [OF ch it(1) [unfolded Cons.prems(2)]] by simp
  have c1: "closed w1" if "closed w"
    by (rule world_invariant.forward_single_inv [OF inv
        world_invariant.ingress_process_inv [OF inv that it(1) [unfolded Cons.prems(2)]] it(2)])
  have out: "slot_messages (env_out env) m1 = map Echo_Msg (slot_texts (env_out env) m1)"
    by (simp add: slot_messages_def slot_texts_def split: option.split)
  have "prefix (sent w') (sent w @ ?L log)"
  proof (cases "r2 = Inr ()")
    case True
    then have "sent w2 = sent w @ map Echo_Msg (slot_texts (env_out env) m1)"
      using egress(2) s1 out by simp
    with ih(1) show ?thesis by (simp add: log)
  next
    case False
    then have "closed w2" by (rule world_closes.egress_process_closes [OF closes e])
    with ih(2) egress(3) [OF False] s1 show ?thesis by simp
  qed
  moreover have "sent w' = sent w" if "closed w"
  proof -
    have "sent w2 = sent w"
      using world_closes.egress_process_closed [OF closes c1 [OF that] e] egress(2,3) s1
      by (cases "r2 = Inr ()") (auto simp: slot_messages_def)
    moreover have "closed w2" by (rule world_invariant.egress_process_inv [OF inv c1 [OF that] e])
    ultimately show ?thesis using ih(2) by simp
  qed
  ultimately show ?case by blast
qed simp

section \<open>Reading the log\<close>

lemma echo_read_loop_stream:
  "log_stream decode r log e \<Longrightarrow>
     exec_map (\<lambda>cl. echo_record_input clk im (ingress_slot cl)) log = Done is \<Longrightarrow>
     echo_read_loop decode (echo_record clk im om) r recorded =
       Some (Done (recorded\<lparr>
         ingress_inputs := ingress_inputs recorded @ is,
         echo_outputs := echo_outputs recorded @ concat (map (\<lambda>cl. slot_texts om (fsm_slot cl)) log)\<rparr>))"
proof (induction arbitrary: "is" recorded rule: log_stream.induct)
  case (stream_end r e r')
  then show ?case by (subst echo_read_loop.simps) simp
next
  case (stream_record r cl r' cls e)
  from stream_record.prems obtain i is' where i: "echo_record_input clk im (ingress_slot cl) = Done i"
    and is': "exec_map (\<lambda>cl. echo_record_input clk im (ingress_slot cl)) cls = Done is'"
    and "is": "is = i # is'" by auto
  have "echo_record clk im om cl recorded = Done (recorded\<lparr>
         ingress_inputs := ingress_inputs recorded @ [i],
         echo_outputs := echo_outputs recorded @ slot_texts om (fsm_slot cl)\<rparr>)"
    by (simp add: echo_record_def i slot_texts_def Let_def split: option.split)
  with stream_record.hyps(1) stream_record.IH [OF is'] "is" show ?case
    by (subst echo_read_loop.simps) simp
qed

section \<open>Properties\<close>

definition echo_ids :: "string list" where
  "echo_ids = [''ingress'', ''echo'', ''egress'']"

text \<open>A run for the witnesses: two messages queued, a third sent while the service runs.\<close>

definition echo_demo_env ::
    "((echo_msg, echo_msg) sim_world, unit, unit, unit, u64, u64 \<times> u64,
      (echo_msg, u64, u64 \<times> u64) slot, (echo_msg, u64, u64 \<times> u64) slot) echo_env" where
  "echo_demo_env = sim_env"

lemma echo_demo_service: "service_env echo_demo_env () () sim_arrived sim_taken sim_sent"
  and echo_demo_slots: "slot_env echo_demo_env"
  unfolding echo_demo_env_def
  by (fact sim_service.service_env_axioms, fact sim_service.slot_env_axioms)

abbreviation echo_demo_run_one where
  "echo_demo_run_one \<equiv> echo_iteration True echo_demo_env leaf_statig"

definition echo_demo_world :: "(echo_msg, echo_msg) sim_world" where
  "echo_demo_world =
     \<lparr>sim_queue = [Echo_Msg ''hello'', Echo_Msg ''world''], sim_taken = [],
      sim_bursts = [[], [], [Echo_Msg ''copper'']], sim_sent = [], sim_open = True,
      sim_clock = 0, sim_period = 1\<rparr>"

definition echo_demo_app :: "unit echo_app" where
  "echo_demo_app =
     \<lparr>ec_ingress = \<lparr>ingress_rx = ()\<rparr>, ec_fsm = \<lparr>machine = echo_machine_default leaf_statig\<rparr>,
      ec_egress = \<lparr>egress_tx = ()\<rparr>\<rparr>"

type_synonym echo_demo_log =
  "((echo_msg, u64, u64 \<times> u64) slot, (echo_msg, u64, u64 \<times> u64) slot) copperlist list"

definition echo_demo_copperlists :: echo_demo_log where
  "echo_demo_copperlists =
     map (\<lambda>i. \<lparr>cl_id = i, ingress_slot = fresh_slot, fsm_slot = fresh_slot\<rparr>) [0, 1, 2, 3, 4, 5]"

lemma echo_demo_simps [simp]:
  "machine (ec_fsm echo_demo_app) = echo_machine_default leaf_statig"
  "length echo_demo_copperlists = 6"
  by (simp_all add: echo_demo_app_def echo_demo_copperlists_def)

definition echo_demo_ok :: bool where
  "echo_demo_ok =
     (case echo_live echo_demo_run_one echo_demo_app echo_demo_copperlists echo_demo_world of
        Done (rss, log, app, w) \<Rightarrow>
          (\<forall>rs \<in> set rss. \<forall>x \<in> set rs. x = Inr ()) \<and>
          map echo_text (sim_sent w) = [''echo 1: hello'', ''echo 2: world'', ''echo 3: copper'']
      | Panic p \<Rightarrow> False)"

lemma echo_demo_ok: echo_demo_ok
  by code_simp

text \<open>
  C9. Replay determinism of the echo service: a live run of fewer than \<open>2 ^ 64\<close> iterations never
  panics, whatever the clock reads and whatever arrives, and however its log is read back (any
  decoder that yields the logged copperlists before its first error), every ingress cycle has a
  time, and replaying the recorded inputs, messages and ticks, through a fresh machine gives
  exactly the echoes the log holds.
\<close>

theorem echo_live_replay_agrees:
  assumes "slot_env env" and "statig sg"
    and "machine (ec_fsm app) = echo_machine_default sg" and "length cls < 2 ^ 64"
    and "copper_iteration run_one (echo_iteration oc env sg)"
  shows "\<exists>rss log app' w'. echo_live run_one app cls w = Done (rss, log, app', w')
           \<and> (\<forall>decode (reader :: 'rd) e. log_stream decode reader log e \<longrightarrow>
                (\<exists>recorded. echo_read_recorded (env_clk env) (env_in env) (env_out env) echo_ids
                              (\<lambda>_. Inr (Logger_Read reader)) decode log_base = Some (Done recorded)
                   \<and> echo_replay oc sg (ingress_inputs recorded) = Done (echo_outputs recorded)))"
proof -
  note loop = copper_iterationD [OF assms(5)]
  have cold: "machine_count (machine (ec_fsm app)) = 0"
    using assms(2,3) by (simp add: echo_default_count)
  with assms(4) echo_live_spec [OF assms(1,2), of app cls oc w] obtain rss log app' w' "is" where
    live: "echo_live (echo_iteration oc env sg) app cls w = Done (rss, log, app', w')"
    and ins: "exec_map (\<lambda>cl. echo_record_input (env_clk env) (env_in env) (ingress_slot cl)) log
      = Done is"
    and outs: "concat (map (\<lambda>cl. slot_texts (env_out env) (fsm_slot cl)) log)
      = numbered 0 (input_texts is)"
    and len: "length is = length cls"
    by auto
  let ?rec = "\<lparr>ingress_inputs = is, echo_outputs = numbered 0 (input_texts is)\<rparr>"
  have replay: "echo_replay oc sg (ingress_inputs ?rec) = Done (echo_outputs ?rec)"
    using echo_replay_numbered [OF assms(2), of "echo_machine_default sg" "is" oc] assms(2,4) len
    by (simp add: echo_replay_def echo_default_count)
  have "\<exists>recorded. echo_read_recorded (env_clk env) (env_in env) (env_out env) echo_ids
          (\<lambda>_. Inr (Logger_Read reader)) decode log_base = Some (Done recorded)
      \<and> echo_replay oc sg (ingress_inputs recorded) = Done (echo_outputs recorded)"
    if "log_stream decode reader log e" for decode and reader :: 'rd and e
  proof (intro exI conjI)
    show "echo_read_recorded (env_clk env) (env_in env) (env_out env) echo_ids
        (\<lambda>_. Inr (Logger_Read reader)) decode log_base = Some (Done ?rec)"
      using echo_read_loop_stream [OF that ins, of "env_out env"] outs
      by (simp add: echo_read_recorded_def echo_ids_def)
  qed (rule replay)
  with live show ?thesis unfolding loop by blast
qed

text \<open>A decoder that reads a list of copperlists.\<close>

definition list_decode :: "'cl list \<Rightarrow> (decode_error + 'cl) \<times> 'cl list" where
  "list_decode cls =
     (case cls of [] \<Rightarrow> (Inl (Unexpected_End ''0''), []) | cl # cls \<Rightarrow> (Inr cl, cls))"

lemma log_stream_list_decode: "log_stream list_decode cls cls (Unexpected_End ''0'')"
  by (induction cls) (auto simp: list_decode_def intro: stream_end stream_record)

theorem echo_live_replay_agrees_witness:
  "\<exists>rss log app' w' recorded.
     echo_live echo_demo_run_one echo_demo_app echo_demo_copperlists echo_demo_world
       = Done (rss, log, app', w')
     \<and> echo_read_recorded (env_clk echo_demo_env) (env_in echo_demo_env) (env_out echo_demo_env) echo_ids
         (\<lambda>_. Inr (Logger_Read log)) list_decode
         ''echo.copper'' = Some (Done recorded)
     \<and> echo_replay True leaf_statig (ingress_inputs recorded) = Done (echo_outputs recorded)"
proof -
  have "length echo_demo_copperlists < 2 ^ 64" by simp
  from echo_live_replay_agrees [where 'rd = echo_demo_log, OF echo_demo_slots leaf.statig_axioms
      echo_demo_simps(1) this copper_iteration_refl, of True echo_demo_world "''echo.copper''"]
  obtain rss log app' w' where live: "echo_live echo_demo_run_one echo_demo_app
      echo_demo_copperlists echo_demo_world = Done (rss, log, app', w')"
    and read: "\<And>decode (reader :: echo_demo_log) e. log_stream decode reader log e \<Longrightarrow>
      \<exists>recorded. echo_read_recorded (env_clk echo_demo_env) (env_in echo_demo_env) (env_out echo_demo_env) echo_ids
        
          (\<lambda>_. Inr (Logger_Read reader)) decode ''echo.copper'' = Some (Done recorded)
        \<and> echo_replay True leaf_statig (ingress_inputs recorded) = Done (echo_outputs recorded)"
    by blast
  from read [OF log_stream_list_decode] live show ?thesis by blast
qed

text \<open>
  C21. End to end through the three tasks: when no task reports an error, the echoes put on the
  outbound channel are exactly the numbered replies, one each and in order, to the messages taken
  from the inbound channel, at most one per iteration, and with at least as many iterations as
  messages were queued at the start every one of those is answered.
\<close>

theorem echo_live_answers:
  assumes "service_env env hin hout arrived taken sent" and "statig sg"
    and "app = \<lparr>ec_ingress = \<lparr>ingress_rx = hin\<rparr>, ec_fsm = \<lparr>machine = echo_machine_default sg\<rparr>,
                ec_egress = \<lparr>egress_tx = hout\<rparr>\<rparr>"
    and "length cls < 2 ^ 64"
    and "echo_live run_one app cls w = Done (rss, log, app', w')"
    and "\<forall>rs \<in> set rss. \<forall>x \<in> set rs. x = Inr ()"
    and "copper_iteration run_one (echo_iteration oc env sg)"
  shows "\<exists>texts. length texts \<le> length cls
           \<and> taken w' = taken w @ map Echo_Msg texts
           \<and> sent w' = sent w @ map Echo_Msg (numbered 0 texts)
           \<and> (length (arrived w) \<le> length (taken w) + length cls \<longrightarrow> prefix (arrived w) (taken w'))"
proof -
  note loop = copper_iterationD [OF assms(7)]
  have cold: "machine_count (machine (ec_fsm app)) = 0"
    using assms(2) by (simp add: assms(3) echo_default_count)
  obtain texts where "length texts \<le> length cls" "taken w' = taken w @ map Echo_Msg texts"
    "sent w' = sent w @ map Echo_Msg (numbered 0 texts)"
    "\<forall>A. prefix A (arrived w) \<and> length A \<le> length (taken w) + length cls \<longrightarrow> prefix A (taken w')"
    using echo_live_channels [OF assms(1,2) _ _ _ assms(5) [unfolded loop]] assms(3,4,6) cold by auto
  then show ?thesis by blast
qed

theorem echo_live_answers_witness:
  "\<exists>rss log app' w' texts.
     echo_live echo_demo_run_one echo_demo_app echo_demo_copperlists echo_demo_world
       = Done (rss, log, app', w')
     \<and> sim_taken w' = map Echo_Msg texts \<and> sim_sent w' = map Echo_Msg (numbered 0 texts)
     \<and> prefix [Echo_Msg ''hello'', Echo_Msg ''world''] (sim_taken w')"
proof -
  obtain rss log app' w' where live: "echo_live echo_demo_run_one echo_demo_app
      echo_demo_copperlists echo_demo_world = Done (rss, log, app', w')"
    and ok: "\<forall>rs \<in> set rss. \<forall>x \<in> set rs. x = Inr ()"
    using echo_demo_ok by (auto simp: echo_demo_ok_def split: exec.splits)
  have "length echo_demo_copperlists < 2 ^ 64" by simp
  from echo_live_answers [OF echo_demo_service leaf.statig_axioms echo_demo_app_def this live ok
      copper_iteration_refl] live
  show ?thesis by (auto simp: echo_demo_world_def sim_arrived_def)
qed

text \<open>The echo service with a transport thread that is slow to start.\<close>

definition slow_feeder_world :: "(echo_msg, echo_msg) sim_world" where
  "slow_feeder_world =
     \<lparr>sim_queue = [], sim_taken = [],
      sim_bursts = replicate 12 [] @ [[Echo_Msg ''hello'', Echo_Msg ''world'', Echo_Msg ''copper'']],
      sim_sent = [], sim_open = True, sim_clock = 0, sim_period = 1\<rparr>"

text \<open>
  The live loop does not wait for its transport: it makes \<open>inputs.len() + 3\<close> iterations at
  whatever pace. When the driver thread sends the three inputs only after the loop's twelve channel
  and clock operations (two per empty iteration), the run ends normally, no task reports an error,
  and nothing has been taken or echoed, so that \<open>main\<close> fails on "live run did not echo every input".
\<close>

lemma echo_live_outruns_feeder:
  "length echo_demo_copperlists = echo_iterations [''hello'', ''world'', ''copper'']
   \<and> (case echo_live echo_demo_run_one echo_demo_app echo_demo_copperlists
          slow_feeder_world of
        Panic p \<Rightarrow> False
      | Done (rss, log, app, w) \<Rightarrow>
          list_all (list_all (\<lambda>r. r = Inr ())) rss \<and> sim_taken w = [] \<and> sim_sent w = []
          \<and> concat (sim_bursts w) = [Echo_Msg ''hello'', Echo_Msg ''world'', Echo_Msg ''copper''])"
  by code_simp

end
