(* ===== verification/Pipeline.thy ===== *)
theory Pipeline
  imports Framework_Replay Watchdog_Service Echo_Service
begin

text \<open>
  The two graphs a service can be built as (README, section 12), with an arbitrary machine: the
  \<open>Cycle\<close> pipeline \<open>CycleIngressTask, FsmBatchTask, BatchEgressTask\<close> and the message pipeline
  \<open>IngressTask, FsmTask, EgressTask\<close>, in any world that obeys the laws of the channels. Either turns
  the inbound channel into the outbound one by running the bare machine; they differ in whether the
  machine gets to see the time. The loops of the two services are instances.
\<close>

section \<open>Graphs and their loop\<close>

definition cycle_graph ::
    "('w, 'h, 'v, 'e, 'o, 'f, 't, 'r, 'mi, 'v cycle, 'mo, 'o batch) dag_env \<Rightarrow>
     ('m, 'v cycle, 'o) fsm_step \<Rightarrow> 'h cycle_ingress_task \<Rightarrow> 'h batch_egress_task \<Rightarrow>
     'm fsm_batch_task \<Rightarrow> ('mi, 'mo) copperlist \<Rightarrow> 'w \<Rightarrow>
     ((cu_error + unit) list \<times> ('mi, 'mo) copperlist \<times> 'm fsm_batch_task \<times> 'w) exec" where
  "cycle_graph env step ingress egress fsm cl w =
     (let (r0, m0, w) = cycle_ingress_process (env_clk env) (env_rx env) (env_in env) ingress
                          (ingress_slot cl) w
      in exec_bind (fsm_batch_task_process (env_clk env) (env_in env) (env_out env) step fsm m0
                      (fsm_slot cl) w)
           (\<lambda>(r1, fsm, m1, w).
              let (r2, w) = batch_egress_process (env_tx env) (env_out env) egress m1 w
              in Done ([r0, r1, r2], cl\<lparr>ingress_slot := m0, fsm_slot := m1\<rparr>, fsm, w)))"

definition message_graph ::
    "('w, 'h, 'v, 'e, 'o, 'f, 't, 'r, 'mi, 'v, 'mo, 'o) dag_env \<Rightarrow>
     ('m, 'v, 'o) fsm_step \<Rightarrow> 'h ingress_task \<Rightarrow> 'h egress_task \<Rightarrow>
     'm fsm_task \<Rightarrow> ('mi, 'mo) copperlist \<Rightarrow> 'w \<Rightarrow>
     ((cu_error + unit) list \<times> ('mi, 'mo) copperlist \<times> 'm fsm_task \<times> 'w) exec" where
  "message_graph env step ingress egress fsm cl w =
     (let (r0, m0, w) = ingress_process (env_clk env) (env_rx env) (env_in env) ingress
                          (ingress_slot cl) w
      in exec_bind (fsm_task_process (env_clk env) (env_in env) (env_out env) step fsm m0
                      (fsm_slot cl) w)
           (\<lambda>(r1, fsm, m1, w).
              let (r2, w) = egress_process (env_tx env) (env_out env) egress m1 w
              in Done ([r0, r1, r2], cl\<lparr>ingress_slot := m0, fsm_slot := m1\<rparr>, fsm, w)))"

fun graph_loop ::
    "('s \<Rightarrow> 'cl \<Rightarrow> 'w \<Rightarrow> ('rs \<times> 'cl \<times> 's \<times> 'w) exec) \<Rightarrow> 's \<Rightarrow> 'cl list \<Rightarrow> 'w \<Rightarrow>
     ('rs list \<times> 'cl list \<times> 's \<times> 'w) exec" where
  "graph_loop graph s [] w = Done ([], [], s, w)"
| "graph_loop graph s (cl # cls) w =
     exec_bind (graph s cl w) (\<lambda>(rs, cl, s, w).
       exec_bind (graph_loop graph s cls w) (\<lambda>(rss, log, s, w).
         Done (rs # rss, cl # log, s, w)))"

text \<open>The live loops of the two services.\<close>

lemma watchdog_live_graph:
  "watchdog_live (watchdog_iteration env sg) app cls w =
     exec_bind (graph_loop (cycle_graph env (watchdog_step sg) (wd_ingress app) (wd_egress app))
                  (wd_fsm app) cls w)
       (\<lambda>(rss, log, fsm, w). Done (rss, log, app\<lparr>wd_fsm := fsm\<rparr>, w))"
proof (induction cls arbitrary: app w)
  case (Cons cl cls)
  then show ?case
    by (simp add: watchdog_iteration_def cycle_graph_def Let_def split_def exec_bind_assoc)
qed simp

lemma echo_live_graph:
  "echo_live (echo_iteration oc env sg) app cls w =
     exec_bind (graph_loop (message_graph env (echo_step oc sg) (ec_ingress app) (ec_egress app))
                  (ec_fsm app) cls w)
       (\<lambda>(rss, log, fsm, w). Done (rss, log, app\<lparr>ec_fsm := fsm\<rparr>, w))"
proof (induction cls arbitrary: app w)
  case (Cons cl cls)
  then show ?case
    by (simp add: echo_iteration_def message_graph_def Let_def split_def exec_bind_assoc)
qed simp

section \<open>Delivery of a backlog\<close>

text \<open>One iteration that takes what is next, at least \<open>cap\<close> messages if as many are queued.\<close>

lemma backlog_step:
  assumes "prefix A arr" and "length A \<le> length tkn + Suc n * cap"
    and "tkn1 = tkn @ vs" and "min cap (length arr - length tkn) \<le> length vs"
    and "prefix arr arr1" and "prefix tkn1 arr1" and "prefix tkn1 tkn'"
    and "prefix A arr1 \<Longrightarrow> length A \<le> length tkn1 + n * cap \<Longrightarrow> prefix A tkn'"
  shows "prefix A tkn'"
proof (cases "length A \<le> length tkn1")
  case True
  have "prefix A arr1" using assms(1,5) by (rule prefix_order.trans)
  with assms(6) True have "prefix A tkn1" by (blast intro: prefix_length_prefix)
  then show ?thesis using assms(7) by (rule prefix_order.trans)
next
  case False
  have "length A \<le> length arr" using assms(1) by (rule prefix_length_le)
  with False assms(3,4) have "cap \<le> length vs" by simp
  with assms(2,3) have "length A \<le> length tkn1 + n * cap" by simp
  with prefix_order.trans [OF assms(1,5)] show ?thesis by (rule assms(8))
qed

section \<open>What one iteration promises\<close>

text \<open>
  A graph as a transducer between its two channels: what it does to the channels and to the log is
  what one step of its machine does, on the trigger that the copperlist records. \<open>handles\<close> are the
  task states that hold the handles of the two channels, \<open>carried\<close> the messages that a trigger takes
  off the inbound channel, at most \<open>cap\<close> of them and that many if they are queued; \<open>outputs\<close> is
  what the copperlist keeps of the outputs of a step.
\<close>

locale graph_transducer =
  fixes graph :: "'s \<Rightarrow> 'cl \<Rightarrow> 'w \<Rightarrow> ((cu_error + unit) list \<times> 'cl \<times> 's \<times> 'w) exec"
    and step :: "('m, 'i, 'o) fsm_step"
    and state :: "'s \<Rightarrow> 'm"
    and trigger :: "'cl \<Rightarrow> 'i trigger"
    and possible :: "'i trigger set"
    and carried :: "'i trigger \<Rightarrow> 'v list"
    and seen :: "'cl \<Rightarrow> 'p"
    and report :: "'o list \<Rightarrow> 'p"
    and arr :: "'w \<Rightarrow> 'v list"
    and tkn :: "'w \<Rightarrow> 'v list"
    and snt :: "'w \<Rightarrow> 'o list"
    and cap :: nat
  assumes graph_panic: "graph s cl w = Panic p \<Longrightarrow>
      \<exists>t \<in> possible. run_step_all step (state s) t = Panic p"
    and graph_step: "graph s cl w = Done (rs, cl', s', w') \<Longrightarrow>
      \<exists>outs. run_step_all step (state s) (trigger cl') = Done (outs, state s')
        \<and> seen cl' = report outs
        \<and> ((\<forall>x \<in> set rs. x = Inr ()) \<longrightarrow> snt w' = snt w @ outs)"
    and graph_trigger: "graph s cl w = Done (rs, cl', s', w') \<Longrightarrow> trigger cl' \<in> possible"
    and graph_taken: "graph s cl w = Done (rs, cl', s', w') \<Longrightarrow>
      tkn w' = tkn w @ carried (trigger cl')"
    and graph_grows: "graph s cl w = Done (rs, cl', s', w') \<Longrightarrow> prefix (arr w) (arr w')"
    and graph_prefix: "prefix (tkn w) (arr w)"
    and graph_cap: "graph s cl w = Done (rs, cl', s', w') \<Longrightarrow> length (carried (trigger cl')) \<le> cap"
    and graph_progress: "graph s cl w = Done (rs, cl', s', w') \<Longrightarrow>
      min cap (length (arr w) - length (tkn w)) \<le> length (carried (trigger cl'))"
begin

text \<open>
  A loop returns when its machine handles every sequence of so many triggers that the graph can build.
\<close>

lemma loop_returns:
  assumes "\<And>ts. set ts \<subseteq> possible \<Longrightarrow> length ts = length cls \<Longrightarrow> \<exists>r. run_all step ts (state s) = Done r"
  shows "\<exists>rss log s' w'. graph_loop graph s cls w = Done (rss, log, s', w')"
  using assms
proof (induction cls arbitrary: s w)
  case (Cons cl cls)
  show ?case
  proof (cases "graph s cl w")
    case (Panic p)
    then obtain t where t: "t \<in> possible" "run_step_all step (state s) t = Panic p"
      using graph_panic by blast
    let ?ts = "t # replicate (length cls) t"
    have "set ?ts \<subseteq> possible" using t(1) by (auto dest: in_set_replicate [THEN iffD1])
    from Cons.prems [OF this] t(2) show ?thesis by simp
  next
    case (Done r)
    then obtain rs cl1 s1 w1 where g: "graph s cl w = Done (rs, cl1, s1, w1)" by (metis prod.exhaust)
    have "\<exists>r. run_all step ts (state s1) = Done r"
      if "set ts \<subseteq> possible" "length ts = length cls" for ts
      using Cons.prems [of "trigger cl1 # ts"] graph_step [OF g] graph_trigger [OF g] that by auto
    from Cons.IH [OF this, of w1] g show ?thesis by auto
  qed
qed simp

lemma loop_cases:
  assumes "graph_loop graph s (cl # cls) w = Done (rss, log, s', w')"
  obtains rs cl1 s1 w1 rss1 log1 where "graph s cl w = Done (rs, cl1, s1, w1)"
    "graph_loop graph s1 cls w1 = Done (rss1, log1, s', w')" "rss = rs # rss1" "log = cl1 # log1"
  using assms that by (auto split: exec.splits)

text \<open>The loop runs the bare machine over the recorded triggers.\<close>

lemma loop_transduces:
  assumes "graph_loop graph s cls w = Done (rss, log, s', w')"
  shows "length log = length cls \<and> trigger ` set log \<subseteq> possible
    \<and> (\<exists>outs. run_all step (map trigger log) (state s) = Done (outs, state s')
        \<and> map seen log = map report outs
        \<and> ((\<forall>rs \<in> set rss. \<forall>x \<in> set rs. x = Inr ()) \<longrightarrow> snt w' = snt w @ concat outs))"
  using assms
proof (induction cls arbitrary: s w rss log)
  case (Cons cl cls)
  from Cons.prems obtain rs cl1 s1 w1 rss1 log1 where g: "graph s cl w = Done (rs, cl1, s1, w1)"
    and l: "graph_loop graph s1 cls w1 = Done (rss1, log1, s', w')"
    and eqs: "rss = rs # rss1" "log = cl1 # log1"
    by (rule loop_cases)
  from graph_step [OF g] obtain outs where
    "run_step_all step (state s) (trigger cl1) = Done (outs, state s1)" "seen cl1 = report outs"
    "(\<forall>x \<in> set rs. x = Inr ()) \<longrightarrow> snt w1 = snt w @ outs" by blast
  with Cons.IH [OF l] graph_trigger [OF g] show ?case by (auto simp: eqs)
qed simp

text \<open>It takes what arrived, in order, and leaves nothing behind that it had time to take.\<close>

lemma loop_takes:
  assumes "graph_loop graph s cls w = Done (rss, log, s', w')"
  shows "tkn w' = tkn w @ concat (map (carried \<circ> trigger) log) \<and> prefix (arr w) (arr w')"
  using assms
proof (induction cls arbitrary: s w rss log)
  case (Cons cl cls)
  from Cons.prems obtain rs cl1 s1 w1 rss1 log1 where g: "graph s cl w = Done (rs, cl1, s1, w1)"
    and l: "graph_loop graph s1 cls w1 = Done (rss1, log1, s', w')"
    and eqs: "rss = rs # rss1" "log = cl1 # log1"
    by (rule loop_cases)
  from Cons.IH [OF l] graph_taken [OF g] graph_grows [OF g] show ?case
    by (auto simp: eqs intro: prefix_order.trans)
qed simp

lemma loop_delivers:
  assumes "graph_loop graph s cls w = Done (rss, log, s', w')"
    and "prefix A (arr w)" and "length A \<le> length (tkn w) + length cls * cap"
  shows "prefix A (tkn w')"
  using assms
proof (induction cls arbitrary: s w rss log)
  case Nil
  then show ?case using graph_prefix [of w] by (auto intro: prefix_length_prefix)
next
  case (Cons cl cls)
  from Cons.prems(1) obtain rs cl1 s1 w1 rss1 log1 where g: "graph s cl w = Done (rs, cl1, s1, w1)"
    and l: "graph_loop graph s1 cls w1 = Done (rss1, log1, s', w')"
    by (rule loop_cases)
  have "length A \<le> length (tkn w) + Suc (length cls) * cap" using Cons.prems(3) by simp
  moreover have "prefix (tkn w1) (tkn w')" using loop_takes [OF l] by simp
  ultimately show ?case
    using backlog_step [OF Cons.prems(2) _ graph_taken [OF g] graph_progress [OF g]
        graph_grows [OF g] graph_prefix _ Cons.IH [OF l]] by blast
qed

text \<open>While more is queued than the loop can take, every iteration takes as much as it can.\<close>

lemma loop_saturated:
  assumes "graph_loop graph s cls w = Done (rss, log, s', w')"
    and "length (tkn w) + length cls * cap \<le> length (arr w)"
  shows "\<forall>cl \<in> set log. length (carried (trigger cl)) = cap"
  using assms
proof (induction cls arbitrary: s w rss log)
  case (Cons cl cls)
  from Cons.prems(1) obtain rs cl1 s1 w1 rss1 log1 where g: "graph s cl w = Done (rs, cl1, s1, w1)"
    and l: "graph_loop graph s1 cls w1 = Done (rss1, log1, s', w')"
    and eqs: "rss = rs # rss1" "log = cl1 # log1"
    by (rule loop_cases)
  have full: "length (carried (trigger cl1)) = cap"
    using graph_cap [OF g] graph_progress [OF g] Cons.prems(2) by simp
  have "length (arr w) \<le> length (arr w1)" using graph_grows [OF g] by (rule prefix_length_le)
  with Cons.prems(2) graph_taken [OF g] full
  have "length (tkn w1) + length cls * cap \<le> length (arr w1)" by simp
  with Cons.IH [OF l] full show ?case by (simp add: eqs)
qed simp

end

section \<open>The two graphs keep that promise\<close>

text \<open>The events of a cycle, and the single message of a trigger.\<close>

fun cycle_events :: "'v cycle trigger \<Rightarrow> 'v list" where
  "cycle_events (Message c) = events c"
| "cycle_events (Tick ns) = []"

fun trigger_messages :: "'v trigger \<Rightarrow> 'v list" where
  "trigger_messages (Message v) = [v]"
| "trigger_messages (Tick ns) = []"

text \<open>An iteration of the \<open>Cycle\<close> graph: the drained cycle, the step, what is forwarded and sent.\<close>

lemma cycle_graph_cases:
  assumes "slot_env env"
  obtains (Panic) c p where "run_step_all step (batch_machine fsm) (Message c) = Panic p"
      "cycle_graph env step ingress egress fsm cl w = Panic p"
    | (Done) m0 w0 c outs m' m1 w1 r2 w2 where
      "cycle_ingress_process (env_clk env) (env_rx env) (env_in env) ingress (ingress_slot cl) w
         = (Inr (), m0, w0)" "payload (env_in env) m0 = Some c"
      "run_step_all step (batch_machine fsm) (Message c) = Done (outs, m')"
      "forward_batch (env_clk env) (env_out env) (fsm_slot cl) w0 outs = (Inr (), m1, w1)"
      "payload (env_out env) m1 = (if outs = [] then None else Some (Batch outs))"
      "batch_egress_process (env_tx env) (env_out env) egress m1 w1 = (r2, w2)"
      "cycle_graph env step ingress egress fsm cl w = Done ([Inr (), Inr (), r2],
         cl\<lparr>ingress_slot := m0, fsm_slot := m1\<rparr>, fsm\<lparr>batch_machine := m'\<rparr>, w2)"
proof -
  have im: "cu_msg (env_in env)" and om: "cu_msg (env_out env)"
    using assms by (simp_all add: slot_env_def)
  obtain res m0 w0 where p0: "cycle_ingress_process (env_clk env) (env_rx env) (env_in env)
      ingress (ingress_slot cl) w = (res, m0, w0)" by (metis prod.exhaust)
  then obtain c where c: "res = Inr ()" "payload (env_in env) m0 = Some c"
    by (rule cycle_ingress_payload [OF im])
  show thesis
  proof (cases "run_step_all step (batch_machine fsm) (Message c)")
    case (Panic p)
    then show thesis
      by (rule that(1)) (simp add: cycle_graph_def p0 fsm_batch_task_process_alt
        trigger_for_message [OF c(2)] Panic)
  next
    case (Done r)
    then obtain outs m' where st: "run_step_all step (batch_machine fsm) (Message c) = Done (outs, m')"
      by (metis prod.exhaust)
    obtain r1 m1 w1 where f: "forward_batch (env_clk env) (env_out env) (fsm_slot cl) w0 outs
      = (r1, m1, w1)" by (metis prod.exhaust)
    have r1: "r1 = Inr ()" and o: "payload (env_out env) m1 = (if outs = [] then None else Some (Batch outs))"
      using fst_forward_batch [of "env_clk env" "env_out env" "fsm_slot cl" w0 outs]
        payload_forward_batch [OF om, of "env_clk env" "fsm_slot cl" w0 outs] f by simp_all
    obtain r2 w2 where e: "batch_egress_process (env_tx env) (env_out env) egress m1 w1 = (r2, w2)"
      by (metis prod.exhaust)
    show thesis
      by (rule that(2) [OF p0 [unfolded c(1)] c(2) st f [unfolded r1] o e])
        (simp add: cycle_graph_def p0 c(1) fsm_batch_task_process_alt trigger_for_message [OF c(2)]
          st f r1 e)
  qed
qed

text \<open>
  What the cycles of a log say about the time: for each of them, in the order of the log, the clock
  was read at a moment between the one before and the next, and that reading, as nanoseconds, is
  the time of the cycle and the time of validity of its message.
\<close>

inductive cycles_stamped ::
    "('w, 'h, 'v, 'e, 'o, 'f, 't, 'r, 'mi, 'v cycle, 'mo, 'po) dag_env \<Rightarrow> 'h \<Rightarrow> 'h \<Rightarrow>
     'w \<Rightarrow> 'mi list \<Rightarrow> 'w \<Rightarrow> bool"
  for env :: "('w, 'h, 'v, 'e, 'o, 'f, 't, 'r, 'mi, 'v cycle, 'mo, 'po) dag_env" and hin hout :: 'h where
  no_cycle: "world_reach (env_clk env) (env_rx env) hin (env_tx env) hout w w' \<Longrightarrow>
    cycles_stamped env hin hout w [] w'"
| next_cycle: "world_reach (env_clk env) (env_rx env) hin (env_tx env) hout w w1 \<Longrightarrow>
    now (env_clk env) w1 = (t, w2) \<Longrightarrow>
    payload (env_in env) m = Some c \<Longrightarrow> now_ns c = as_nanos (env_clk env) t \<Longrightarrow>
    msg_tov (env_in env) m = Tov_Time t \<Longrightarrow>
    cycles_stamped env hin hout w2 ms w' \<Longrightarrow> cycles_stamped env hin hout w (m # ms) w'"

lemma cycles_stamped_later:
  assumes "cycles_stamped env hin hout w1 ms w'"
    and "world_reach (env_clk env) (env_rx env) hin (env_tx env) hout w w1"
  shows "cycles_stamped env hin hout w ms w'"
  using assms by cases (blast intro: cycles_stamped.intros world_reach_trans)+

lemma cycle_loop_stamps:
  assumes "service_env env hin hout arrived taken sent"
    and "graph_loop (cycle_graph env step \<lparr>cycle_rx = hin, max_batch = mb\<rparr> \<lparr>batch_egress_tx = hout\<rparr>)
      fsm cls w = Done (rss, log, fsm', w')"
  shows "cycles_stamped env hin hout w (map ingress_slot log) w'"
  using assms(2)
proof (induction cls arbitrary: fsm w rss log)
  case Nil
  then show ?case by (simp add: no_cycle reach_start)
next
  case (Cons cl cls)
  let ?graph = "cycle_graph env step \<lparr>cycle_rx = hin, max_batch = mb\<rparr> \<lparr>batch_egress_tx = hout\<rparr>"
  have slots: "slot_env env"
    and cw: "cycle_ingress_world (env_rx env) (env_clk env) hin arrived taken (env_in env)"
    using assms(1) by (simp_all add: service_env_def slot_env_def dag_world_def cycle_ingress_world_def)
  show ?case
  proof (cases rule: cycle_graph_cases [OF slots, of step fsm \<open>\<lparr>cycle_rx = hin, max_batch = mb\<rparr>\<close>
        \<open>\<lparr>batch_egress_tx = hout\<rparr>\<close> cl w, case_names Panic Done])
    case (Done m0 w0 c outs m' m1 w1 r2 w2)
    with Cons.prems obtain rss1 log1
      where l: "graph_loop ?graph (fsm\<lparr>batch_machine := m'\<rparr>) cls w2 = Done (rss1, log1, fsm', w')"
        and log: "log = cl\<lparr>ingress_slot := m0, fsm_slot := m1\<rparr> # log1"
      by (auto split: exec.splits)
    have "world_reach (env_clk env) (env_rx env) hin (env_tx env) hout w0 w2"
      using reach.batch_egress_process_inv [OF reach.forward_batch_inv [OF reach_start Done(4)] Done(6)] .
    with Cons.IH [OF l] have later: "cycles_stamped env hin hout w0 (map ingress_slot log1) w'"
      by (rule cycles_stamped_later)
    show ?thesis
    proof (rule cycle_ingress_world.cycle_process_spec [OF cw Done(1)])
      fix c t w3
      assume d: "cycle_step (env_rx env) hin mb 0 w = (c, w3)" and n: "now (env_clk env) w3 = (t, w0)"
        and s: "payload (env_in env) m0 = Some (c\<lparr>now_ns := as_nanos (env_clk env) t\<rparr>)"
          "msg_tov (env_in env) m0 = Tov_Time t"
      from d obtain vs w4 k where "try_iter_take (env_rx env) hin (unat mb) w = (vs, w4)"
        "rx_len (env_rx env) hin w4 = (k, w3)"
        by (auto simp: cycle_step_def split: prod.splits)
      then have "world_reach (env_clk env) (env_rx env) hin (env_tx env) hout w w3"
        by (rule reach.len_inv [OF reach.try_iter_take_inv [OF reach_start]])
      then show ?thesis using next_cycle [OF _ n s(1) _ s(2) later] by (simp add: log)
    qed
  qed (use Cons.prems in simp)
qed

lemma cycle_graph_transducer:
  assumes "service_env env hin hout arrived taken sent"
  shows "graph_transducer
    (cycle_graph env step \<lparr>cycle_rx = hin, max_batch = mb\<rparr> \<lparr>batch_egress_tx = hout\<rparr>)
    step batch_machine (\<lambda>cl. logged_trigger (env_clk env) (env_in env) (ingress_slot cl)) (range Message)
    cycle_events (\<lambda>cl. payload (env_out env) (fsm_slot cl)) (snd \<circ> batch_report)
    arrived taken sent (unat mb)"
proof -
  have slots: "slot_env env" and im: "cu_msg (env_in env)"
    and ch: "dag_world (env_rx env) (env_clk env) hin arrived taken (env_tx env) hout sent"
    using assms by (simp_all add: service_env_def slot_env_def)
  then have cw: "cycle_ingress_world (env_rx env) (env_clk env) hin arrived taken (env_in env)"
    and rx: "rx_world (env_rx env) (env_clk env) hin arrived taken"
    by (simp_all add: dag_world_def cycle_ingress_world_def)
  note src = cycle_ingress_world.cycle_source [OF cw, of mb]
  let ?graph = "cycle_graph env step \<lparr>cycle_rx = hin, max_batch = mb\<rparr> \<lparr>batch_egress_tx = hout\<rparr>"
  let ?trigger = "\<lambda>cl. logged_trigger (env_clk env) (env_in env) (ingress_slot cl)"
  have iteration: "(\<exists>outs. run_step_all step (batch_machine s) (?trigger cl') = Done (outs, batch_machine s')
        \<and> payload (env_out env) (fsm_slot cl') = (snd \<circ> batch_report) outs
        \<and> ((\<forall>x \<in> set rs. x = Inr ()) \<longrightarrow> sent w' = sent w @ outs))
      \<and> ?trigger cl' \<in> range Message
      \<and> taken w' = taken w @ cycle_events (?trigger cl') \<and> prefix (arrived w) (arrived w')
      \<and> length (cycle_events (?trigger cl')) \<le> unat mb
      \<and> min (unat mb) (length (arrived w) - length (taken w)) \<le> length (cycle_events (?trigger cl'))"
    if g: "?graph s cl w = Done (rs, cl', s', w')" for s cl w rs cl' s' w'
  proof (cases rule: cycle_graph_cases [OF slots, of step s \<open>\<lparr>cycle_rx = hin, max_batch = mb\<rparr>\<close>
        \<open>\<lparr>batch_egress_tx = hout\<rparr>\<close> cl w, case_names Panic Done])
    case (Done m0 w0 c outs m' m1 w1 r2 w2)
    with g have eqs: "rs = [Inr (), Inr (), r2]" "cl' = cl\<lparr>ingress_slot := m0, fsm_slot := m1\<rparr>"
      "s' = s\<lparr>batch_machine := m'\<rparr>" "w' = w2" by simp_all
    have trig: "?trigger cl' = Message c" by (simp add: eqs logged_trigger_def Done(2))
    note out = dag_world.forward_batch_rx [OF ch Done(4)] dag_world.forward_batch_sent [OF ch Done(4)]
      dag_world.cycle_ingress_sent [OF ch Done(1)] dag_world.batch_egress_spec [OF ch Done(6)]
    have "length (events c) \<le> unat mb"
      by (rule cycle_ingress_world.cycle_process_spec [OF cw Done(1)])
        (use Done(2) rx_world.cycle_step_spec(3) [OF rx] in fastforce)
    moreover have "prefix (arrived w) (arrived w')"
      using source_task.proc_grows [OF src Done(1)] out eqs by (meson prefix_order.trans)
    moreover have "sent w' = sent w @ outs" if "r2 = Inr ()"
      using out that Done(5) by (auto simp: eqs split: if_splits)
    ultimately show ?thesis
      using source_task.proc_taken [OF src Done(1)] source_task.proc_progress [OF src Done(1)]
        out(1,4) Done(2,3,5)
      unfolding trig by (simp add: eqs slot_events_def batch_report_def)
  qed (use g in simp)
  show ?thesis
  proof
    show "prefix (taken w) (arrived w)" for w by (rule rx_world.taken_arrived [OF rx])
    show "\<exists>t \<in> range Message. run_step_all step (batch_machine s) t = Panic p"
      if "?graph s cl w = Panic p" for s cl w p
      using that by (cases rule: cycle_graph_cases [OF slots, of step s
        \<open>\<lparr>cycle_rx = hin, max_batch = mb\<rparr>\<close> \<open>\<lparr>batch_egress_tx = hout\<rparr>\<close> cl w, case_names Panic Done]) auto
  qed (use iteration in blast)+
qed

text \<open>An iteration of the message graph. A second output of a step makes \<open>r1\<close> an error.\<close>

lemma slot_messages_trigger:
  "slot_messages im m = trigger_messages (logged_trigger clk im m)"
  by (simp add: slot_messages_def logged_trigger_def split: option.split)

lemma message_graph_cases:
  assumes "slot_env env"
  obtains (Panic) t p where "run_step_all step (machine fsm) t = Panic p"
      "message_graph env step ingress egress fsm cl w = Panic p"
    | (Done) m0 w0 t outs m' r1 m1 w1 r2 w2 where
      "ingress_process (env_clk env) (env_rx env) (env_in env) ingress (ingress_slot cl) w
         = (Inr (), m0, w0)" "logged_trigger (env_clk env) (env_in env) m0 = t"
      "run_step_all step (machine fsm) t = Done (outs, m')"
      "forward_single (env_clk env) (env_out env) (fsm_slot cl) w0 outs = (r1, m1, w1)"
      "r1 = Inr () \<Longrightarrow> length outs \<le> 1"
      "payload (env_out env) m1 = (if length outs = 1 then Some (hd outs) else None)"
      "egress_process (env_tx env) (env_out env) egress m1 w1 = (r2, w2)"
      "message_graph env step ingress egress fsm cl w = Done ([Inr (), r1, r2],
         cl\<lparr>ingress_slot := m0, fsm_slot := m1\<rparr>, fsm\<lparr>machine := m'\<rparr>, w2)"
proof -
  have im: "cu_msg (env_in env)" and om: "cu_msg (env_out env)"
    using assms by (simp_all add: slot_env_def)
  obtain res m0 w0 where p0: "ingress_process (env_clk env) (env_rx env) (env_in env)
      ingress (ingress_slot cl) w = (res, m0, w0)" by (metis prod.exhaust)
  obtain t where t: "res = Inr ()" "msg_tov (env_in env) m0 = Tov_Time t"
    by (rule ingress_slot_shape [OF im p0])
  let ?t = "logged_trigger (env_clk env) (env_in env) m0"
  have trig: "trigger_for (env_clk env) (env_in env) m0 w0 = (?t, w0)"
    by (simp add: trigger_for_def logged_trigger_def t(2) split: option.split)
  show thesis
  proof (cases "run_step_all step (machine fsm) ?t")
    case (Panic p)
    then show thesis
      by (rule that(1)) (simp add: message_graph_def p0 fsm_task_process_alt trig Panic)
  next
    case (Done r)
    then obtain outs m' where st: "run_step_all step (machine fsm) ?t = Done (outs, m')"
      by (metis prod.exhaust)
    obtain r1 m1 w1 where f: "forward_single (env_clk env) (env_out env) (fsm_slot cl) w0 outs
      = (r1, m1, w1)" by (metis prod.exhaust)
    have r1: "r1 = Inr () \<Longrightarrow> length outs \<le> 1"
      and o: "payload (env_out env) m1 = (if length outs = 1 then Some (hd outs) else None)"
      using fst_forward_single [of "env_clk env" "env_out env" "fsm_slot cl" w0 outs]
        payload_forward_single [OF om, of "env_clk env" "fsm_slot cl" w0 outs] f
      by (simp_all split: if_splits)
    obtain r2 w2 where e: "egress_process (env_tx env) (env_out env) egress m1 w1 = (r2, w2)"
      by (metis prod.exhaust)
    show thesis
      by (rule that(2) [OF p0 [unfolded t(1)] refl st f r1 o e])
        (simp_all add: message_graph_def p0 t(1) fsm_task_process_alt trig st f e)
  qed
qed

lemma message_graph_transducer:
  assumes "service_env env hin hout arrived taken sent"
  shows "graph_transducer
    (message_graph env step \<lparr>ingress_rx = hin\<rparr> \<lparr>egress_tx = hout\<rparr>)
    step machine (\<lambda>cl. logged_trigger (env_clk env) (env_in env) (ingress_slot cl)) UNIV
    trigger_messages (\<lambda>cl. payload (env_out env) (fsm_slot cl)) (snd \<circ> single_report)
    arrived taken sent 1"
proof -
  have slots: "slot_env env" and im: "cu_msg (env_in env)"
    and ch: "dag_world (env_rx env) (env_clk env) hin arrived taken (env_tx env) hout sent"
    using assms by (simp_all add: service_env_def slot_env_def)
  then have iw: "ingress_world (env_rx env) (env_clk env) hin arrived taken (env_in env)"
    and rx: "rx_world (env_rx env) (env_clk env) hin arrived taken"
    by (simp_all add: dag_world_def ingress_world_def)
  let ?graph = "message_graph env step \<lparr>ingress_rx = hin\<rparr> \<lparr>egress_tx = hout\<rparr>"
  let ?trigger = "\<lambda>cl. logged_trigger (env_clk env) (env_in env) (ingress_slot cl)"
  have iteration: "(\<exists>outs. run_step_all step (machine s) (?trigger cl') = Done (outs, machine s')
        \<and> payload (env_out env) (fsm_slot cl') = (snd \<circ> single_report) outs
        \<and> ((\<forall>x \<in> set rs. x = Inr ()) \<longrightarrow> sent w' = sent w @ outs))
      \<and> taken w' = taken w @ trigger_messages (?trigger cl') \<and> prefix (arrived w) (arrived w')
      \<and> length (trigger_messages (?trigger cl')) \<le> 1
      \<and> min 1 (length (arrived w) - length (taken w)) \<le> length (trigger_messages (?trigger cl'))"
    if g: "?graph s cl w = Done (rs, cl', s', w')" for s cl w rs cl' s' w'
  proof (cases rule: message_graph_cases [OF slots, of step s \<open>\<lparr>ingress_rx = hin\<rparr>\<close>
        \<open>\<lparr>egress_tx = hout\<rparr>\<close> cl w, case_names Panic Done])
    case (Done m0 w0 t outs m' r1 m1 w1 r2 w2)
    with g have eqs: "rs = [Inr (), r1, r2]" "cl' = cl\<lparr>ingress_slot := m0, fsm_slot := m1\<rparr>"
      "s' = s\<lparr>machine := m'\<rparr>" "w' = w2" by simp_all
    have trig: "?trigger cl' = t" by (simp add: eqs Done(2))
    note ing = ingress_world.ingress_process_spec [OF iw Done(1)]
      and out = dag_world.forward_single_rx [OF ch Done(4)] dag_world.forward_single_sent [OF ch Done(4)]
      dag_world.ingress_sent [OF ch Done(1)] dag_world.egress_process_spec [OF ch Done(7)]
    have msgs: "slot_messages (env_in env) m0 = trigger_messages t"
      by (simp add: slot_messages_trigger [of _ _ "env_clk env"] Done(2))
    have "prefix (arrived w) (arrived w')"
      using ing(3) out eqs by (meson prefix_order.trans)
    moreover have "sent w' = sent w @ outs" if "r1 = Inr ()" "r2 = Inr ()"
    proof -
      have "slot_messages (env_out env) m1 = outs"
        using Done(5) [OF that(1)] Done(6)
        by (cases outs) (auto simp: slot_messages_def)
      with out that(2) show ?thesis by (simp add: eqs)
    qed
    moreover have "length (trigger_messages t) \<le> 1" by (cases t) simp_all
    ultimately show ?thesis
      using ing(2,5) out(1,4) Done(3,6) msgs
      unfolding trig by (simp add: eqs single_report_def)
  qed (use g in simp)
  show ?thesis
  proof
    show "prefix (taken w) (arrived w)" for w by (rule rx_world.taken_arrived [OF rx])
    show "\<exists>t \<in> UNIV. run_step_all step (machine s) t = Panic p"
      if "?graph s cl w = Panic p" for s cl w p
      using that by (cases rule: message_graph_cases [OF slots, of step s \<open>\<lparr>ingress_rx = hin\<rparr>\<close>
        \<open>\<lparr>egress_tx = hout\<rparr>\<close> cl w, case_names Panic Done]) auto
  qed (use iteration in blast)+
qed

text \<open>The two services' graphs, in their scripted worlds.\<close>

interpretation watchdog_graph: graph_transducer
  "cycle_graph demo_env (watchdog_step sg) \<lparr>cycle_rx = (), max_batch = mb\<rparr> \<lparr>batch_egress_tx = ()\<rparr>"
  "watchdog_step sg" batch_machine
  "\<lambda>cl. logged_trigger (env_clk demo_env) (env_in demo_env) (ingress_slot cl)" "range Message"
  cycle_events "\<lambda>cl. payload (env_out demo_env) (fsm_slot cl)" "snd \<circ> batch_report"
  sim_arrived sim_taken sim_sent "unat mb"
  for sg mb
  by (rule cycle_graph_transducer [OF demo_service])

interpretation echo_graph: graph_transducer
  "message_graph echo_demo_env (echo_step oc sg) \<lparr>ingress_rx = ()\<rparr> \<lparr>egress_tx = ()\<rparr>"
  "echo_step oc sg" machine
  "\<lambda>cl. logged_trigger (env_clk echo_demo_env) (env_in echo_demo_env) (ingress_slot cl)" UNIV
  trigger_messages "\<lambda>cl. payload (env_out echo_demo_env) (fsm_slot cl)" "snd \<circ> single_report"
  sim_arrived sim_taken sim_sent 1
  for oc sg
  by (rule message_graph_transducer [OF echo_demo_service])

text \<open>Both machines handle every trigger (the echo counter as long as it does not overflow).\<close>

lemma watchdog_total:
  assumes "statig sg"
  shows "watchdog_inv m \<Longrightarrow> \<exists>r. run_all (watchdog_step sg) (map Message cycles) m = Done r"
proof (induction cycles arbitrary: m)
  case (Cons c cycles)
  obtain outs m' where "run_step_all (watchdog_step sg) m (Message c) = Done (outs, m')" "watchdog_inv m'"
    by (rule watchdog_step_total [OF assms Cons.prems])
  with Cons.IH [of m'] show ?case by auto
qed simp

lemma echo_total:
  assumes "statig sg" and "length ts < 2 ^ 64"
  shows "\<exists>r. run_all (echo_step oc sg) ts (echo_machine_default sg) = Done r"
proof -
  have "message_count ts \<le> length ts" by (simp add: message_count_def)
  then have "message_count ts < 2 ^ 64" using assms(2) by simp
  then show ?thesis by (rule echo_fresh_run [OF assms(1)]) blast
qed

section \<open>Properties\<close>

text \<open>
  C12. The \<open>Cycle\<close> pipeline, for every machine that handles as many cycles as the loop has iterations,
  whatever they hold, without a panic, in every world that obeys the laws of the channels: the loop returns, and
  the machine got exactly one cycle per iteration, however much input was queued, each with a reading of
  the clock made in that iteration as its time and as the time of validity of its message. Its
  run over the logged cycles is the log, the messages taken off the inbound channel are the events of
  the cycles in order, the outbound channel gets all outputs in order unless a task reports an error,
  and what had arrived at the start is taken if the loop had enough iterations for it.
\<close>

theorem cycle_pipeline_transduces:
  assumes "service_env env hin hout arrived taken sent"
    and "\<forall>cycles. length cycles = length cls \<longrightarrow> (\<exists>r. run_all step (map Message cycles) m = Done r)"
  shows "\<exists>rss log m' w' cycles outs.
    graph_loop (cycle_graph env step \<lparr>cycle_rx = hin, max_batch = mb\<rparr> \<lparr>batch_egress_tx = hout\<rparr>)
      \<lparr>batch_machine = m\<rparr> cls w = Done (rss, log, \<lparr>batch_machine = m'\<rparr>, w')
    \<and> map (\<lambda>cl. payload (env_in env) (ingress_slot cl)) log = map Some cycles
    \<and> length cycles = length cls
    \<and> cycles_stamped env hin hout w (map ingress_slot log) w'
    \<and> run_all step (map Message cycles) m = Done (outs, m')
    \<and> map (\<lambda>cl. payload (env_out env) (fsm_slot cl)) log
        = map (\<lambda>os. if os = [] then None else Some (Batch os)) outs
    \<and> taken w' = taken w @ concat (map events cycles)
    \<and> ((\<forall>rs \<in> set rss. \<forall>x \<in> set rs. x = Inr ()) \<longrightarrow> sent w' = sent w @ concat outs)
    \<and> (length (arrived w) \<le> length (taken w) + length cls * unat mb \<longrightarrow>
         prefix (arrived w) (taken w'))"
proof -
  let ?graph = "cycle_graph env step \<lparr>cycle_rx = hin, max_batch = mb\<rparr> \<lparr>batch_egress_tx = hout\<rparr>"
  let ?trigger = "\<lambda>cl. logged_trigger (env_clk env) (env_in env) (ingress_slot cl)"
  note T = cycle_graph_transducer [OF assms(1), of step mb]
  have "\<exists>r. run_all step ts m = Done r" if "set ts \<subseteq> range Message" "length ts = length cls" for ts
  proof -
    from that(1) have "\<exists>cycles. ts = map Message cycles" unfolding ex_map_conv by auto
    with assms(2) that(2) show ?thesis by fastforce
  qed
  then obtain rss log s' w'
    where run: "graph_loop ?graph \<lparr>batch_machine = m\<rparr> cls w = Done (rss, log, s', w')"
    using graph_transducer.loop_returns [OF T, of cls "\<lparr>batch_machine = m\<rparr>"] by fastforce
  note tr = graph_transducer.loop_transduces [OF T run]
  have "\<forall>cl \<in> set log. \<exists>c. payload (env_in env) (ingress_slot cl) = Some c \<and> ?trigger cl = Message c"
  proof
    fix cl assume "cl \<in> set log"
    with tr have "?trigger cl \<in> range Message" by blast
    then show "\<exists>c. payload (env_in env) (ingress_slot cl) = Some c \<and> ?trigger cl = Message c"
      by (auto simp: logged_trigger_def split: option.splits)
  qed
  then obtain f where f: "\<forall>cl \<in> set log. payload (env_in env) (ingress_slot cl) = Some (f cl)
      \<and> ?trigger cl = Message (f cl)" by metis
  then have cycles: "map (\<lambda>cl. payload (env_in env) (ingress_slot cl)) log = map Some (map f log)"
    and ts: "map ?trigger log = map Message (map f log)" by simp_all
  have evs: "map (cycle_events \<circ> ?trigger) log = map events (map f log)" using f by simp
  obtain m' where s': "s' = \<lparr>batch_machine = m'\<rparr>" by (cases s') simp
  from tr obtain outs where outs: "run_all step (map ?trigger log) m = Done (outs, m')"
      "map (\<lambda>cl. payload (env_out env) (fsm_slot cl)) log = map (snd \<circ> batch_report) outs"
      "(\<forall>rs \<in> set rss. \<forall>x \<in> set rs. x = Inr ()) \<longrightarrow> sent w' = sent w @ concat outs"
    by (auto simp: s')
  have rep: "(snd \<circ> batch_report) = (\<lambda>os. if os = [] then None else Some (Batch os))"
    by (simp add: batch_report_def fun_eq_iff)
  have "taken w' = taken w @ concat (map events (map f log))"
    using graph_transducer.loop_takes [OF T run] unfolding evs by simp
  moreover have "prefix (arrived w) (taken w')"
    if "length (arrived w) \<le> length (taken w) + length cls * unat mb"
    by (rule graph_transducer.loop_delivers [OF T run _ that]) simp
  moreover have "length (map f log) = length cls" using tr by simp
  ultimately show ?thesis
    using run [unfolded s'] cycle_loop_stamps [OF assms(1) run] cycles outs(1) [unfolded ts]
      outs(2) [unfolded rep] outs(3) by blast
qed

theorem cycle_pipeline_transduces_witness:
  "\<exists>rss log m' w' cycles outs.
    graph_loop (cycle_graph demo_env (watchdog_step leaf_statig) \<lparr>cycle_rx = (), max_batch = 16\<rparr>
        \<lparr>batch_egress_tx = ()\<rparr>) \<lparr>batch_machine = watchdog_machine_default leaf_statig\<rparr>
        demo_copperlists demo_run_world = Done (rss, log, \<lparr>batch_machine = m'\<rparr>, w')
    \<and> length cycles = 4
    \<and> cycles_stamped demo_env () () demo_run_world (map ingress_slot log) w'
    \<and> run_all (watchdog_step leaf_statig) (map Message cycles) (watchdog_machine_default leaf_statig)
        = Done (outs, m')
    \<and> sim_taken w' = concat (map events cycles) \<and> prefix [Feed 0] (sim_taken w')"
proof -
  have total: "\<forall>cycles. length cycles = length demo_copperlists \<longrightarrow>
      (\<exists>r. run_all (watchdog_step leaf_statig) (map Message cycles)
        (watchdog_machine_default leaf_statig) = Done r)"
    using watchdog_total [OF leaf.statig_axioms watchdog_default(1) [OF leaf.statig_axioms]] by blast
  have "length (sim_arrived demo_run_world)
      \<le> length (sim_taken demo_run_world) + length demo_copperlists * unat (16 :: usize)"
    by (simp add: demo_run_world_def sim_arrived_def demo_copperlists_def)
  moreover have "sim_taken demo_run_world = []" "sim_arrived demo_run_world = [Feed 0]"
      "length demo_copperlists = 4"
    by (simp_all add: demo_run_world_def sim_arrived_def demo_copperlists_def)
  ultimately show ?thesis
    using cycle_pipeline_transduces [OF demo_service total, of 16 demo_run_world]
    by (elim exE conjE) (intro exI conjI, assumption, simp_all)
qed

text \<open>The loop of the message graph, for a machine that handles any so many triggers.\<close>

lemma message_loop:
  assumes "service_env env hin hout arrived taken sent"
    and "\<forall>ts. length ts = length cls \<longrightarrow> (\<exists>r. run_all step ts m = Done r)"
  obtains rss log m' w' ts outs where
    "graph_loop (message_graph env step \<lparr>ingress_rx = hin\<rparr> \<lparr>egress_tx = hout\<rparr>) \<lparr>machine = m\<rparr> cls w
       = Done (rss, log, \<lparr>machine = m'\<rparr>, w')"
    "ts = map (\<lambda>cl. logged_trigger (env_clk env) (env_in env) (ingress_slot cl)) log"
    "length ts = length cls" "run_all step ts m = Done (outs, m')"
    "map (\<lambda>cl. payload (env_out env) (fsm_slot cl)) log
       = map (\<lambda>os. if length os = 1 then Some (hd os) else None) outs"
    "taken w' = taken w @ concat (map trigger_messages ts)"
    "(\<forall>rs \<in> set rss. \<forall>x \<in> set rs. x = Inr ()) \<longrightarrow> sent w' = sent w @ concat outs"
    "length (arrived w) \<le> length (taken w) + length cls \<Longrightarrow> prefix (arrived w) (taken w')"
    "length (taken w) + length cls \<le> length (arrived w) \<Longrightarrow>
       \<forall>t \<in> set ts. length (trigger_messages t) = 1"
proof -
  let ?graph = "message_graph env step \<lparr>ingress_rx = hin\<rparr> \<lparr>egress_tx = hout\<rparr>"
  let ?trigger = "\<lambda>cl. logged_trigger (env_clk env) (env_in env) (ingress_slot cl)"
  note T = message_graph_transducer [OF assms(1), of step]
  obtain rss log s' w' where run: "graph_loop ?graph \<lparr>machine = m\<rparr> cls w = Done (rss, log, s', w')"
    using graph_transducer.loop_returns [OF T, of cls "\<lparr>machine = m\<rparr>"] assms(2) by fastforce
  obtain m' where s': "s' = \<lparr>machine = m'\<rparr>" by (cases s') simp
  note tr = graph_transducer.loop_transduces [OF T run]
  from tr obtain outs where outs: "run_all step (map ?trigger log) m = Done (outs, m')"
      "map (\<lambda>cl. payload (env_out env) (fsm_slot cl)) log = map (snd \<circ> single_report) outs"
      "(\<forall>rs \<in> set rss. \<forall>x \<in> set rs. x = Inr ()) \<longrightarrow> sent w' = sent w @ concat outs"
    by (auto simp: s')
  show thesis
  proof (rule that [OF run [unfolded s'] refl _ outs(1) _ _ outs(3)])
    show "length (map ?trigger log) = length cls" using tr by simp
    show "map (\<lambda>cl. payload (env_out env) (fsm_slot cl)) log
       = map (\<lambda>os. if length os = 1 then Some (hd os) else None) outs"
      unfolding outs(2) by (simp add: single_report_def)
    show "taken w' = taken w @ concat (map trigger_messages (map ?trigger log))"
      using graph_transducer.loop_takes [OF T run] by (simp add: comp_def)
    show "prefix (arrived w) (taken w')" if "length (arrived w) \<le> length (taken w) + length cls"
      by (rule graph_transducer.loop_delivers [OF T run]) (use that in simp_all)
    show "\<forall>t \<in> set (map ?trigger log). length (trigger_messages t) = 1"
      if "length (taken w) + length cls \<le> length (arrived w)"
      using graph_transducer.loop_saturated [OF T run] that by simp
  qed
qed

text \<open>
  C13. The message pipeline, for every machine that handles as many triggers as the loop has iterations
  without a panic, in every world that obeys the laws of the channels: the loop returns, each iteration is one trigger, the log
  is the machine's run over the logged triggers, the messages taken off the inbound channel are those
  of the triggers, one at most per iteration, in order, and the outbound channel gets all outputs in
  order unless a task reports an error (a second output of a step among them).
\<close>

theorem message_pipeline_transduces:
  assumes "service_env env hin hout arrived taken sent"
    and "\<forall>ts. length ts = length cls \<longrightarrow> (\<exists>r. run_all step ts m = Done r)"
  shows "\<exists>rss log m' w' ts outs.
    graph_loop (message_graph env step \<lparr>ingress_rx = hin\<rparr> \<lparr>egress_tx = hout\<rparr>) \<lparr>machine = m\<rparr> cls w
      = Done (rss, log, \<lparr>machine = m'\<rparr>, w')
    \<and> map (\<lambda>cl. logged_trigger (env_clk env) (env_in env) (ingress_slot cl)) log = ts
    \<and> length ts = length cls
    \<and> run_all step ts m = Done (outs, m')
    \<and> map (\<lambda>cl. payload (env_out env) (fsm_slot cl)) log
        = map (\<lambda>os. if length os = 1 then Some (hd os) else None) outs
    \<and> taken w' = taken w @ concat (map trigger_messages ts)
    \<and> ((\<forall>rs \<in> set rss. \<forall>x \<in> set rs. x = Inr ()) \<longrightarrow> sent w' = sent w @ concat outs)
    \<and> (length (arrived w) \<le> length (taken w) + length cls \<longrightarrow> prefix (arrived w) (taken w'))"
  by (rule message_loop [OF assms, of w])
    (intro exI conjI, assumption, rule sym, assumption+, rule impI, blast)

theorem message_pipeline_transduces_witness:
  "\<exists>rss log m' w' ts outs.
    graph_loop (message_graph echo_demo_env (echo_step True leaf_statig) \<lparr>ingress_rx = ()\<rparr>
        \<lparr>egress_tx = ()\<rparr>) \<lparr>machine = echo_machine_default leaf_statig\<rparr>
        echo_demo_copperlists echo_demo_world = Done (rss, log, \<lparr>machine = m'\<rparr>, w')
    \<and> length ts = 6
    \<and> run_all (echo_step True leaf_statig) ts (echo_machine_default leaf_statig) = Done (outs, m')
    \<and> sim_taken w' = concat (map trigger_messages ts)"
proof -
  have "sim_taken echo_demo_world = []" by (simp add: echo_demo_world_def)
  moreover have total: "\<forall>ts. length ts = length echo_demo_copperlists \<longrightarrow>
      (\<exists>r. run_all (echo_step True leaf_statig) ts (echo_machine_default leaf_statig) = Done r)"
    using echo_total [OF leaf.statig_axioms] by simp
  ultimately show ?thesis
    using message_pipeline_transduces [OF echo_demo_service total, of echo_demo_world]
    by (elim exE conjE) (intro exI conjI, assumption, simp_all)
qed

text \<open>
  C14. Why the message pipeline is not for deadlines: while as many messages are queued as the loop has
  iterations, the machine sees a message in every iteration and no tick at all, so it is never told
  the time. (In the \<open>Cycle\<close> pipeline it is told the time in every iteration, whatever is queued.)
\<close>

theorem sustained_input_starves_ticks:
  assumes "service_env env hin hout arrived taken sent"
    and "\<forall>ts. length ts = length cls \<longrightarrow> (\<exists>r. run_all step ts m = Done r)"
    and "length (taken w) + length cls \<le> length (arrived w)"
  shows "\<exists>rss log m' w' msgs outs.
    graph_loop (message_graph env step \<lparr>ingress_rx = hin\<rparr> \<lparr>egress_tx = hout\<rparr>) \<lparr>machine = m\<rparr> cls w
      = Done (rss, log, \<lparr>machine = m'\<rparr>, w')
    \<and> map (\<lambda>cl. payload (env_in env) (ingress_slot cl)) log = map Some msgs
    \<and> length msgs = length cls
    \<and> run_all step (map Message msgs) m = Done (outs, m')
    \<and> taken w' = taken w @ msgs"
proof (rule message_loop [OF assms(1,2), of w])
  fix rss log m' w' ts outs
  let ?trigger = "\<lambda>cl. logged_trigger (env_clk env) (env_in env) (ingress_slot cl)"
  assume run: "graph_loop (message_graph env step \<lparr>ingress_rx = hin\<rparr> \<lparr>egress_tx = hout\<rparr>) \<lparr>machine = m\<rparr> cls w
      = Done (rss, log, \<lparr>machine = m'\<rparr>, w')"
    and ts: "ts = map ?trigger log" "length ts = length cls" "run_all step ts m = Done (outs, m')"
      "taken w' = taken w @ concat (map trigger_messages ts)"
    and full: "length (taken w) + length cls \<le> length (arrived w) \<Longrightarrow>
      \<forall>t \<in> set ts. length (trigger_messages t) = 1"
  have "\<forall>cl \<in> set log. \<exists>v. payload (env_in env) (ingress_slot cl) = Some v \<and> ?trigger cl = Message v"
  proof
    fix cl assume "cl \<in> set log"
    with full [OF assms(3)] ts(1) have "length (trigger_messages (?trigger cl)) = 1" by simp
    then show "\<exists>v. payload (env_in env) (ingress_slot cl) = Some v \<and> ?trigger cl = Message v"
      by (auto simp: logged_trigger_def split: option.splits)
  qed
  then obtain f where f: "\<forall>cl \<in> set log. payload (env_in env) (ingress_slot cl) = Some (f cl)
      \<and> ?trigger cl = Message (f cl)" by metis
  then have "map (\<lambda>cl. payload (env_in env) (ingress_slot cl)) log = map Some (map f log)"
    and m: "ts = map Message (map f log)" by (simp_all add: ts(1))
  moreover have "concat (map trigger_messages ts) = map f log"
    unfolding m by (induction log) simp_all
  moreover have "length (map f log) = length cls" using ts(1,2) by simp
  ultimately show ?thesis using run ts(3,4) by metis
qed

theorem sustained_input_starves_ticks_witness:
  "\<exists>rss log m' w' msgs outs.
    graph_loop (message_graph echo_demo_env (echo_step True leaf_statig) \<lparr>ingress_rx = ()\<rparr>
        \<lparr>egress_tx = ()\<rparr>) \<lparr>machine = echo_machine_default leaf_statig\<rparr>
        (take 2 echo_demo_copperlists) echo_demo_world = Done (rss, log, \<lparr>machine = m'\<rparr>, w')
    \<and> length msgs = 2
    \<and> run_all (echo_step True leaf_statig) (map Message msgs) (echo_machine_default leaf_statig)
        = Done (outs, m')
    \<and> sim_taken w' = msgs"
proof -
  have total: "\<forall>ts. length ts = length (take 2 echo_demo_copperlists) \<longrightarrow>
      (\<exists>r. run_all (echo_step True leaf_statig) ts (echo_machine_default leaf_statig) = Done r)"
    using echo_total [OF leaf.statig_axioms] by simp
  have full: "length (sim_taken echo_demo_world) + length (take 2 echo_demo_copperlists)
      \<le> length (sim_arrived echo_demo_world)"
    by (simp add: echo_demo_world_def sim_arrived_def)
  have "sim_taken echo_demo_world = []" by (simp add: echo_demo_world_def)
  then show ?thesis
    using sustained_input_starves_ticks [OF echo_demo_service total full]
    by (elim exE conjE) (intro exI conjI, assumption, simp_all)
qed

end
