(* ===== verification/Bridge.thy ===== *)
theory Bridge
  imports Dag
begin

text \<open>
  The bridge between the DAG and a spawned transport (\<open>crates/msrs-transport/src/driver.rs\<close>), with both
  sides running: the two crossbeam channels that \<open>TransportDriver\<close> creates, the transport as a program
  that makes one atomic step at a time on its own thread, and the operations of the DAG side. Before
  each operation of the DAG thread the transport makes the steps that a schedule prescribes, so
  quantifying over schedules quantifies over all interleavings. A transport whose steps respect the
  channels (\<open>transport_thread\<close>) makes this a \<open>dag_world\<close>, and all that is proved about the tasks over
  the laws of the channels holds of the concurrent run.
\<close>

section \<open>The two channels\<close>

text \<open>
  Inbound: the messages on their way to the DAG, those it took, whether its receiver is alive, and
  the capacity of the channel (\<open>None\<close>: unbounded). Outbound: the messages on their way to the
  transport, those it took, and whether the DAG's sender is alive. A bounded channel has room for
  at least one message.
\<close>

record ('i, 'o) bridge =
  in_queue :: "'i list"
  in_taken :: "'i list"
  in_alive :: bool
  in_capacity :: "nat option"
  out_queue :: "'o list"
  out_got :: "'o list"
  out_alive :: bool

definition new_bridge :: "nat option \<Rightarrow> ('i, 'o) bridge" where
  "new_bridge cap =
     \<lparr>in_queue = [], in_taken = [], in_alive = True, in_capacity = cap,
      out_queue = [], out_got = [], out_alive = True\<rparr>"

text \<open>
  The transport's operations. \<open>send\<close> fails when the receiver is gone and blocks while the channel is
  full; \<open>try_send\<close> fails in both cases. \<open>recv\<close> takes what is queued also after the sender is gone,
  and fails only when the queue is empty and the sender gone; it blocks on an empty queue.
\<close>

datatype ('i, 'o) sending = Sent "('i, 'o) bridge" | Send_Full | Send_Closed

datatype ('i, 'o) receiving = Received 'o "('i, 'o) bridge" | Recv_Empty | Recv_Closed

definition bridge_send :: "'i \<Rightarrow> ('i, 'o) bridge \<Rightarrow> ('i, 'o) sending" where
  "bridge_send v b =
     (if \<not> in_alive b then Send_Closed
      else (case in_capacity b of
              None \<Rightarrow> Sent (b\<lparr>in_queue := in_queue b @ [v]\<rparr>)
            | Some n \<Rightarrow> if n \<le> length (in_queue b) then Send_Full
                        else Sent (b\<lparr>in_queue := in_queue b @ [v]\<rparr>)))"

definition bridge_recv :: "('i, 'o) bridge \<Rightarrow> ('i, 'o) receiving" where
  "bridge_recv b =
     (case out_queue b of
        v # q \<Rightarrow> Received v (b\<lparr>out_queue := q, out_got := out_got b @ [v]\<rparr>)
      | [] \<Rightarrow> if out_alive b then Recv_Empty else Recv_Closed)"

text \<open>What \<open>Display\<close> prints for a \<open>SendError\<close>.\<close>

definition send_error_text :: string where
  "send_error_text = ''sending on a disconnected channel''"

section \<open>A transport as a program\<close>

text \<open>
  \<open>advance\<close> makes the next atomic step of the transport for a choice of the scheduler (which of its
  threads moves, or that a timeout expires); a thread that blocks stays where it is. \<open>listening\<close>:
  the receiver \<open>rx_out\<close> has not been dropped yet.
\<close>

record ('p, 'c, 'i, 'o) transport_program =
  advance :: "'c \<Rightarrow> 'p \<Rightarrow> ('i, 'o) bridge \<Rightarrow> 'p \<times> ('i, 'o) bridge"
  listening :: "'p \<Rightarrow> bool"

text \<open>What a transport can do to the channels: send inbound and take outbound messages.\<close>

definition transport_move :: "('i, 'o) bridge \<Rightarrow> ('i, 'o) bridge \<Rightarrow> bool" where
  "transport_move b b' \<longleftrightarrow>
     in_taken b' = in_taken b \<and> prefix (in_queue b) (in_queue b')
   \<and> out_got b' @ out_queue b' = out_got b @ out_queue b \<and> prefix (out_got b) (out_got b')
   \<and> in_alive b' = in_alive b \<and> out_alive b' = out_alive b \<and> in_capacity b' = in_capacity b"

lemma transport_move_refl [simp]: "transport_move b b"
  by (simp add: transport_move_def)

lemma transport_move_trans [trans]:
  "transport_move a b \<Longrightarrow> transport_move b c \<Longrightarrow> transport_move a c"
  by (auto simp: transport_move_def intro: prefix_order.trans)

lemma bridge_send_move [intro]: "bridge_send v b = Sent b' \<Longrightarrow> transport_move b b'"
  by (auto simp: bridge_send_def transport_move_def split: if_splits option.splits)

lemma bridge_recv_move [intro]: "bridge_recv b = Received v b' \<Longrightarrow> transport_move b b'"
  by (auto simp: bridge_recv_def transport_move_def split: if_splits list.splits)

primrec run_thread ::
    "('p, 'c, 'i, 'o) transport_program \<Rightarrow> 'c list \<Rightarrow> 'p \<Rightarrow> ('i, 'o) bridge \<Rightarrow> 'p \<times> ('i, 'o) bridge"
  where
  "run_thread tp [] p b = (p, b)"
| "run_thread tp (c # cs) p b = (let (p, b) = advance tp c p b in run_thread tp cs p b)"

lemma run_thread_append:
  "run_thread tp (cs @ cs') p b = (case run_thread tp cs p b of (p, b) \<Rightarrow> run_thread tp cs' p b)"
  by (induction cs arbitrary: p b) (simp_all add: split_def Let_def)

section \<open>The DAG side\<close>

text \<open>
  The world of the DAG thread: where the transport is, the channels, the schedule still to come, and
  a clock with arbitrary readings.
\<close>

record ('p, 'c, 'i, 'o) bridged =
  thread :: 'p
  chan :: "('i, 'o) bridge"
  schedule :: "'c list list"
  readings :: "nat \<Rightarrow> u64"
  clock_count :: nat

definition thread_turn ::
    "('p, 'c, 'i, 'o) transport_program \<Rightarrow> ('p, 'c, 'i, 'o) bridged \<Rightarrow> ('p, 'c, 'i, 'o) bridged" where
  "thread_turn tp w =
     (case schedule w of
        [] \<Rightarrow> w
      | cs # rest \<Rightarrow>
          let (p, b) = run_thread tp cs (thread w) (chan w)
          in w\<lparr>thread := p, chan := b, schedule := rest\<rparr>)"

definition bridged_try_recv ::
    "('p, 'c, 'i, 'o) transport_program \<Rightarrow> unit \<Rightarrow> ('p, 'c, 'i, 'o) bridged \<Rightarrow>
     (unit + 'i) \<times> ('p, 'c, 'i, 'o) bridged" where
  "bridged_try_recv tp h w =
     (let w = thread_turn tp w; b = chan w in
      (case in_queue b of
         [] \<Rightarrow> (Inl (), w)
       | v # q \<Rightarrow> (Inr v, w\<lparr>chan := b\<lparr>in_queue := q, in_taken := in_taken b @ [v]\<rparr>\<rparr>)))"

definition bridged_len ::
    "('p, 'c, 'i, 'o) transport_program \<Rightarrow> unit \<Rightarrow> ('p, 'c, 'i, 'o) bridged \<Rightarrow>
     usize \<times> ('p, 'c, 'i, 'o) bridged" where
  "bridged_len tp h w = (let w = thread_turn tp w in (of_nat (length (in_queue (chan w))), w))"

definition bridged_now ::
    "('p, 'c, 'i, 'o) transport_program \<Rightarrow> ('p, 'c, 'i, 'o) bridged \<Rightarrow> u64 \<times> ('p, 'c, 'i, 'o) bridged"
  where
  "bridged_now tp w =
     (let w = thread_turn tp w in
      (readings w (clock_count w), w\<lparr>clock_count := Suc (clock_count w)\<rparr>))"

definition bridged_send ::
    "('p, 'c, 'i, 'o) transport_program \<Rightarrow> unit \<Rightarrow> 'o \<Rightarrow> ('p, 'c, 'i, 'o) bridged \<Rightarrow>
     (unit + unit) \<times> ('p, 'c, 'i, 'o) bridged" where
  "bridged_send tp h v w =
     (let w = thread_turn tp w; b = chan w in
      if listening tp (thread w) then (Inr (), w\<lparr>chan := b\<lparr>out_queue := out_queue b @ [v]\<rparr>\<rparr>)
      else (Inl (), w))"

definition bridged_rx ::
    "('p, 'c, 'i, 'o) transport_program \<Rightarrow> (('p, 'c, 'i, 'o) bridged, unit, 'i, unit) rx_api" where
  "bridged_rx tp = \<lparr>try_recv = bridged_try_recv tp, rx_len = bridged_len tp\<rparr>"

definition bridged_tx ::
    "('p, 'c, 'i, 'o) transport_program \<Rightarrow> (('p, 'c, 'i, 'o) bridged, unit, 'o, unit) tx_api" where
  "bridged_tx tp = \<lparr>send = bridged_send tp, send_error_to_string = (\<lambda>_. send_error_text)\<rparr>"

definition bridged_clk ::
    "('p, 'c, 'i, 'o) transport_program \<Rightarrow> (('p, 'c, 'i, 'o) bridged, u64, u64 \<times> u64) clock_api" where
  "bridged_clk tp = \<lparr>now = bridged_now tp, as_nanos = (\<lambda>t. t), range_start = fst\<rparr>"

definition bridged_taken :: "('p, 'c, 'i, 'o) bridged \<Rightarrow> 'i list" where
  "bridged_taken w = in_taken (chan w)"

definition bridged_arrived :: "('p, 'c, 'i, 'o) bridged \<Rightarrow> 'i list" where
  "bridged_arrived w = in_taken (chan w) @ in_queue (chan w)"

definition bridged_sent :: "('p, 'c, 'i, 'o) bridged \<Rightarrow> 'o list" where
  "bridged_sent w = out_got (chan w) @ out_queue (chan w)"

text \<open>The DAG end of the bridge goes away when the application is dropped.\<close>

definition drop_application :: "('p, 'c, 'i, 'o) bridged \<Rightarrow> ('p, 'c, 'i, 'o) bridged" where
  "drop_application w = w\<lparr>chan := (chan w)\<lparr>in_alive := False, out_alive := False\<rparr>\<rparr>"

lemmas bridged_defs =
  bridged_rx_def bridged_tx_def bridged_clk_def bridged_try_recv_def bridged_len_def
  bridged_now_def bridged_send_def bridged_taken_def bridged_arrived_def bridged_sent_def Let_def

section \<open>Every transport gives the DAG its world\<close>

locale transport_thread =
  fixes tp :: "('p, 'c, 'i, 'o) transport_program"
  assumes moves: "advance tp c p b = (p', b') \<Longrightarrow> transport_move b b'"
begin

lemma run_thread_move: "run_thread tp cs p b = (p', b') \<Longrightarrow> transport_move b b'"
proof (induction cs arbitrary: p b)
  case (Cons c cs)
  obtain p1 b1 where s: "advance tp c p b = (p1, b1)" by (metis prod.exhaust)
  with Cons.prems have "run_thread tp cs p1 b1 = (p', b')" by simp
  from transport_move_trans [OF moves [OF s] Cons.IH [OF this]] show ?case .
qed simp

lemma thread_turn_move: "transport_move (chan w) (chan (thread_turn tp w))"
  by (auto simp: thread_turn_def Let_def split: list.split prod.split dest: run_thread_move)

lemma thread_turn_same [simp]:
  "in_taken (chan (thread_turn tp w)) = in_taken (chan w)"
  "out_got (chan (thread_turn tp w)) @ out_queue (chan (thread_turn tp w))
     = out_got (chan w) @ out_queue (chan w)"
  "prefix (in_queue (chan w)) (in_queue (chan (thread_turn tp w)))"
  "in_alive (chan (thread_turn tp w)) = in_alive (chan w)"
  "out_alive (chan (thread_turn tp w)) = out_alive (chan w)"
  using thread_turn_move [of w] by (simp_all add: transport_move_def)

lemma thread_turn_queue:
  "in_queue (chan (thread_turn tp w)) = q \<Longrightarrow> prefix (in_queue (chan w)) q"
  using thread_turn_same(3) [of w] by simp

end

sublocale transport_thread \<subseteq> dag: dag_world "bridged_rx tp" "bridged_clk tp" "()" bridged_arrived
    bridged_taken "bridged_tx tp" "()" bridged_sent
proof
  fix w v w' e
  show "prefix (bridged_taken w) (bridged_arrived w)"
    by (simp add: bridged_defs)
qed (auto simp: bridged_defs split: list.splits if_splits dest: thread_turn_queue)

definition bridged_env ::
    "('p, 'c, 'i, 'o) transport_program \<Rightarrow> ('mi, 'pi, u64, u64 \<times> u64) msg_api \<Rightarrow>
     ('mo, 'po, u64, u64 \<times> u64) msg_api \<Rightarrow>
     (('p, 'c, 'i, 'o) bridged, unit, 'i, unit, 'o, unit, u64, u64 \<times> u64, 'mi, 'pi, 'mo, 'po) dag_env"
  where
  "bridged_env tp im om =
     \<lparr>env_clk = bridged_clk tp, env_rx = bridged_rx tp, env_tx = bridged_tx tp, env_in = im,
      env_out = om\<rparr>"

lemma bridged_env_simps [simp]:
  "env_clk (bridged_env tp im om) = bridged_clk tp"
  "env_rx (bridged_env tp im om) = bridged_rx tp"
  "env_tx (bridged_env tp im om) = bridged_tx tp"
  "env_in (bridged_env tp im om) = im"
  "env_out (bridged_env tp im om) = om"
  by (simp_all add: bridged_env_def)

context transport_thread
begin

lemma bridged_service:
  assumes "cu_msg im" and "cu_msg om"
  shows "service_env (bridged_env tp im om) () () bridged_arrived bridged_taken bridged_sent"
  using assms dag.dag_world_axioms by (simp add: service_env_def slot_env_def)

end

section \<open>Invariants of a transport\<close>

text \<open>
  A property of a transport's position and the channels that its own steps keep, and the DAG taking
  an inbound message or sending an outbound one. It may rest on the pace of the transport: only the
  choices of the scheduler in \<open>allowed\<close> need keep it, and a schedule is \<open>on_pace\<close> when it makes no other.
\<close>

definition on_pace :: "'c set \<Rightarrow> ('p, 'c, 'i, 'o) bridged \<Rightarrow> bool" where
  "on_pace allowed w \<longleftrightarrow> (\<forall>cs \<in> set (schedule w). set cs \<subseteq> allowed)"

lemma on_pace_UNIV [simp]: "on_pace UNIV w"
  by (simp add: on_pace_def)

lemma on_pace_chan [simp]: "on_pace A (w\<lparr>chan := b\<rparr>) = on_pace A w"
  by (simp add: on_pace_def)

lemma on_pace_clock [simp]: "on_pace A (w\<lparr>clock_count := n\<rparr>) = on_pace A w"
  by (simp add: on_pace_def)

lemma on_pace_turn: "on_pace A w \<Longrightarrow> on_pace A (thread_turn tp w)"
  by (auto simp: on_pace_def thread_turn_def Let_def split: list.split prod.split)

locale paced_invariant = transport_thread tp
  for tp :: "('p, 'c, 'i, 'o) transport_program" +
  fixes allowed :: "'c set" and J :: "'p \<Rightarrow> ('i, 'o) bridge \<Rightarrow> bool"
  assumes advance_J: "c \<in> allowed \<Longrightarrow> J p b \<Longrightarrow> advance tp c p b = (p', b') \<Longrightarrow> J p' b'"
    and take_J: "J p b \<Longrightarrow> in_queue b = v # q \<Longrightarrow>
      J p (b\<lparr>in_queue := q, in_taken := in_taken b @ [v]\<rparr>)"
    and send_J: "J p b \<Longrightarrow> listening tp p \<Longrightarrow> J p (b\<lparr>out_queue := out_queue b @ [v']\<rparr>)"
begin

lemma run_thread_J: "set cs \<subseteq> allowed \<Longrightarrow> J p b \<Longrightarrow> run_thread tp cs p b = (p', b') \<Longrightarrow> J p' b'"
proof (induction cs arbitrary: p b)
  case (Cons c cs)
  obtain p1 b1 where s: "advance tp c p b = (p1, b1)" by (metis prod.exhaust)
  have "c \<in> allowed" "set cs \<subseteq> allowed" using Cons.prems(1) by simp_all
  with Cons.prems(3) Cons.IH [OF _ advance_J [OF _ Cons.prems(2) s]] s show ?case by simp
qed simp

lemma thread_turn_J:
  assumes "on_pace allowed w" and "J (thread w) (chan w)"
  shows "J (thread (thread_turn tp w)) (chan (thread_turn tp w))"
proof (cases "schedule w")
  case (Cons cs rest)
  obtain p b where r: "run_thread tp cs (thread w) (chan w) = (p, b)" by (metis prod.exhaust)
  from Cons assms(1) have "set cs \<subseteq> allowed" by (simp add: on_pace_def)
  from run_thread_J [OF this assms(2) r] Cons r show ?thesis by (simp add: thread_turn_def)
qed (use assms in \<open>simp add: thread_turn_def\<close>)

end

sublocale paced_invariant \<subseteq> paced: world_invariant "bridged_clk tp" "bridged_rx tp" "()"
    "bridged_tx tp" "()" "\<lambda>w. on_pace allowed w \<and> J (thread w) (chan w)"
  by unfold_locales
    (auto simp: bridged_defs simp del: thread_turn_same split: list.splits if_splits
      intro: take_J send_J on_pace_turn dest: thread_turn_J)

text \<open>An invariant that needs no pace.\<close>

locale transport_invariant = paced_invariant tp UNIV J
  for tp :: "('p, 'c, 'i, 'o) transport_program"
    and J :: "'p \<Rightarrow> ('i, 'o) bridge \<Rightarrow> bool"

sublocale transport_invariant \<subseteq> world: world_invariant "bridged_clk tp" "bridged_rx tp" "()"
    "bridged_tx tp" "()" "\<lambda>w. J (thread w) (chan w)"
proof
  fix w r w' assume "J (thread w) (chan w)" "try_recv (bridged_rx tp) () w = (r, w')"
  then show "J (thread w') (chan w')" using paced.recv_inv [of w r w'] by simp
next
  fix w n w' assume "J (thread w) (chan w)" "rx_len (bridged_rx tp) () w = (n, w')"
  then show "J (thread w') (chan w')" using paced.len_inv [of w n w'] by simp
next
  fix w t w' assume "J (thread w) (chan w)" "now (bridged_clk tp) w = (t, w')"
  then show "J (thread w') (chan w')" using paced.now_inv [of w t w'] by simp
next
  fix w v q w' assume "J (thread w) (chan w)" "send (bridged_tx tp) () v w = (q, w')"
  then show "J (thread w') (chan w')" using paced.send_inv [of w v q w'] by simp
qed

text \<open>A transport that, while the invariant holds, has not dropped its receiver.\<close>

locale listening_transport = transport_invariant +
  assumes listens: "J p b \<Longrightarrow> listening tp p"

sublocale listening_transport \<subseteq> sends: world_sends "bridged_clk tp" "bridged_rx tp" "()"
    "bridged_tx tp" "()" "\<lambda>w. J (thread w) (chan w)"
  by unfold_locales
    (auto simp: bridged_defs split: if_splits dest: thread_turn_J [OF on_pace_UNIV] listens)

text \<open>A transport whose receiver, once dropped, stays dropped: the outbound channel closes for good.\<close>

locale quitting_transport = transport_thread +
  assumes quits: "advance tp c p b = (p', b') \<Longrightarrow> \<not> listening tp p \<Longrightarrow> \<not> listening tp p'"

sublocale quitting_transport \<subseteq> quit: transport_invariant tp "\<lambda>p b. \<not> listening tp p"
  by unfold_locales (auto dest: quits)

sublocale quitting_transport \<subseteq> closes: world_closes "bridged_clk tp" "bridged_rx tp" "()"
    "bridged_tx tp" "()" "\<lambda>w. \<not> listening tp (thread w)"
  by unfold_locales
    (auto simp: bridged_defs split: if_splits dest: quit.thread_turn_J [OF on_pace_UNIV])

section \<open>Everything the DAG side can do\<close>

text \<open>
  The worlds a DAG thread can reach with any sequence of operations on the ends it holds: the
  receiver and the sender, each until it drops it. Before each operation the transport makes the
  turns the schedule gives it, and it may make turns while the DAG thread does something else.
\<close>

definition drop_sender :: "('p, 'c, 'i, 'o) bridged \<Rightarrow> ('p, 'c, 'i, 'o) bridged" where
  "drop_sender w = w\<lparr>chan := (chan w)\<lparr>out_alive := False\<rparr>\<rparr>"

definition drop_receiver :: "('p, 'c, 'i, 'o) bridged \<Rightarrow> ('p, 'c, 'i, 'o) bridged" where
  "drop_receiver w = w\<lparr>chan := (chan w)\<lparr>in_alive := False\<rparr>\<rparr>"

inductive dag_reach ::
    "('p, 'c, 'i, 'o) transport_program \<Rightarrow> ('p, 'c, 'i, 'o) bridged \<Rightarrow> ('p, 'c, 'i, 'o) bridged \<Rightarrow> bool"
  for tp :: "('p, 'c, 'i, 'o) transport_program" and w0 :: "('p, 'c, 'i, 'o) bridged" where
  dag_start: "dag_reach tp w0 w0"
| dag_turn: "dag_reach tp w0 w \<Longrightarrow> dag_reach tp w0 (thread_turn tp w)"
| dag_recv: "dag_reach tp w0 w \<Longrightarrow> in_alive (chan w) \<Longrightarrow> bridged_try_recv tp () w = (res, w') \<Longrightarrow>
    dag_reach tp w0 w'"
| dag_len: "dag_reach tp w0 w \<Longrightarrow> in_alive (chan w) \<Longrightarrow> bridged_len tp () w = (n, w') \<Longrightarrow>
    dag_reach tp w0 w'"
| dag_now: "dag_reach tp w0 w \<Longrightarrow> bridged_now tp w = (t, w') \<Longrightarrow> dag_reach tp w0 w'"
| dag_send: "dag_reach tp w0 w \<Longrightarrow> out_alive (chan w) \<Longrightarrow> bridged_send tp () v w = (q, w') \<Longrightarrow>
    dag_reach tp w0 w'"
| dag_drop_sender: "dag_reach tp w0 w \<Longrightarrow> dag_reach tp w0 (drop_sender w)"
| dag_drop_receiver: "dag_reach tp w0 w \<Longrightarrow> dag_reach tp w0 (drop_receiver w)"

text \<open>An invariant that also survives the drop of either end holds in all of them.\<close>

locale dropping_invariant = transport_invariant +
  assumes drop_out: "J p b \<Longrightarrow> J p (b\<lparr>out_alive := False\<rparr>)"
    and drop_in: "J p b \<Longrightarrow> J p (b\<lparr>in_alive := False\<rparr>)"
begin

lemma dag_reach_J:
  assumes "dag_reach tp w0 w" and "J (thread w0) (chan w0)"
  shows "J (thread w) (chan w)"
  using assms
proof induction
  case (dag_turn w)
  then show ?case using thread_turn_J [OF on_pace_UNIV] by simp
next
  case (dag_recv w res w')
  then show ?case using world.recv_inv [of w res w'] by (simp add: bridged_rx_def)
next
  case (dag_len w n w')
  then show ?case using world.len_inv [of w n w'] by (simp add: bridged_rx_def)
next
  case (dag_now w t w')
  then show ?case using world.now_inv [of w t w'] by (simp add: bridged_clk_def)
next
  case (dag_send w v q w')
  then show ?case using world.send_inv [of w v q w'] by (simp add: bridged_tx_def)
qed (simp_all add: drop_sender_def drop_receiver_def drop_out drop_in)

end

end
