(* ===== verification/Echo_App.thy ===== *)
theory Echo_App
  imports Echo_Service Bridge
begin

text \<open>
  \<open>examples/echo/src/main.rs\<close> as a whole: the \<open>Feeder\<close> transport, \<open>run_live\<close> from spawning it to
  collecting the echoes, and \<open>main\<close> with its final \<open>diff\<close>. The DAG thread, the driver thread and the
  timeouts of both sides interleave by an arbitrary schedule.
\<close>

section \<open>\<open>Feeder\<close>\<close>

text \<open>
  Where \<open>run\<close> is: the messages still to send, the number of echoes still to receive, an echo to
  forward to \<open>main\<close> and how many follow it, or returned. \<open>Deadline\<close> lets the five seconds of
  \<open>recv_timeout\<close> expire, which has an effect only while nothing is queued.
\<close>

datatype feeder_pc =
    Feeder_Send "string list"
  | Feeder_Await nat
  | Feeder_Deliver string nat
  | Feeder_End "string + unit"

datatype feeder_turn = Go | Deadline

record feeder =
  feeder_inputs :: "string list"
  feeder_pc :: feeder_pc
  echo_queue :: "string list"
  echo_results_alive :: bool

definition feeder_start :: "string list \<Rightarrow> feeder" where
  "feeder_start inputs =
     \<lparr>feeder_inputs = inputs, feeder_pc = Feeder_Send inputs, echo_queue = [],
      echo_results_alive = True\<rparr>"

definition feeder_advance ::
    "feeder_turn \<Rightarrow> feeder \<Rightarrow> (echo_msg, echo_msg) bridge \<Rightarrow> feeder \<times> (echo_msg, echo_msg) bridge"
  where
  "feeder_advance c p b =
     (case feeder_pc p of
        Feeder_Send [] \<Rightarrow> (p\<lparr>feeder_pc := Feeder_Await (length (feeder_inputs p))\<rparr>, b)
      | Feeder_Send (msg # msgs) \<Rightarrow>
          (case bridge_send (echo_msg_new msg) b of
             Sent b \<Rightarrow> (p\<lparr>feeder_pc := Feeder_Send msgs\<rparr>, b)
           | Send_Full \<Rightarrow> (p, b)
           | Send_Closed \<Rightarrow> (p\<lparr>feeder_pc := Feeder_End (Inl send_error_text)\<rparr>, b))
      | Feeder_Await 0 \<Rightarrow> (p\<lparr>feeder_pc := Feeder_End (Inr ())\<rparr>, b)
      | Feeder_Await (Suc k) \<Rightarrow>
          (case bridge_recv b of
             Received echoed b \<Rightarrow> (p\<lparr>feeder_pc := Feeder_Deliver (echo_text echoed) k\<rparr>, b)
           | Recv_Empty \<Rightarrow>
               if c = Deadline
               then (p\<lparr>feeder_pc := Feeder_End (Inl ''timed out waiting for echo'')\<rparr>, b)
               else (p, b)
           | Recv_Closed \<Rightarrow>
               (p\<lparr>feeder_pc := Feeder_End (Inl ''timed out waiting for echo'')\<rparr>, b))
      | Feeder_Deliver body k \<Rightarrow>
          if echo_results_alive p
          then (p\<lparr>feeder_pc := Feeder_Await k, echo_queue := echo_queue p @ [body]\<rparr>, b)
          else (p\<lparr>feeder_pc := Feeder_End (Inl send_error_text)\<rparr>, b)
      | Feeder_End r \<Rightarrow> (p, b))"

definition feeder_listening :: "feeder \<Rightarrow> bool" where
  "feeder_listening p = (case feeder_pc p of Feeder_End r \<Rightarrow> False | _ \<Rightarrow> True)"

definition feeder_program :: "(feeder, feeder_turn, echo_msg, echo_msg) transport_program" where
  "feeder_program = \<lparr>advance = feeder_advance, listening = feeder_listening\<rparr>"

section \<open>\<open>run_live\<close>\<close>

type_synonym echo_world = "(feeder, feeder_turn, echo_msg, echo_msg) bridged"

definition echo_world_start ::
    "string list \<Rightarrow> feeder_turn list list \<Rightarrow> (nat \<Rightarrow> u64) \<Rightarrow> echo_world" where
  "echo_world_start inputs turns reads =
     \<lparr>thread = feeder_start inputs, chan = new_bridge None, schedule = turns, readings = reads,
      clock_count = 0\<rparr>"

record echo_types =
  echo_ingress_ty :: rust_type
  echo_egress_ty :: rust_type
  echo_receiver_ty :: rust_type
  echo_sender_ty :: rust_type

definition echo_install ::
    "echo_types \<Rightarrow> 'h \<Rightarrow> 'h \<Rightarrow> 'h registry \<Rightarrow> (unit exec \<times> 'h registry) option" where
  "echo_install ty from_transport to_transport r =
     (case ingress_install (echo_ingress_ty ty) (echo_receiver_ty ty) from_transport r of
        None \<Rightarrow> None
      | Some (Panic p, r) \<Rightarrow> Some (Panic p, r)
      | Some (Done u, r) \<Rightarrow>
          egress_install (echo_egress_ty ty) (echo_sender_ty ty) to_transport r)"

definition echo_build ::
    "echo_statig \<Rightarrow> echo_types \<Rightarrow> 'h registry \<Rightarrow> ((cu_error + 'h echo_app) \<times> 'h registry) option"
  where
  "echo_build sg ty r =
     (case ingress_new (echo_ingress_ty ty) (echo_receiver_ty ty) r of
        None \<Rightarrow> None
      | Some (Inl e, r) \<Rightarrow> Some (Inl e, r)
      | Some (Inr ingress, r) \<Rightarrow>
          (case fsm_task_new (echo_machine_default sg) of
             Inl e \<Rightarrow> Some (Inl e, r)
           | Inr fsm \<Rightarrow>
               (case egress_new (echo_egress_ty ty) (echo_sender_ty ty) r of
                  None \<Rightarrow> None
                | Some (Inl e, r) \<Rightarrow> Some (Inl e, r)
                | Some (Inr egress, r) \<Rightarrow>
                    Some (Inr \<lparr>ec_ingress = ingress, ec_fsm = fsm, ec_egress = egress\<rparr>, r))))"

text \<open>
  The collecting loop: for each \<open>recv_timeout\<close> the turns of the driver thread until an echo is there
  or the two seconds are over; a timeout breaks the loop.
\<close>

fun echo_collect ::
    "nat \<Rightarrow> feeder_turn list list \<Rightarrow> feeder \<Rightarrow> (echo_msg, echo_msg) bridge \<Rightarrow>
     string list \<times> feeder \<times> (echo_msg, echo_msg) bridge" where
  "echo_collect 0 turns p b = ([], p, b)"
| "echo_collect (Suc n) turns p b =
     (let (p, b) = run_thread feeder_program (case turns of [] \<Rightarrow> [] | cs # _ \<Rightarrow> cs) p b in
      (case echo_queue p of
         [] \<Rightarrow> ([], p, b)
       | v # vs \<Rightarrow>
           (let (live, p, b) = echo_collect n (tl turns) (p\<lparr>echo_queue := vs\<rparr>) b in (v # live, p, b))))"

text \<open>What \<open>run_live\<close> uses of the runtime; it hands out one copperlist for each iteration.\<close>

record ('mi, 'mo) echo_runtime = app_runtime +
  echo_tys :: echo_types
  echo_run_one :: "unit echo_app \<Rightarrow> ('mi, 'mo) copperlist \<Rightarrow> echo_world \<Rightarrow>
     ((cu_error + unit) list \<times> ('mi, 'mo) copperlist \<times> unit echo_app \<times> echo_world) exec"
  echo_iteration_ok :: "(cu_error + unit) list \<Rightarrow> bool"
  echo_slot :: "nat \<Rightarrow> ('mi, 'mo) copperlist"

text \<open>
  The turns of the driver thread while \<open>main\<close> collects and while it joins. \<open>run_live\<close> from its loop on,
  with the tasks started, and as a whole.
\<close>

record echo_after =
  collect_turns :: "feeder_turn list list"
  echo_join_turns :: "feeder_turn list"

definition echo_run_loop ::
    "('mi, 'mo) echo_runtime \<Rightarrow> string list \<Rightarrow> echo_after \<Rightarrow> unit echo_app \<Rightarrow> echo_world \<Rightarrow>
     (('mi, 'mo) copperlist list \<times> string list) exec option" where
  "echo_run_loop rt inputs after app w =
     (case echo_live (checked_iteration (echo_iteration_ok rt) (echo_run_one rt)) app
             (map (echo_slot rt) [0..<echo_iterations inputs]) w of
        Panic p \<Rightarrow> Some (Panic p)
      | Done (rss, log, app, w) \<Rightarrow>
          (case result_expect ''stop_all_tasks failed'' (stop_all_tasks rt) of
             Panic p \<Rightarrow> Some (Panic p)
           | Done u \<Rightarrow>
               (let w = drop_application w;
                    (live, p, b) = echo_collect (length inputs) (collect_turns after)
                      (thread w) (chan w);
                    (p, b) = run_thread feeder_program (echo_join_turns after) p b
                in (case feeder_pc p of
                      Feeder_End res \<Rightarrow> Some (Done (log, live))
                    | _ \<Rightarrow> None))))"

definition echo_run_live ::
    "('mi, 'mo) echo_runtime \<Rightarrow> echo_statig \<Rightarrow> string list \<Rightarrow> echo_after \<Rightarrow> unit registry \<Rightarrow>
     echo_world \<Rightarrow> (('mi, 'mo) copperlist list \<times> string list) exec option" where
  "echo_run_live rt sg inputs after r w =
     (case echo_install (echo_tys rt) () () r of
        None \<Rightarrow> None
      | Some (Panic p, r) \<Rightarrow> Some (Panic p)
      | Some (Done u, r) \<Rightarrow>
          (case setup_log rt of
             Panic p \<Rightarrow> Some (Panic p)
           | Done u \<Rightarrow>
               (case echo_build sg (echo_tys rt) r of
                  None \<Rightarrow> None
                | Some (Inl e, r) \<Rightarrow> Some (Panic ''Failed to create application.'')
                | Some (Inr app, r) \<Rightarrow>
                    (case result_expect ''start_all_tasks failed'' (start_all_tasks rt) of
                       Panic p \<Rightarrow> Some (Panic p)
                     | Done u \<Rightarrow> echo_run_loop rt inputs after app w))))"

section \<open>\<open>main\<close>\<close>

text \<open>\<open>join("\n") + "\n"\<close>.\<close>

definition newline :: char where
  "newline = CHR 0x0A"

fun join_lines :: "string list \<Rightarrow> string" where
  "join_lines [] = []"
| "join_lines [s] = s"
| "join_lines (s # ss) = s @ newline # join_lines ss"

definition lines_file :: "string list \<Rightarrow> string" where
  "lines_file ss = join_lines ss @ [newline]"

text \<open>
  The file system and the \<open>diff\<close> process: whether a file with given contents could be written, and
  whether \<open>diff\<close> on two files exits with success (\<open>None\<close>: it could not be run).
\<close>

record host =
  write_file :: "string \<Rightarrow> string \<Rightarrow> bool"
  diff_status :: "string \<Rightarrow> string \<Rightarrow> bool option"

text \<open>\<open>main\<close> after the live run; the value is the exit status of the process.\<close>

definition echo_compare :: "host \<Rightarrow> string list \<Rightarrow> string list \<Rightarrow> nat exec" where
  "echo_compare os live replayed =
     (if \<not> write_file os ''echo_live.txt'' (lines_file live) then Panic ''write live file''
      else if \<not> write_file os ''echo_replay.txt'' (lines_file replayed) then Panic ''write replay file''
      else (case diff_status os (lines_file live) (lines_file replayed) of
              None \<Rightarrow> Panic ''run diff''
            | Some success \<Rightarrow> if success then Done 0 else Done 1))"

text \<open>\<open>read_log\<close>: what \<open>read_recorded\<close> makes of the file the runtime wrote for a list of copperlists.\<close>

definition echo_main ::
    "('mi, 'mo) echo_runtime \<Rightarrow> (('mi, 'mo) copperlist list \<Rightarrow> echo_recorded exec option) \<Rightarrow> host \<Rightarrow> bool \<Rightarrow>
     echo_statig \<Rightarrow> string list \<Rightarrow> echo_after \<Rightarrow> unit registry \<Rightarrow> echo_world \<Rightarrow> nat exec option"
  where
  "echo_main rt read_log os oc sg inputs after r w =
     (case echo_run_live rt sg inputs after r w of
        None \<Rightarrow> None
      | Some (Panic p) \<Rightarrow> Some (Panic p)
      | Some (Done (log, live)) \<Rightarrow>
          if length live \<noteq> length inputs then Some (Panic ''live run did not echo every input'')
          else
            map_option (\<lambda>res. exec_bind res (\<lambda>recorded.
                exec_bind (echo_replay oc sg (ingress_inputs recorded)) (\<lambda>replayed.
                  if replayed \<noteq> echo_outputs recorded
                  then Panic ''replay diverged from the echo outputs recorded in the log''
                  else echo_compare os live replayed)))
              (read_log log))"

definition main_inputs :: "string list" where
  "main_inputs = [''hello'', ''world'', ''copper'']"

section \<open>\<open>Feeder\<close> as a transport\<close>

definition in_hand :: "feeder \<Rightarrow> string list" where
  "in_hand p = (case feeder_pc p of Feeder_Deliver body k \<Rightarrow> [body] | _ \<Rightarrow> [])"

text \<open>
  \<open>got\<close> is what \<open>main\<close> has collected already. What was sent inbound is the inputs so far, in order,
  and what came back was collected, is queued for \<open>main\<close> or is in hand.
\<close>

definition feeder_inv :: "string list \<Rightarrow> feeder \<Rightarrow> (echo_msg, echo_msg) bridge \<Rightarrow> bool" where
  "feeder_inv got p b \<longleftrightarrow> echo_results_alive p
   \<and> prefix (in_taken b @ in_queue b) (map Echo_Msg (feeder_inputs p))
   \<and> (case feeder_pc p of
        Feeder_Send msgs \<Rightarrow>
          in_taken b @ in_queue b @ map Echo_Msg msgs = map Echo_Msg (feeder_inputs p)
      | _ \<Rightarrow> True)
   \<and> got @ echo_queue p @ in_hand p = map echo_text (out_got b)"

lemma feeder_advance_move: "feeder_advance c p b = (p', b') \<Longrightarrow> transport_move b b'"
  by (auto simp: feeder_advance_def split: list.splits sending.splits receiving.splits
      feeder_pc.splits nat.splits if_splits)

lemma append_Cons_prefix: "xs @ ys @ z # zs = ws \<Longrightarrow> prefix (xs @ ys @ [z]) ws"
  by (auto simp: prefix_def)

lemma feeder_advance_inv:
  assumes "feeder_inv got p b" and "feeder_advance c p b = (p', b')"
  shows "feeder_inv got p' b' \<and> feeder_inputs p' = feeder_inputs p"
  using assms
  by (auto simp: feeder_advance_def feeder_inv_def in_hand_def bridge_send_def bridge_recv_def
      echo_msg_new_def split: list.splits option.splits feeder_pc.splits nat.splits if_splits
      intro: append_Cons_prefix)

interpretation feeder: transport_invariant feeder_program
    "\<lambda>p b. feeder_inv [] p b \<and> feeder_inputs p = inputs"
proof unfold_locales
  fix c p b p' b'
  assume a: "advance feeder_program c p b = (p', b')"
  then show "transport_move b b'"
    by (auto simp: feeder_program_def intro: feeder_advance_move)
  assume "feeder_inv [] p b \<and> feeder_inputs p = inputs"
  with a show "feeder_inv [] p' b' \<and> feeder_inputs p' = inputs"
    by (auto simp: feeder_program_def dest: feeder_advance_inv)
qed (auto simp: feeder_inv_def split: feeder_pc.splits)

text \<open>When \<open>run\<close> has returned, the receiver of the echoes is gone for good.\<close>

interpretation feeder_ends: quitting_transport feeder_program
  by unfold_locales
    (auto simp: feeder_program_def feeder_listening_def feeder_advance_def split: feeder_pc.splits)

section \<open>The live loop\<close>

lemma echo_iteration_inv:
  assumes "world_invariant (env_clk env) (env_rx env) hin (env_tx env) hout I" and "I w"
    and "ec_ingress app = \<lparr>ingress_rx = hin\<rparr>" and "ec_egress app = \<lparr>egress_tx = hout\<rparr>"
    and "echo_iteration oc env sg app cl w = Done (rs, cl', app', w')"
  shows "I w' \<and> ec_ingress app' = ec_ingress app \<and> ec_egress app' = ec_egress app"
proof -
  note inv = assms(1)
  obtain r0 m0 w0 where p0: "ingress_process (env_clk env) (env_rx env) (env_in env)
      (ec_ingress app) (ingress_slot cl) w = (r0, m0, w0)" by (metis prod.exhaust)
  obtain r1 fsm m1 w1 where p1: "fsm_task_process (env_clk env) (env_in env) (env_out env)
        (echo_step oc sg) (ec_fsm app) m0 (fsm_slot cl) w0 = Done (r1, fsm, m1, w1)"
    using assms(5) by (auto simp: echo_iteration_def p0)
  obtain r2 w2 where p2: "egress_process (env_tx env) (env_out env) (ec_egress app) m1 w1
      = (r2, w2)" by (metis prod.exhaust)
  have out: "app' = app\<lparr>ec_fsm := fsm\<rparr>" "w' = w2"
    using assms(5) p2 by (auto simp: echo_iteration_def p0 p1)
  have w0: "I w0"
    by (rule world_invariant.ingress_process_inv [OF inv assms(2) p0 [unfolded assms(3)]])
  have w1: "I w1"
    by (rule world_invariant.fsm_task_process_inv [OF inv w0 p1])
  have "I w2"
    by (rule world_invariant.egress_process_inv [OF inv w1 p2 [unfolded assms(4)]])
  then show ?thesis by (simp add: out)
qed

lemma echo_live_inv:
  assumes "world_invariant (env_clk env) (env_rx env) hin (env_tx env) hout I"
  shows "I w \<Longrightarrow> ec_ingress app = \<lparr>ingress_rx = hin\<rparr> \<Longrightarrow> ec_egress app = \<lparr>egress_tx = hout\<rparr> \<Longrightarrow>
    echo_live (echo_iteration oc env sg) app cls w = Done (rss, log, app', w') \<Longrightarrow> I w'"
proof (induction cls arbitrary: app w rss log)
  case (Cons cl cls)
  obtain rs cl1 app1 w1 where it: "echo_iteration oc env sg app cl w = Done (rs, cl1, app1, w1)"
    using Cons.prems(4) by auto
  note it1 = echo_iteration_inv [OF assms Cons.prems(1-3) it]
  obtain rss1 log1 where rest: "echo_live (echo_iteration oc env sg) app1 cls w1
      = Done (rss1, log1, app', w')"
    using Cons.prems(4) it by auto
  from Cons.IH [OF _ _ _ rest] it1 Cons.prems(2,3) show ?case by auto
qed simp

section \<open>Collecting\<close>

lemma run_feeder_inv:
  "feeder_inv got p b \<Longrightarrow> run_thread feeder_program cs p b = (p', b') \<Longrightarrow>
     feeder_inv got p' b' \<and> feeder_inputs p' = feeder_inputs p \<and> transport_move b b'"
proof (induction cs arbitrary: p b)
  case (Cons c cs)
  obtain p1 b1 where s: "feeder_advance c p b = (p1, b1)" by (metis prod.exhaust)
  with Cons.prems have "run_thread feeder_program cs p1 b1 = (p', b')"
    by (simp add: feeder_program_def)
  with Cons.IH feeder_advance_inv [OF Cons.prems(1) s] feeder_advance_move [OF s]
  show ?case by (metis transport_move_trans)
qed simp

text \<open>What is collected is what the outbound channel carried next, in order and without change.\<close>

lemma echo_collect_spec:
  "feeder_inv got p b \<Longrightarrow> echo_collect n turns p b = (live, p', b') \<Longrightarrow>
     length live \<le> n \<and> feeder_inv (got @ live) p' b' \<and> transport_move b b'"
proof (induction n arbitrary: turns got p b live)
  case (Suc n)
  obtain p1 b1 where r: "run_thread feeder_program (case turns of [] \<Rightarrow> [] | cs # _ \<Rightarrow> cs) p b = (p1, b1)"
    by (metis prod.exhaust)
  note inv = run_feeder_inv [OF Suc.prems(1) r]
  show ?case
  proof (cases "echo_queue p1")
    case Nil
    with Suc.prems(2) r inv show ?thesis by simp
  next
    case (Cons v vs)
    obtain live1 where rest: "echo_collect n (tl turns) (p1\<lparr>echo_queue := vs\<rparr>) b1 = (live1, p', b')"
      and live: "live = v # live1"
      using Suc.prems(2) r Cons by (auto split: prod.splits)
    have "feeder_inv (got @ [v]) (p1\<lparr>echo_queue := vs\<rparr>) b1"
      using inv Cons by (auto simp: feeder_inv_def in_hand_def split: feeder_pc.splits)
    from Suc.IH [OF this rest] inv live show ?thesis by (auto intro: transport_move_trans)
  qed
qed simp

lemma collected_prefix:
  assumes "feeder_inv [] p b" and "echo_collect n turns p b = (live, p', b')"
  shows "prefix live (map echo_text (out_got b @ out_queue b))" and "length live \<le> n"
proof -
  note c = echo_collect_spec [OF assms]
  then have "prefix live (map echo_text (out_got b'))"
    unfolding feeder_inv_def by (metis append_Nil prefixI)
  moreover have "prefix (out_got b') (out_got b @ out_queue b)"
    using c by (metis prefixI transport_move_def)
  ultimately show "prefix live (map echo_text (out_got b @ out_queue b))"
    by (meson map_mono_prefix prefix_order.trans)
  show "length live \<le> n" using c by simp
qed

text \<open>Dropping the application changes nothing of what the feeder has done.\<close>

lemma feeder_inv_drop:
  "feeder_inv got (thread w) (chan w) \<Longrightarrow> feeder_inv got (thread w) (chan (drop_application w))"
  by (auto simp: feeder_inv_def drop_application_def split: feeder_pc.splits)

lemma map_text_Echo_Msg [simp]: "map (echo_text \<circ> Echo_Msg) ss = ss"
  by (induction ss) simp_all

section \<open>A deployment of the service\<close>

lemma echo_build_spec:
  assumes "registry_ok r"
    and "type_id (echo_ingress_ty ty) \<noteq> type_id (echo_egress_ty ty)"
    and "installed r (type_id (echo_ingress_ty ty)) = None"
    and "installed r (type_id (echo_egress_ty ty)) = None"
  obtains r1 r2 where "echo_install ty from_transport to_transport r = Some (Done (), r1)"
    "echo_build sg ty r1 = Some (Inr
       \<lparr>ec_ingress = \<lparr>ingress_rx = from_transport\<rparr>,
        ec_fsm = \<lparr>machine = echo_machine_default sg\<rparr>,
        ec_egress = \<lparr>egress_tx = to_transport\<rparr>\<rparr>, r2)"
    "registry_ok r2" "installed r2 = installed r"
proof -
  obtain r1 r2 r3 r4 where r: "install (echo_ingress_ty ty) (echo_receiver_ty ty) from_transport r
        = Some (Done (), r1)"
      "install (echo_egress_ty ty) (echo_sender_ty ty) to_transport r1 = Some (Done (), r2)"
      "registry_take (echo_ingress_ty ty) (echo_receiver_ty ty) r2 = Some (Inr from_transport, r3)"
      "registry_take (echo_egress_ty ty) (echo_sender_ty ty) r3 = Some (Inr to_transport, r4)"
      "registry_ok r4" "installed r4 = installed r"
    by (rule slot_reg.two_hand_overs [OF assms])
  show thesis
  proof (rule that [OF _ _ r(5,6)])
    show "echo_install ty from_transport to_transport r = Some (Done (), r2)"
      by (simp add: echo_install_def ingress_install_def egress_install_def r)
    have "ingress_new (echo_ingress_ty ty) (echo_receiver_ty ty) r2
        = Some (Inr \<lparr>ingress_rx = from_transport\<rparr>, r3)"
      by (simp add: ingress_new_def r)
    moreover have "egress_new (echo_egress_ty ty) (echo_sender_ty ty) r3
        = Some (Inr \<lparr>egress_tx = to_transport\<rparr>, r4)"
      by (simp add: egress_new_def r)
    ultimately show "echo_build sg ty r2 = Some (Inr
        \<lparr>ec_ingress = \<lparr>ingress_rx = from_transport\<rparr>,
         ec_fsm = \<lparr>machine = echo_machine_default sg\<rparr>,
         ec_egress = \<lparr>egress_tx = to_transport\<rparr>\<rparr>, r4)"
      by (simp add: echo_build_def fsm_task_new_def)
  qed
qed

text \<open>The check of every iteration does not change a loop whose iterations all pass it.\<close>

lemma echo_live_checked:
  "echo_live run app cls w = Done (rss, log, app', w') \<Longrightarrow>
     echo_live (checked_iteration ok run) app cls w =
       (if list_all ok rss then Done (rss, log, app', w') else Panic ''run_one_iteration failed'')"
proof (induction cls arbitrary: app w rss log)
  case (Cons cl cls)
  obtain rs cl' app1 w1 where it: "run app cl w = Done (rs, cl', app1, w1)"
    using Cons.prems by auto
  obtain rss1 log1 where rest: "echo_live run app1 cls w1 = Done (rss1, log1, app', w')"
    "rss = rs # rss1" "log = cl' # log1"
    using Cons.prems it by auto
  from Cons.IH [OF rest(1)] it rest(2,3) show ?case by (simp add: checked_iteration_def)
qed simp

text \<open>
  What \<open>main\<close> relies on outside this repository: message slots and state machines that obey their
  laws, a runtime whose iteration runs the three tasks in graph order and succeeds when they all do
  (one with a task error may fail or let the loop go on), a log file that reads back as what was
  logged, a registry in which the two task types have nothing installed, files that can be written
  and a \<open>diff\<close> that succeeds exactly on equal files.
\<close>

locale echo_deployment =
  fixes rt :: "('mi, 'mo) echo_runtime"
    and im :: "('mi, echo_msg, u64, u64 \<times> u64) msg_api"
    and om :: "('mo, echo_msg, u64, u64 \<times> u64) msg_api"
    and read_log :: "('mi, 'mo) copperlist list \<Rightarrow> echo_recorded exec option"
    and decode :: "'rd \<Rightarrow> (decode_error + ('mi, 'mo) copperlist) \<times> 'rd"
    and os :: host
    and oc :: bool
    and sg :: echo_statig
    and inputs :: "string list"
    and r :: "unit registry"
  assumes slots_in: "cu_msg im" and slots_out: "cu_msg om" and sm: "statig sg"
    and runs: "copper_iteration (echo_run_one rt)
      (echo_iteration oc (bridged_env feeder_program im om) sg)"
    and reports: "\<forall>x \<in> set rs. x = Inr () \<Longrightarrow> echo_iteration_ok rt rs"
    and runs_app: "app_runs rt"
    and few_inputs: "length inputs + 3 < 2 ^ 64"
    and reads_back: "\<exists>reader e log_base. log_stream decode reader log e
      \<and> read_log log = echo_read_recorded (bridged_clk feeder_program) im om echo_ids
          (\<lambda>_. Inr (Logger_Read reader)) decode log_base"
    and distinct_types: "type_id (echo_ingress_ty (echo_tys rt)) \<noteq> type_id (echo_egress_ty (echo_tys rt))"
    and registry: "registry_ok r" "installed r (type_id (echo_ingress_ty (echo_tys rt))) = None"
      "installed r (type_id (echo_egress_ty (echo_tys rt))) = None"
    and writes: "write_file os path contents"
    and diffs: "diff_status os a b = Some (a = b)"
begin

lemma service:
  "service_env (bridged_env feeder_program im om) () () bridged_arrived bridged_taken bridged_sent"
  by (rule feeder.bridged_service [OF slots_in slots_out])

text \<open>
  The live run up to the drop of the application, for the application that was built: its log reads
  back as what went through the slots, and what \<open>run_live\<close> returns depends on whether the runtime
  reports the iterations as failed.
\<close>

abbreviation env where
  "env \<equiv> bridged_env feeder_program im om"

abbreviation cold_app where
  "cold_app \<equiv> \<lparr>ec_ingress = \<lparr>ingress_rx = ()\<rparr>, ec_fsm = \<lparr>machine = echo_machine_default sg\<rparr>,
     ec_egress = \<lparr>egress_tx = ()\<rparr>\<rparr>"

abbreviation cls where
  "cls \<equiv> map (echo_slot rt) [0..<echo_iterations inputs]"

lemma room: "machine_count (machine (ec_fsm cold_app)) + length cls < 2 ^ 64"
  using few_inputs by (simp add: echo_default_count [OF sm] echo_iterations_def)

lemma start_state:
  "bridged_taken (echo_world_start inputs turns reads) = []"
  "bridged_sent (echo_world_start inputs turns reads) = []"
  "thread (echo_world_start inputs turns reads) = feeder_start inputs"
  "chan (echo_world_start inputs turns reads) = new_bridge None"
  by (simp_all add: echo_world_start_def bridged_taken_def bridged_sent_def new_bridge_def)

lemma live_start:
  obtains rss log app' w' "is" where
    "echo_live (echo_iteration oc env sg) cold_app cls (echo_world_start inputs turns reads)
       = Done (rss, log, app', w')"
    "length is = length cls"
    "concat (map (\<lambda>cl. slot_texts om (fsm_slot cl)) log) = numbered 0 (input_texts is)"
    "read_log log = Some (Done
       \<lparr>ingress_inputs = is, echo_outputs = concat (map (\<lambda>cl. slot_texts om (fsm_slot cl)) log)\<rparr>)"
    "echo_replay oc sg is = Done (numbered 0 (input_texts is))"
    "\<forall>after. echo_run_live rt sg inputs after r (echo_world_start inputs turns reads) =
       (if list_all (echo_iteration_ok rt) rss
        then (let (live, p, b) = echo_collect (length inputs) (collect_turns after)
                    (thread w') (chan (drop_application w'));
                  (p, b) = run_thread feeder_program (echo_join_turns after) p b
              in (case feeder_pc p of Feeder_End res \<Rightarrow> Some (Done (log, live)) | _ \<Rightarrow> None))
        else Some (Panic ''run_one_iteration failed''))"
proof -
  let ?w = "echo_world_start inputs turns reads"
  obtain r1 r2 where built: "echo_install (echo_tys rt) () () r = Some (Done (), r1)"
    "echo_build sg (echo_tys rt) r1 = Some (Inr cold_app, r2)"
    by (rule echo_build_spec [OF registry(1) distinct_types registry(2,3)])
  have slots: "slot_env env" using service by (simp add: service_env_def)
  have cold: "machine_count (machine (ec_fsm cold_app)) = 0"
    by (simp add: echo_default_count [OF sm])
  from echo_live_spec [OF slots sm room, of oc ?w] cold obtain rss log app' w' "is" where
    live: "echo_live (echo_iteration oc env sg) cold_app cls ?w = Done (rss, log, app', w')"
    and ins: "exec_map (\<lambda>cl. echo_record_input (bridged_clk feeder_program) im (ingress_slot cl)) log
      = Done is"
    and outs: "concat (map (\<lambda>cl. slot_texts om (fsm_slot cl)) log) = numbered 0 (input_texts is)"
    and len: "length is = length cls"
    by auto
  obtain reader e log_base where log: "log_stream decode reader log e"
    and read: "read_log log = echo_read_recorded (bridged_clk feeder_program) im om echo_ids
        (\<lambda>_. Inr (Logger_Read reader)) decode log_base"
    using reads_back by blast
  have "read_log log = Some (Done
      \<lparr>ingress_inputs = is, echo_outputs = concat (map (\<lambda>cl. slot_texts om (fsm_slot cl)) log)\<rparr>)"
    using echo_read_loop_stream [OF log ins, of om]
    by (simp add: read echo_read_recorded_def echo_ids_def)
  moreover have "echo_replay oc sg is = Done (numbered 0 (input_texts is))"
    using echo_replay_numbered [OF sm, of "echo_machine_default sg" "is" oc] len room
    by (simp add: echo_replay_def echo_default_count [OF sm])
  moreover note loop = echo_live_checked [OF live [folded copper_iterationD [OF runs]],
      of "echo_iteration_ok rt"]
  ultimately show thesis
    using runs_app
    by (intro that [OF live len outs])
      (auto simp: echo_run_live_def echo_run_loop_def built loop app_runs_def
        drop_application_def Let_def)
qed

text \<open>A failed iteration, or answers to the inputs taken, of which the first were sent.\<close>

lemma live_part:
  obtains
    (failed) "\<forall>after. echo_run_live rt sg inputs after r (echo_world_start inputs turns reads)
      = Some (Panic ''run_one_iteration failed'')"
  | (ran) log texts recorded and w' :: echo_world where
      "\<forall>after. echo_run_live rt sg inputs after r (echo_world_start inputs turns reads) =
         (let (live, p, b) = echo_collect (length inputs) (collect_turns after)
                (thread w') (chan (drop_application w'));
              (p, b) = run_thread feeder_program (echo_join_turns after) p b
          in (case feeder_pc p of Feeder_End res \<Rightarrow> Some (Done (log, live)) | _ \<Rightarrow> None))"
      "read_log log = Some (Done recorded)"
      "echo_outputs recorded = numbered 0 texts"
      "echo_replay oc sg (ingress_inputs recorded) = Done (numbered 0 texts)"
      "prefix (bridged_sent w') (map Echo_Msg (numbered 0 texts))"
      "prefix texts inputs" "feeder_inv [] (thread w') (chan w')"
proof -
  let ?w = "echo_world_start inputs turns reads"
  obtain rss log app' w' "is" where
    live: "echo_live (echo_iteration oc env sg) cold_app cls ?w = Done (rss, log, app', w')"
    and outs: "concat (map (\<lambda>cl. slot_texts om (fsm_slot cl)) log) = numbered 0 (input_texts is)"
    and read: "read_log log = Some (Done
       \<lparr>ingress_inputs = is, echo_outputs = concat (map (\<lambda>cl. slot_texts om (fsm_slot cl)) log)\<rparr>)"
    and replay: "echo_replay oc sg is = Done (numbered 0 (input_texts is))"
    and run: "\<forall>after. echo_run_live rt sg inputs after r ?w =
       (if list_all (echo_iteration_ok rt) rss
        then (let (live, p, b) = echo_collect (length inputs) (collect_turns after)
                    (thread w') (chan (drop_application w'));
                  (p, b) = run_thread feeder_program (echo_join_turns after) p b
              in (case feeder_pc p of Feeder_End res \<Rightarrow> Some (Done (log, live)) | _ \<Rightarrow> None))
        else Some (Panic ''run_one_iteration failed''))"
    by (rule live_start [of turns reads])
  show thesis
  proof (cases "list_all (echo_iteration_ok rt) rss")
    case False
    show thesis by (rule failed [OF run [unfolded if_not_P [OF False]]])
  next
    case True
    obtain texts where T: "bridged_taken w' = map Echo_Msg texts"
        "concat (map (\<lambda>cl. slot_texts om (fsm_slot cl)) log) = numbered 0 texts"
      using echo_live_channels [OF service sm room _ _ live]
      by (auto simp: start_state echo_default_count [OF sm])
    have sent: "prefix (bridged_sent w') (map Echo_Msg (numbered 0 texts))"
      using echo_live_sends [OF service sm _ room _ _ live] feeder_ends.closes.world_closes_axioms T(2)
      by (simp add: start_state)
    have "feeder_inv [] (feeder_start inputs) (new_bridge None) \<and>
        feeder_inputs (feeder_start inputs) = inputs"
      by (simp add: feeder_inv_def feeder_start_def new_bridge_def in_hand_def)
    with echo_live_inv [OF _ _ _ _ live] feeder.world.world_invariant_axioms
    have inv: "feeder_inv [] (thread w') (chan w')" "feeder_inputs (thread w') = inputs"
      by (fastforce simp: start_state)+
    have "prefix (map Echo_Msg texts) (map Echo_Msg inputs)"
      using inv T(1) unfolding feeder_inv_def bridged_taken_def by (auto dest: append_prefixD)
    then have texts: "prefix texts inputs"
      using map_mono_prefix [of "map Echo_Msg texts" "map Echo_Msg inputs" echo_text]
      by (simp add: o_def)
    from outs T(2) read replay show thesis
      by (intro ran [OF run [unfolded if_P [OF True]] read _ _ sent texts inv(1)]) simp_all
  qed
qed

text \<open>The same with what \<open>main\<close> has collected: a first part of the replies.\<close>

lemma run_live_cases:
  obtains
    (failed) "\<forall>after. echo_run_live rt sg inputs after r (echo_world_start inputs turns reads)
      = Some (Panic ''run_one_iteration failed'')"
  | (ran) log texts recorded where
      "\<forall>after. \<exists>live. prefix live (numbered 0 texts)
         \<and> echo_run_live rt sg inputs after r (echo_world_start inputs turns reads)
             \<in> {None, Some (Done (log, live))}"
      "read_log log = Some (Done recorded)"
      "echo_outputs recorded = numbered 0 texts"
      "echo_replay oc sg (ingress_inputs recorded) = Done (numbered 0 texts)"
      "prefix texts inputs"
proof (rule live_part [of turns reads])
  fix log texts recorded and w' :: echo_world
  assume run: "\<forall>after. echo_run_live rt sg inputs after r (echo_world_start inputs turns reads) =
         (let (live, p, b) = echo_collect (length inputs) (collect_turns after)
                (thread w') (chan (drop_application w'));
              (p, b) = run_thread feeder_program (echo_join_turns after) p b
          in (case feeder_pc p of Feeder_End res \<Rightarrow> Some (Done (log, live)) | _ \<Rightarrow> None))"
    and rec: "read_log log = Some (Done recorded)" "echo_outputs recorded = numbered 0 texts"
      "echo_replay oc sg (ingress_inputs recorded) = Done (numbered 0 texts)"
    and sent: "prefix (bridged_sent w') (map Echo_Msg (numbered 0 texts))"
    and texts: "prefix texts inputs" and inv: "feeder_inv [] (thread w') (chan w')"
  have "\<exists>live. prefix live (numbered 0 texts)
      \<and> echo_run_live rt sg inputs after r (echo_world_start inputs turns reads)
          \<in> {None, Some (Done (log, live))}" for after
  proof -
    obtain live p1 b1 where c: "echo_collect (length inputs) (collect_turns after)
        (thread w') (chan (drop_application w')) = (live, p1, b1)" by (metis prod.exhaust)
    have "prefix live (map echo_text (bridged_sent w'))"
      using collected_prefix [OF feeder_inv_drop [OF inv] c]
      by (simp add: bridged_sent_def drop_application_def)
    also have "prefix (map echo_text (bridged_sent w')) (numbered 0 texts)"
      using map_mono_prefix [OF sent, of echo_text] by simp
    finally have "prefix live (numbered 0 texts)" .
    with run c show ?thesis by (intro exI [of _ live]) (auto split: prod.split feeder_pc.split)
  qed
  with rec texts show thesis by (intro ran) blast+
qed (rule failed)

end

section \<open>The compared files\<close>

lemma lines_file_inject:
  assumes "newline \<notin> set (concat ss)" and "newline \<notin> set (concat ts)" and "ss \<noteq> []" and "ts \<noteq> []"
    and "lines_file ss = lines_file ts"
  shows "ss = ts"
proof -
  have "join_lines ss = join_lines ts" using assms(5) by (simp add: lines_file_def)
  with assms(1-4) show ?thesis
  proof (induction ss arbitrary: ts rule: join_lines.induct)
    case (2 s)
    then show ?case by (cases ts rule: join_lines.cases) auto
  next
    case (3 s s' ss)
    then obtain t ts' where ts: "ts = t # ts'" by (cases ts) auto
    show ?case
    proof (cases ts')
      case Nil
      with 3 ts show ?thesis by auto
    next
      case (Cons u us)
      have "s = t \<and> join_lines (s' # ss) = join_lines ts'"
        using 3(2,3,6) append_sep_inject [of newline s t] by (simp add: ts Cons)
      moreover have "s' # ss = ts'"
        by (rule 3(1)) (use 3(2,3) ts Cons calculation in auto)
      ultimately show ?thesis by (simp add: ts)
    qed
  qed simp
qed

section \<open>Properties\<close>

text \<open>
  C17. What \<open>main\<close> collects from a live run is never wrong, under every schedule of the two threads and
  all timeouts, and whatever the runtime makes of a task error: when \<open>run_live\<close> returns, the echoes
  are, in order and without loss in between, the numbered replies to the inputs, possibly cut short,
  and the log replays to the replies of the inputs that were taken, of which these are a part.
\<close>

theorem echo_live_never_wrong:
  assumes "echo_deployment rt im om read_log decode os oc sg inputs r"
    and "echo_run_live rt sg inputs after r (echo_world_start inputs turns reads) = Some (Done (log, live))"
  shows "prefix live (numbered 0 inputs)
       \<and> (\<exists>recorded texts. read_log log = Some (Done recorded) \<and> prefix texts inputs
            \<and> echo_replay oc sg (ingress_inputs recorded) = Done (numbered 0 texts)
            \<and> echo_outputs recorded = numbered 0 texts \<and> prefix live (numbered 0 texts))"
proof (rule echo_deployment.run_live_cases [OF assms(1), of turns reads])
  assume "\<forall>after. echo_run_live rt sg inputs after r (echo_world_start inputs turns reads)
      = Some (Panic ''run_one_iteration failed'')"
  with assms(2) show ?thesis by simp
next
  fix log' texts recorded
  assume run: "\<forall>after. \<exists>live. prefix live (numbered 0 texts)
         \<and> echo_run_live rt sg inputs after r (echo_world_start inputs turns reads)
             \<in> {None, Some (Done (log', live))}"
    and rec: "read_log log' = Some (Done recorded)" "echo_outputs recorded = numbered 0 texts"
      "echo_replay oc sg (ingress_inputs recorded) = Done (numbered 0 texts)"
    and texts: "prefix texts inputs"
  obtain live' where "prefix live' (numbered 0 texts)"
      "echo_run_live rt sg inputs after r (echo_world_start inputs turns reads)
         \<in> {None, Some (Done (log', live'))}"
    using run by blast
  with assms(2) have live: "log = log'" "prefix live (numbered 0 texts)" by simp_all
  have "prefix (numbered 0 texts) (numbered 0 inputs)"
    using texts by (auto simp: prefix_def numbered_append)
  with live rec texts show ?thesis by (auto intro: prefix_order.trans)
qed

text \<open>
  C5. The whole program, under every schedule: \<open>main\<close> exits with status 0, having compared equal
  files, or stops because the runtime reported an iteration as failed or because the live run did not
  bring every echo back in time, or still waits in \<open>join\<close>. This holds whether the runtime fails an
  iteration in which a task reported an error or goes on with the next. It never exits with status 1 and never panics on a replay
  that differs from the log.
\<close>

theorem echo_main_any_schedule:
  assumes "echo_deployment rt im om read_log decode os oc sg inputs r"
  shows "echo_main rt read_log os oc sg inputs after r (echo_world_start inputs turns reads)
         \<in> {Some (Done 0), None, Some (Panic ''run_one_iteration failed''),
            Some (Panic ''live run did not echo every input'')}"
proof (rule echo_deployment.run_live_cases [OF assms, of turns reads])
  assume "\<forall>after. echo_run_live rt sg inputs after r (echo_world_start inputs turns reads)
      = Some (Panic ''run_one_iteration failed'')"
  then show ?thesis by (simp add: echo_main_def)
next
  fix log texts recorded
  assume run: "\<forall>after. \<exists>live. prefix live (numbered 0 texts)
         \<and> echo_run_live rt sg inputs after r (echo_world_start inputs turns reads)
             \<in> {None, Some (Done (log, live))}"
    and rec: "read_log log = Some (Done recorded)" "echo_outputs recorded = numbered 0 texts"
      "echo_replay oc sg (ingress_inputs recorded) = Done (numbered 0 texts)"
    and texts: "prefix texts inputs"
  obtain live where live: "prefix live (numbered 0 texts)"
    and res: "echo_run_live rt sg inputs after r (echo_world_start inputs turns reads)
       \<in> {None, Some (Done (log, live))}"
    using run by blast
  have "echo_compare os live (numbered 0 texts) = Done 0" if "length live = length inputs"
  proof -
    have "length (numbered 0 texts) \<le> length live"
      using texts that by (simp add: prefix_length_le)
    with live have "live = numbered 0 texts"
      by (metis prefix_length_prefix prefix_order.antisym prefix_order.refl)
    then show ?thesis
      using echo_deployment.writes [OF assms] echo_deployment.diffs [OF assms]
      by (simp add: echo_compare_def)
  qed
  with res rec show ?thesis by (auto simp: echo_main_def split: if_splits)
qed

section \<open>A deployment to run\<close>

type_synonym echo_slot = "(echo_msg, u64, u64 \<times> u64) slot"

definition echo_demo_types :: echo_types where
  "echo_demo_types =
     \<lparr>echo_ingress_ty = Rust_Type 1 ''IngressTask<EchoMsg>'',
      echo_egress_ty = Rust_Type 2 ''EgressTask<EchoMsg>'',
      echo_receiver_ty = Rust_Type 3 ''Receiver<EchoMsg>'',
      echo_sender_ty = Rust_Type 4 ''Sender<EchoMsg>''\<rparr>"

definition echo_demo_runtime :: "(echo_slot, echo_slot) echo_runtime" where
  "echo_demo_runtime =
     \<lparr>log_path_str = Some ''echo.copper'', with_log_path = (\<lambda>_ _. Inr ()), start_all_tasks = Inr (),
      stop_all_tasks = Inr (), echo_tys = echo_demo_types,
      echo_run_one = echo_iteration True (bridged_env feeder_program slot_api slot_api) leaf_statig,
      echo_iteration_ok = list_all (\<lambda>x. x = Inr ()),
      echo_slot = (\<lambda>i. \<lparr>cl_id = of_nat i, ingress_slot = fresh_slot, fsm_slot = fresh_slot\<rparr>)\<rparr>"

definition echo_demo_read :: "(echo_slot, echo_slot) copperlist list \<Rightarrow> echo_recorded exec option" where
  "echo_demo_read log =
     echo_read_recorded (bridged_clk feeder_program) slot_api slot_api echo_ids
       (\<lambda>_. Inr (Logger_Read log)) list_decode ''echo.copper''"

definition echo_demo_host :: host where
  "echo_demo_host = \<lparr>write_file = (\<lambda>_ _. True), diff_status = (\<lambda>a b. Some (a = b))\<rparr>"

interpretation echo_demo: echo_deployment echo_demo_runtime slot_api slot_api echo_demo_read
    "list_decode :: (echo_slot, echo_slot) copperlist list \<Rightarrow> _" echo_demo_host True leaf_statig
    main_inputs None
proof
  fix log
  show "\<exists>reader e log_base. log_stream (list_decode :: (echo_slot, echo_slot) copperlist list \<Rightarrow> _)
        reader log e
      \<and> echo_demo_read log = echo_read_recorded (bridged_clk feeder_program) slot_api slot_api echo_ids
          (\<lambda>_. Inr (Logger_Read reader)) list_decode log_base"
    using log_stream_list_decode [of log] unfolding echo_demo_read_def by blast
qed (simp_all add: echo_demo_runtime_def echo_demo_types_def echo_demo_host_def main_inputs_def
    app_runs_def setup_log_def slot_msg.cu_msg_axioms leaf.statig_axioms list_all_iff)

text \<open>A schedule in which the driver thread sends the three inputs before the first iteration.\<close>

definition prompt_turns :: "feeder_turn list list" where
  "prompt_turns = [replicate 4 Go]"

definition prompt_after :: echo_after where
  "prompt_after = \<lparr>collect_turns = [replicate 2 Go, replicate 2 Go, replicate 2 Go],
                   echo_join_turns = [Go]\<rparr>"

declare echo_read_loop.simps [code]

text \<open>The program with its own inputs succeeds on it.\<close>

lemma echo_main_prompt:
  "echo_main echo_demo_runtime echo_demo_read echo_demo_host True leaf_statig main_inputs prompt_after
     None (echo_world_start main_inputs prompt_turns (\<lambda>n. of_nat n)) = Some (Done 0)"
  by code_simp

lemma echo_prompt_live:
  "case echo_run_live echo_demo_runtime leaf_statig main_inputs prompt_after None
      (echo_world_start main_inputs prompt_turns (\<lambda>n. of_nat n)) of
     Some (Done (log, live)) \<Rightarrow> live = [''echo 1: hello'', ''echo 2: world'', ''echo 3: copper'']
   | _ \<Rightarrow> False"
  by code_simp

theorem echo_live_never_wrong_witness:
  "prefix [''echo 1: hello'', ''echo 2: world'', ''echo 3: copper''] (numbered 0 main_inputs)"
proof -
  obtain log where "echo_run_live echo_demo_runtime leaf_statig main_inputs prompt_after None
      (echo_world_start main_inputs prompt_turns (\<lambda>n. of_nat n))
      = Some (Done (log, [''echo 1: hello'', ''echo 2: world'', ''echo 3: copper'']))"
    using echo_prompt_live by (auto split: option.splits exec.splits)
  from echo_live_never_wrong [OF echo_demo.echo_deployment_axioms this] show ?thesis by blast
qed

theorem echo_main_any_schedule_witness:
  "\<forall>turns. echo_main echo_demo_runtime echo_demo_read echo_demo_host True leaf_statig main_inputs
     prompt_after None (echo_world_start main_inputs turns (\<lambda>n. of_nat n))
   \<in> {Some (Done 0), None, Some (Panic ''run_one_iteration failed''),
      Some (Panic ''live run did not echo every input'')}"
  by (intro allI echo_main_any_schedule [OF echo_demo.echo_deployment_axioms])

end
