(* ===== verification/Watchdog_App.thy ===== *)
theory Watchdog_App
  imports Watchdog_Service Bridge
begin

text \<open>
  \<open>examples/watchdog/src/main.rs\<close> as a whole: the \<open>Pulse\<close> transport with its two threads, \<open>run_live\<close>
  from spawning the transport to collecting the alarms, and \<open>main\<close>. The DAG thread and the threads of
  the transport interleave by an arbitrary schedule.
\<close>

section \<open>\<open>Pulse\<close>\<close>

text \<open>
  Where \<open>run\<close> is: at \<open>rx_out.recv()\<close>, with an alarm to forward to \<open>main\<close>, at \<open>feeder.join()\<close>, or
  returned. The feeder thread has the bursts still to send; a failed send ends the current burst
  (the \<open>return\<close> leaves the closure \<open>burst\<close>, not the thread), and the sleeps are points of the schedule.
\<close>

datatype pulse_pc = Pulse_Recv | Pulse_Forward alarm | Pulse_Join | Pulse_End "string + unit"

datatype pulse_thread = Feeder_Thread | Driver_Thread

record pulse =
  bursts :: "u32 list list"
  pulse_pc :: pulse_pc
  results_queue :: "alarm list"
  results_alive :: bool

definition pulse_bursts :: "u32 list list" where
  "pulse_bursts = [map of_nat [0..<5], map of_nat [5..<8]]"

definition pulse_start :: pulse where
  "pulse_start =
     \<lparr>bursts = pulse_bursts, pulse_pc = Pulse_Recv, results_queue = [], results_alive = True\<rparr>"

definition pulse_feed :: "pulse \<Rightarrow> (feed, alarm) bridge \<Rightarrow> pulse \<times> (feed, alarm) bridge" where
  "pulse_feed p b =
     (case bursts p of
        [] \<Rightarrow> (p, b)
      | [] # bs \<Rightarrow> (p\<lparr>bursts := bs\<rparr>, b)
      | (n # ns) # bs \<Rightarrow>
          (case bridge_send (Feed n) b of
             Sent b \<Rightarrow> (p\<lparr>bursts := ns # bs\<rparr>, b)
           | Send_Full \<Rightarrow> (p, b)
           | Send_Closed \<Rightarrow> (p\<lparr>bursts := bs\<rparr>, b)))"

text \<open>The driver thread; \<open>join\<close> waits until the feeder thread has no burst left.\<close>

definition pulse_drive :: "pulse \<Rightarrow> (feed, alarm) bridge \<Rightarrow> pulse \<times> (feed, alarm) bridge" where
  "pulse_drive p b =
     (case pulse_pc p of
        Pulse_Recv \<Rightarrow>
          (case bridge_recv b of
             Received a b \<Rightarrow> (p\<lparr>pulse_pc := Pulse_Forward a\<rparr>, b)
           | Recv_Empty \<Rightarrow> (p, b)
           | Recv_Closed \<Rightarrow> (p\<lparr>pulse_pc := Pulse_Join\<rparr>, b))
      | Pulse_Forward a \<Rightarrow>
          if results_alive p
          then (p\<lparr>pulse_pc := Pulse_Recv, results_queue := results_queue p @ [a]\<rparr>, b)
          else (p\<lparr>pulse_pc := Pulse_End (Inl send_error_text)\<rparr>, b)
      | Pulse_Join \<Rightarrow> if bursts p = [] then (p\<lparr>pulse_pc := Pulse_End (Inr ())\<rparr>, b) else (p, b)
      | Pulse_End r \<Rightarrow> (p, b))"

definition pulse_advance ::
    "pulse_thread \<Rightarrow> pulse \<Rightarrow> (feed, alarm) bridge \<Rightarrow> pulse \<times> (feed, alarm) bridge" where
  "pulse_advance c p b =
     (case c of Feeder_Thread \<Rightarrow> pulse_feed p b | Driver_Thread \<Rightarrow> pulse_drive p b)"

text \<open>\<open>rx_out\<close> is dropped when \<open>run\<close> returns.\<close>

definition pulse_listening :: "pulse \<Rightarrow> bool" where
  "pulse_listening p = (case pulse_pc p of Pulse_End r \<Rightarrow> False | _ \<Rightarrow> True)"

definition pulse_program :: "(pulse, pulse_thread, feed, alarm) transport_program" where
  "pulse_program = \<lparr>advance = pulse_advance, listening = pulse_listening\<rparr>"

lemmas pulse_defs =
  pulse_program_def pulse_advance_def pulse_feed_def pulse_drive_def pulse_listening_def

section \<open>\<open>run_live\<close> and \<open>main\<close>\<close>

type_synonym watchdog_world = "(pulse, pulse_thread, feed, alarm) bridged"

definition watchdog_world_start ::
    "pulse_thread list list \<Rightarrow> (nat \<Rightarrow> u64) \<Rightarrow> watchdog_world" where
  "watchdog_world_start turns reads =
     \<lparr>thread = pulse_start, chan = new_bridge None, schedule = turns, readings = reads,
      clock_count = 0\<rparr>"

text \<open>
  \<open>while start.elapsed() < RUN_FOR\<close>, in nanoseconds: the number of iterations, \<open>elapsed i\<close> being the
  time that has passed at the check before iteration \<open>i\<close>; \<open>None\<close> when the loop does not end.
\<close>

definition LOOP_PERIOD :: int where
  "LOOP_PERIOD = 5 * 1000000"

definition RUN_FOR :: int where
  "RUN_FOR = 400 * 1000000"

partial_function (option) iterations_within :: "(nat \<Rightarrow> int) \<Rightarrow> nat \<Rightarrow> nat option" where
  "iterations_within elapsed i =
     (if elapsed i < RUN_FOR then iterations_within elapsed (Suc i) else Some i)"

lemma iterations_within_code [code]:
  "iterations_within elapsed i =
     (case elapsed i < RUN_FOR of
        True \<Rightarrow> iterations_within elapsed (Suc i)
      | False \<Rightarrow> Some i)"
  by (subst iterations_within.simps) simp

text \<open>The loop of \<open>run_live\<close>: iteration \<open>i\<close> gets the copperlist \<open>slot i\<close>. The log and the tasks it leaves.\<close>

partial_function (option) watchdog_timed ::
    "('a \<Rightarrow> 'cl \<Rightarrow> 'w \<Rightarrow> ('rs \<times> 'cl \<times> 'a \<times> 'w) exec) \<Rightarrow> (nat \<Rightarrow> int) \<Rightarrow> (nat \<Rightarrow> 'cl) \<Rightarrow> nat \<Rightarrow> 'a \<Rightarrow> 'w \<Rightarrow>
     ('cl list \<times> 'a \<times> 'w) exec option" where
  "watchdog_timed run_one elapsed slot i app w =
     (if elapsed i < RUN_FOR then
        (case run_one app (slot i) w of
           Panic p \<Rightarrow> Some (Panic p)
         | Done (rs, cl, app, w) \<Rightarrow>
             Option.bind (watchdog_timed run_one elapsed slot (Suc i) app w)
               (\<lambda>res. Some (exec_bind res (\<lambda>(log, app, w). Done (cl # log, app, w)))))
      else Some (Done ([], app, w)))"

lemma watchdog_timed_code [code]:
  "watchdog_timed run_one elapsed slot i app w =
     (case elapsed i < RUN_FOR of
        False \<Rightarrow> Some (Done ([], app, w))
      | True \<Rightarrow>
          (case run_one app (slot i) w of
             Panic p \<Rightarrow> Some (Panic p)
           | Done (rs, cl, app, w) \<Rightarrow>
               Option.bind (watchdog_timed run_one elapsed slot (Suc i) app w)
                 (\<lambda>res. Some (exec_bind res (\<lambda>(log, app, w). Done (cl # log, app, w))))))"
  by (subst watchdog_timed.simps) simp

text \<open>
  What \<open>run_live\<close> uses of the runtime and its configuration: the component configuration, the four
  types, \<open>run_one_iteration\<close>, whether it reports an error for given results of the tasks, the time
  that passes, and the copperlist it allots to each iteration.
\<close>

record ('cfg, 'mi, 'mo) watchdog_runtime = app_runtime +
  cfg_get :: "'cfg \<Rightarrow> string \<Rightarrow> cu_error + u32 option"
  ingress_config :: "'cfg option"
  types :: service_types
  run_one :: "unit watchdog_app \<Rightarrow> ('mi, 'mo) copperlist \<Rightarrow> watchdog_world \<Rightarrow>
     ((cu_error + unit) list \<times> ('mi, 'mo) copperlist \<times> unit watchdog_app \<times> watchdog_world) exec"
  iteration_ok :: "(cu_error + unit) list \<Rightarrow> bool"
  elapsed_at :: "nat \<Rightarrow> int"
  slot_at :: "nat \<Rightarrow> ('mi, 'mo) copperlist"

text \<open>The copperlists of the iterations that fit into \<open>RUN_FOR\<close>, for what follows.\<close>

definition slots_given :: "('cfg, 'mi, 'mo) watchdog_runtime \<Rightarrow> ('mi, 'mo) copperlist list" where
  "slots_given rt =
     (case iterations_within (elapsed_at rt) 0 of
        None \<Rightarrow> []
      | Some n \<Rightarrow> map (slot_at rt) [0..<n])"

text \<open>
  \<open>handles.join.join()\<close> and \<open>res_rx.try_iter().collect()\<close>: \<open>None\<close> when the transport has not
  returned by the end of the given turns, so that \<open>join\<close> still blocks.
\<close>

definition watchdog_collect ::
    "pulse_thread list \<Rightarrow> watchdog_world \<Rightarrow> alarm list option" where
  "watchdog_collect join_turns w =
     (let (p, b) = run_thread pulse_program join_turns (thread w) (chan w) in
      (case pulse_pc p of Pulse_End r \<Rightarrow> Some (results_queue p) | _ \<Rightarrow> None))"

text \<open>
  \<open>run_live\<close> from its loop on, with the tasks started. \<open>None\<close>: the loop does not end or \<open>join\<close> still
  blocks.
\<close>

definition watchdog_run_loop ::
    "('cfg, 'mi, 'mo) watchdog_runtime \<Rightarrow> pulse_thread list \<Rightarrow> unit watchdog_app \<Rightarrow>
     watchdog_world \<Rightarrow> (('mi, 'mo) copperlist list \<times> alarm list) exec option" where
  "watchdog_run_loop rt join_turns app w =
     (case watchdog_timed (checked_iteration (iteration_ok rt) (run_one rt)) (elapsed_at rt)
             (slot_at rt) 0 app w of
        None \<Rightarrow> None
      | Some (Panic p) \<Rightarrow> Some (Panic p)
      | Some (Done (log, app, w)) \<Rightarrow>
          (case result_expect ''stop_all_tasks failed'' (stop_all_tasks rt) of
             Panic p \<Rightarrow> Some (Panic p)
           | Done u \<Rightarrow>
               map_option (\<lambda>live. Done (log, live))
                 (watchdog_collect join_turns (drop_application w))))"

text \<open>\<open>run_live\<close>; the log it writes is returned with the alarms.\<close>

definition watchdog_run_live ::
    "('cfg, 'mi, 'mo) watchdog_runtime \<Rightarrow> watchdog_statig \<Rightarrow> pulse_thread list \<Rightarrow> unit registry \<Rightarrow>
     watchdog_world \<Rightarrow> (('mi, 'mo) copperlist list \<times> alarm list) exec option" where
  "watchdog_run_live rt sg join_turns r w =
     (case watchdog_install (types rt) () () r of
        None \<Rightarrow> None
      | Some (Panic p, r) \<Rightarrow> Some (Panic p)
      | Some (Done u, r) \<Rightarrow>
          (case setup_log rt of
             Panic p \<Rightarrow> Some (Panic p)
           | Done u \<Rightarrow>
               (case watchdog_build (cfg_get rt) sg (types rt) (ingress_config rt) r of
                  None \<Rightarrow> None
                | Some (Inl e, r) \<Rightarrow> Some (Panic ''Failed to create application.'')
                | Some (Inr app, r) \<Rightarrow>
                    (case result_expect ''start_all_tasks failed'' (start_all_tasks rt) of
                       Panic p \<Rightarrow> Some (Panic p)
                     | Done u \<Rightarrow> watchdog_run_loop rt join_turns app w))))"

text \<open>\<open>read_log\<close>: what \<open>read_copperlists\<close> makes of the file the runtime wrote for a list of copperlists.\<close>

definition watchdog_main ::
    "('cfg, 'mi, 'mo) watchdog_runtime \<Rightarrow>
     ('mi, feed cycle, u64, u64 \<times> u64) msg_api \<Rightarrow> ('mo, alarm batch, u64, u64 \<times> u64) msg_api \<Rightarrow>
     (('mi, 'mo) copperlist list \<Rightarrow> (cu_error + ('mi, 'mo) copperlist list \<times> log_end) option) \<Rightarrow>
     bool \<Rightarrow> (alarm batch option \<Rightarrow> 'e + 'b list) \<Rightarrow> (feed cycle \<Rightarrow> string) \<Rightarrow>
     (alarm batch option \<Rightarrow> string) \<Rightarrow> watchdog_statig \<Rightarrow> pulse_thread list \<Rightarrow> unit registry \<Rightarrow>
     watchdog_world \<Rightarrow> unit exec option" where
  "watchdog_main rt im om read_log oc encode show_i show_o sg join_turns r w =
     (case watchdog_run_live rt sg join_turns r w of
        None \<Rightarrow> None
      | Some (Panic p) \<Rightarrow> Some (Panic p)
      | Some (Done (log, live)) \<Rightarrow>
          if map alarm_kind live \<noteq> [''armed'', ''tripped'', ''recovered'', ''tripped''] then
            Some (Panic
              ''live run did not arm, trip on silence, recover, and trip after the last feed'')
          else
            map_option (\<lambda>res. exec_bind res (watchdog_checks oc encode show_i show_o sg live))
              (watchdog_read_recorded im om watchdog_ids (read_log log)))"

section \<open>\<open>Pulse\<close> as a transport\<close>

text \<open>
  Everything received was forwarded, or is in hand; \<open>run\<close> leaves its loop only when nothing is
  queued and the DAG is gone, and then returns \<open>Ok\<close>.
\<close>

definition pulse_inv :: "pulse \<Rightarrow> (feed, alarm) bridge \<Rightarrow> bool" where
  "pulse_inv p b \<longleftrightarrow> results_alive p \<and> length (bursts p) \<le> length pulse_bursts \<and>
     (case pulse_pc p of
        Pulse_Recv \<Rightarrow> results_queue p = out_got b
      | Pulse_Forward a \<Rightarrow> results_queue p @ [a] = out_got b
      | Pulse_Join \<Rightarrow> results_queue p = out_got b \<and> out_queue b = [] \<and> \<not> out_alive b
      | Pulse_End r \<Rightarrow> results_queue p = out_got b \<and> out_queue b = [] \<and> \<not> out_alive b \<and> r = Inr ())"

lemma pulse_advance_move: "pulse_advance c p b = (p', b') \<Longrightarrow> transport_move b b'"
  by (auto simp: pulse_defs split: pulse_thread.splits list.splits sending.splits receiving.splits
      pulse_pc.splits if_splits)

lemma pulse_advance_inv: "pulse_inv p b \<Longrightarrow> pulse_advance c p b = (p', b') \<Longrightarrow> pulse_inv p' b'"
  by (auto simp: pulse_defs pulse_inv_def bridge_send_def bridge_recv_def
      split: pulse_thread.splits list.splits option.splits pulse_pc.splits if_splits)

text \<open>
  While the application is alive nothing that was fed is lost: what the DAG took, what is queued and
  what is still to send are the feeds of the two bursts, in order.
\<close>

definition pulse_live :: "pulse \<Rightarrow> (feed, alarm) bridge \<Rightarrow> bool" where
  "pulse_live p b \<longleftrightarrow> pulse_inv p b \<and> out_alive b \<and> in_alive b
   \<and> in_taken b @ in_queue b @ map Feed (concat (bursts p)) = map Feed (concat pulse_bursts)"

lemma pulse_advance_feeds:
  assumes "in_taken b @ in_queue b @ map Feed (concat (bursts p)) = fs" and "in_alive b"
    and "pulse_advance c p b = (p', b')"
  shows "in_taken b' @ in_queue b' @ map Feed (concat (bursts p')) = fs"
  using assms
  by (auto simp: pulse_defs bridge_send_def bridge_recv_def
      split: pulse_thread.splits list.splits option.splits pulse_pc.splits if_splits)

interpretation pulse: listening_transport pulse_program pulse_live
proof unfold_locales
  fix c p b p' b'
  assume a: "advance pulse_program c p b = (p', b')"
  then show move: "transport_move b b'"
    by (auto simp: pulse_program_def intro: pulse_advance_move)
  assume "pulse_live p b"
  with a move show "pulse_live p' b'"
    by (auto simp: pulse_program_def pulse_live_def transport_move_def
        intro: pulse_advance_inv dest: pulse_advance_feeds)
qed (auto simp: pulse_live_def pulse_inv_def pulse_program_def pulse_listening_def split: pulse_pc.splits)

section \<open>The live loop with a transport that listens\<close>

lemma fsm_batch_task_process_no_error:
  "fsm_batch_task_process clk im om step task m out w = Done (res, task', out', w') \<Longrightarrow> res = Inr ()"
  by (erule fsm_batch_task_process_DoneE) (auto dest: arg_cong [where f = fst] simp: fst_forward_batch)

lemma cycle_ingress_process_no_error:
  "cycle_ingress_process clk rxa om task m w = (res, m', w') \<Longrightarrow> res = Inr ()"
  by (auto simp: cycle_ingress_process_def Let_def split: prod.splits)

lemma watchdog_iteration_inv:
  assumes "world_sends (env_clk env) (env_rx env) hin (env_tx env) hout I" and "I w"
    and "wd_ingress app = \<lparr>cycle_rx = hin, max_batch = mb\<rparr>"
    and "wd_egress app = \<lparr>batch_egress_tx = hout\<rparr>"
    and "watchdog_iteration env sg app cl w = Done (rs, cl', app', w')"
  shows "I w' \<and> (\<forall>x \<in> set rs. x = Inr ())
       \<and> wd_ingress app' = wd_ingress app \<and> wd_egress app' = wd_egress app"
proof -
  note inv = world_sends.axioms(1) [OF assms(1)]
  obtain r0 m0 w0 where p0: "cycle_ingress_process (env_clk env) (env_rx env) (env_in env)
      (wd_ingress app) (ingress_slot cl) w = (r0, m0, w0)" by (metis prod.exhaust)
  obtain r1 fsm m1 w1 where p1: "fsm_batch_task_process (env_clk env) (env_in env) (env_out env)
        (watchdog_step sg) (wd_fsm app) m0 (fsm_slot cl) w0 = Done (r1, fsm, m1, w1)"
    using assms(5) by (auto simp: watchdog_iteration_def p0)
  obtain r2 w2 where p2: "batch_egress_process (env_tx env) (env_out env) (wd_egress app) m1 w1
      = (r2, w2)" by (metis prod.exhaust)
  have out: "rs = [r0, r1, r2]" "app' = app\<lparr>wd_fsm := fsm\<rparr>" "w' = w2"
    using assms(5) p2 by (auto simp: watchdog_iteration_def p0 p1)
  have w0: "I w0"
    by (rule world_invariant.cycle_ingress_process_inv [OF inv assms(2) p0 [unfolded assms(3)]])
  have w1: "I w1"
    by (rule world_invariant.fsm_batch_task_process_inv [OF inv w0 p1])
  have "I w2"
    by (rule world_invariant.batch_egress_process_inv [OF inv w1 p2 [unfolded assms(4)]])
  moreover have "r2 = Inr ()"
    by (rule world_sends.batch_egress_process_no_error [OF assms(1) w1 p2 [unfolded assms(4)]])
  ultimately show ?thesis
    using cycle_ingress_process_no_error [OF p0] fsm_batch_task_process_no_error [OF p1]
    by (simp add: out)
qed

lemma watchdog_live_inv:
  assumes "world_sends (env_clk env) (env_rx env) hin (env_tx env) hout I"
  shows "I w \<Longrightarrow> wd_ingress app = \<lparr>cycle_rx = hin, max_batch = mb\<rparr> \<Longrightarrow>
    wd_egress app = \<lparr>batch_egress_tx = hout\<rparr> \<Longrightarrow>
    watchdog_live (watchdog_iteration env sg) app cls w = Done (rss, log, app', w') \<Longrightarrow>
    I w' \<and> (\<forall>rs \<in> set rss. \<forall>x \<in> set rs. x = Inr ())"
proof (induction cls arbitrary: app w rss log)
  case (Cons cl cls)
  obtain rs cl1 app1 w1 where it: "watchdog_iteration env sg app cl w = Done (rs, cl1, app1, w1)"
    using Cons.prems(4) by auto
  note it1 = watchdog_iteration_inv [OF assms Cons.prems(1-3) it]
  obtain rss1 log1 where rest: "watchdog_live (watchdog_iteration env sg) app1 cls w1
      = Done (rss1, log1, app', w')" and rss: "rss = rs # rss1"
    using Cons.prems(4) it by auto
  from Cons.IH [OF _ _ _ rest] it1 Cons.prems(2,3) rss show ?case by auto
qed simp

text \<open>The check of every iteration does not change a loop whose iterations all pass it.\<close>

lemma watchdog_live_checked:
  "watchdog_live run app cls w = Done (rss, log, app', w') \<Longrightarrow>
     watchdog_live (checked_iteration ok run) app cls w =
       (if list_all ok rss then Done (rss, log, app', w') else Panic ''run_one_iteration failed'')"
proof (induction cls arbitrary: app w rss log)
  case (Cons cl cls)
  obtain rs cl' app1 w1 where it: "run app cl w = Done (rs, cl', app1, w1)"
    using Cons.prems by auto
  obtain rss1 log1 where rest: "watchdog_live run app1 cls w1 = Done (rss1, log1, app', w')"
    "rss = rs # rss1" "log = cl' # log1"
    using Cons.prems it by auto
  from Cons.IH [OF rest(1)] it rest(2,3) show ?case by (simp add: checked_iteration_def)
qed simp

section \<open>Joining the transport\<close>

text \<open>
  After the drop every step of the feeder thread ends a burst, and the driver thread forwards what
  is queued and leaves its loop.
\<close>

fun driver_left :: "pulse \<Rightarrow> (feed, alarm) bridge \<Rightarrow> nat" where
  "driver_left p b =
     (case pulse_pc p of
        Pulse_Recv \<Rightarrow> 2 * length (out_queue b) + 2
      | Pulse_Forward a \<Rightarrow> 2 * length (out_queue b) + 3
      | Pulse_Join \<Rightarrow> 1
      | Pulse_End r \<Rightarrow> 0)"

lemma pulse_feed_dropped:
  assumes "\<not> in_alive b" and "pulse_feed p b = (p', b')"
  shows "b' = b \<and> length (bursts p') = length (bursts p) - 1 \<and> pulse_pc p' = pulse_pc p"
  using assms by (auto simp: pulse_feed_def bridge_send_def split: list.splits)

lemma pulse_drive_dropped:
  assumes "\<not> out_alive b" and "\<not> in_alive b" and "pulse_drive p b = (p', b')"
  shows "bursts p' = bursts p \<and> \<not> out_alive b' \<and> \<not> in_alive b'
       \<and> (bursts p = [] \<longrightarrow> driver_left p' b' \<le> driver_left p b - 1)
       \<and> driver_left p' b' \<le> driver_left p b"
  using assms
  by (auto simp: pulse_drive_def bridge_recv_def split: pulse_pc.splits list.splits if_splits)

lemma run_pulse_dropped:
  "\<not> in_alive b \<Longrightarrow> \<not> out_alive b \<Longrightarrow> run_thread pulse_program cs p b = (p', b') \<Longrightarrow>
     (pulse_inv p b \<longrightarrow> pulse_inv p' b') \<and> length (bursts p') \<le> length (bursts p) - count_list cs Feeder_Thread
   \<and> driver_left p' b' \<le> driver_left p b \<and> \<not> in_alive b' \<and> \<not> out_alive b'
   \<and> (bursts p = [] \<longrightarrow> driver_left p' b' \<le> driver_left p b - count_list cs Driver_Thread)"
proof (induction cs arbitrary: p b)
  case (Cons c cs)
  obtain p1 b1 where s: "advance pulse_program c p b = (p1, b1)" by (metis prod.exhaust)
  with Cons.prems have rest: "run_thread pulse_program cs p1 b1 = (p', b')" by simp
  have inv: "pulse_inv p b \<longrightarrow> pulse_inv p1 b1"
    using s pulse_advance_inv by (auto simp: pulse_program_def)
  show ?case
  proof (cases c)
    case Feeder_Thread
    with s have "pulse_feed p b = (p1, b1)" by (simp add: pulse_program_def pulse_advance_def)
    from pulse_feed_dropped [OF Cons.prems(1) this] Cons.IH [OF _ _ rest] Cons.prems(1,2) inv
    show ?thesis by (auto simp: Feeder_Thread)
  next
    case Driver_Thread
    with s have "pulse_drive p b = (p1, b1)" by (simp add: pulse_program_def pulse_advance_def)
    from pulse_drive_dropped [OF Cons.prems(2,1) this] Cons.IH [OF _ _ rest] inv
    show ?thesis by (auto simp: Driver_Thread simp del: driver_left.simps)
  qed
qed simp

section \<open>How long the loop runs\<close>

lemma iterations_within_from:
  assumes "\<And>i. elapsed i + LOOP_PERIOD \<le> elapsed (Suc i)"
    and "RUN_FOR \<le> elapsed i + int k * LOOP_PERIOD"
  shows "\<exists>n. iterations_within elapsed i = Some n \<and> i \<le> n \<and> n \<le> i + k
           \<and> (\<forall>j. i \<le> j \<and> j < n \<longrightarrow> elapsed j < RUN_FOR) \<and> \<not> elapsed n < RUN_FOR"
  using assms(2)
proof (induction k arbitrary: i)
  case 0
  then show ?case by (subst iterations_within.simps) auto
next
  case (Suc k)
  show ?case
  proof (cases "elapsed i < RUN_FOR")
    case True
    have "RUN_FOR \<le> elapsed (Suc i) + int k * LOOP_PERIOD"
      using Suc.prems assms(1) [of i] by (simp add: algebra_simps)
    from Suc.IH [OF this] obtain n where n: "iterations_within elapsed (Suc i) = Some n"
      "Suc i \<le> n" "n \<le> Suc i + k" "\<forall>j. Suc i \<le> j \<and> j < n \<longrightarrow> elapsed j < RUN_FOR"
      "\<not> elapsed n < RUN_FOR" by blast
    have "iterations_within elapsed i = Some n"
      by (subst iterations_within.simps) (simp add: True n(1))
    moreover have "elapsed j < RUN_FOR" if "i \<le> j" "j < n" for j
      using that n(4) True by (cases "j = i") auto
    ultimately show ?thesis using n by (intro exI [of _ n]) simp
  qed (subst iterations_within.simps, auto)
qed

lemma iterations_within_ends:
  assumes "\<And>i. elapsed i + LOOP_PERIOD \<le> elapsed (Suc i)" and "0 \<le> elapsed 0"
  obtains n where "iterations_within elapsed 0 = Some n" "n \<le> 80"
    "\<forall>i < n. elapsed i < RUN_FOR" "\<not> elapsed n < RUN_FOR"
proof -
  have "RUN_FOR \<le> elapsed 0 + int 80 * LOOP_PERIOD"
    using assms(2) by (simp add: RUN_FOR_def LOOP_PERIOD_def)
  from iterations_within_from [OF assms(1) this] that show thesis by auto
qed

text \<open>A loop that ends is the loop over the copperlists of its iterations.\<close>

lemma watchdog_timed_live:
  "iterations_within elapsed i = Some n \<Longrightarrow>
     i \<le> n \<and> (\<forall>app w. watchdog_timed run elapsed slot i app w =
       Some (exec_bind (watchdog_live run app (map slot [i..<n]) w)
         (\<lambda>(rss, log, app, w). Done (log, app, w))))"
proof (induction rule: iterations_within.raw_induct [rotated, consumes 1, case_names step])
  case (step within elapsed i n)
  show ?case
  proof (cases "elapsed i < RUN_FOR")
    case True
    with step(2) have "within elapsed (Suc i) = Some n" by simp
    note IH = step(1) [OF this]
    then have "[i..<n] = i # [Suc i..<n]" by (simp add: upt_conv_Cons)
    with True IH show ?thesis
      by (subst watchdog_timed.simps)
        (auto simp: exec_bind_assoc split_def split: exec.split)
  next
    case False
    with step(2) show ?thesis by (subst watchdog_timed.simps) simp
  qed
qed

section \<open>A deployment of the service\<close>

text \<open>
  What \<open>main\<close> relies on outside this repository: message slots and state machines that obey their
  laws, a runtime that starts and stops, whose iteration runs the three tasks in graph order and
  succeeds when they do, that hands out copperlists with consecutive ids and whose log file reads
  back as what was logged, a sleep that lasts at least as long as it is asked to, a usable batch
  size, and a registry in which the two task types have nothing installed.
\<close>

locale watchdog_deployment =
  fixes rt :: "('cfg, 'mi, 'mo) watchdog_runtime"
    and im :: "('mi, feed cycle, u64, u64 \<times> u64) msg_api"
    and om :: "('mo, alarm batch, u64, u64 \<times> u64) msg_api"
    and read_log :: "('mi, 'mo) copperlist list \<Rightarrow>
      (cu_error + ('mi, 'mo) copperlist list \<times> log_end) option"
    and oc :: bool
    and sg :: watchdog_statig
    and r :: "unit registry"
  assumes slots_in: "cu_msg im" and slots_out: "cu_msg om" and sm: "statig sg"
    and runs: "copper_iteration (run_one rt) (watchdog_iteration (bridged_env pulse_program im om) sg)"
    and reports: "\<forall>x \<in> set rs. x = Inr () \<Longrightarrow> iteration_ok rt rs"
    and app: "app_runs rt"
    and starts: "0 \<le> elapsed_at rt 0" "elapsed_at rt 0 < RUN_FOR"
    and sleeps: "elapsed_at rt i + LOOP_PERIOD \<le> elapsed_at rt (Suc i)"
    and ids: "consecutive (map cl_id (slots_given rt))" "ids_in_range oc (map cl_id (slots_given rt))"
    and reads_back: "read_log log = Some (Inr (log, Eof))"
    and batch_size: "\<exists>n. configured_batch (cfg_get rt) (ingress_config rt) = Inr n \<and> n \<noteq> 0"
    and distinct_types: "type_id (ingress_ty (types rt)) \<noteq> type_id (egress_ty (types rt))"
    and registry: "registry_ok r" "installed r (type_id (ingress_ty (types rt))) = None"
      "installed r (type_id (egress_ty (types rt))) = None"
begin

text \<open>The live loop makes at least one and at most eighty iterations.\<close>

lemma loop_ends:
  obtains n where "iterations_within (elapsed_at rt) 0 = Some n" "0 < n" "n \<le> 80"
proof -
  obtain n where n: "iterations_within (elapsed_at rt) 0 = Some n" "n \<le> 80"
    "\<forall>i < n. elapsed_at rt i < RUN_FOR" "\<not> elapsed_at rt n < RUN_FOR"
    by (rule iterations_within_ends [of "elapsed_at rt", OF sleeps starts(1)])
  moreover have "0 < n" using n(4) starts(2) by (cases n) simp_all
  ultimately show thesis by (intro that)
qed

lemma some_slots: "slots_given rt \<noteq> []" and few_slots: "length (slots_given rt) < 2 ^ 64"
  by (rule loop_ends, simp add: slots_given_def)+

lemma service:
  "service_env (bridged_env pulse_program im om) () () bridged_arrived bridged_taken bridged_sent"
  by (rule pulse.bridged_service [OF slots_in slots_out])

lemma pulse_start_live: "pulse_live pulse_start (new_bridge None)"
  by (simp add: pulse_live_def pulse_inv_def pulse_start_def new_bridge_def)

text \<open>The live run up to the drop of the application.\<close>

lemma live_part:
  obtains log w' recs where
    "\<forall>join_turns. watchdog_run_live rt sg join_turns r (watchdog_world_start turns reads) =
       map_option (\<lambda>live. Done (log, live)) (watchdog_collect join_turns (drop_application w'))"
    "exec_map (watchdog_record im om) log = Done recs"
    "map rec_id recs = map cl_id (slots_given rt)"
    "replay_outputs (watchdog_replay_step sg) (map rec_input recs) (watchdog_machine_default sg)
       = Done (map rec_output recs)"
    "bridged_sent w' = recorded_alarms recs"
    "pulse_inv (thread w') (chan w')" "out_alive (chan w')"
    "prefix (concat (map (\<lambda>r. events (rec_input r)) recs)) (map Feed (concat pulse_bursts))"
proof -
  let ?env = "bridged_env pulse_program im om" and ?w = "watchdog_world_start turns reads"
  obtain n where n: "configured_batch (cfg_get rt) (ingress_config rt) = Inr n" "n \<noteq> 0"
    using batch_size by blast
  let ?app = "\<lparr>wd_ingress = \<lparr>cycle_rx = (), max_batch = n\<rparr>,
        wd_fsm = \<lparr>batch_machine = watchdog_machine_default sg\<rparr>,
        wd_egress = \<lparr>batch_egress_tx = ()\<rparr>\<rparr>"
  obtain r1 r2 where built: "watchdog_install (types rt) () () r = Some (Done (), r1)"
    "watchdog_build (cfg_get rt) sg (types rt) (ingress_config rt) r1 = Some (Inr ?app, r2)"
    by (rule watchdog_build_spec [OF registry(1) distinct_types registry(2,3) n])
  have slots: "slot_env ?env" using service by (simp add: service_env_def)
  obtain rss log app' w' recs where live: "watchdog_live (watchdog_iteration ?env sg) ?app
        (slots_given rt) ?w = Done (rss, log, app', w')"
    and recs: "exec_map (watchdog_record (env_in ?env) (env_out ?env)) log = Done recs"
    and rest: "map rec_id recs = map cl_id (slots_given rt)"
      "replay_outputs (watchdog_replay_step sg) (map rec_input recs) (watchdog_machine_default sg)
        = Done (map rec_output recs)"
    by (rule watchdog_cold_live [OF slots sm, of ?app "slots_given rt" ?w]) simp_all
  have start: "pulse_live (thread ?w) (chan ?w)"
    using pulse_start_live by (simp add: watchdog_world_start_def)
  have sends: "world_sends (env_clk ?env) (env_rx ?env) () (env_tx ?env) ()
      (\<lambda>w. pulse_live (thread w) (chan w))"
    using pulse.sends.world_sends_axioms by simp
  from watchdog_live_inv [OF sends, of ?w, OF start _ _ live]
  have alive: "pulse_live (thread w') (chan w')"
    and ok: "\<forall>rs \<in> set rss. \<forall>x \<in> set rs. x = Inr ()" by simp_all
  then have inv: "pulse_inv (thread w') (chan w')" "out_alive (chan w')"
    by (simp_all add: pulse_live_def)
  have "bridged_taken w' = concat (map (\<lambda>r. events (rec_input r)) recs)"
    using watchdog_live_takes [OF service sm _ _ _ live recs]
    by (simp add: watchdog_default(1) [OF sm])
      (simp add: bridged_taken_def watchdog_world_start_def new_bridge_def)
  moreover have "in_taken (chan w') @ in_queue (chan w') @ map Feed (concat (bursts (thread w')))
      = map Feed (concat pulse_bursts)"
    using alive by (simp add: pulse_live_def)
  ultimately have fed: "prefix (concat (map (\<lambda>r. events (rec_input r)) recs))
      (map Feed (concat pulse_bursts))"
    by (metis bridged_taken_def prefixI)
  have "bridged_sent ?w = []"
    by (simp add: bridged_sent_def watchdog_world_start_def new_bridge_def)
  then have sent: "bridged_sent w' = recorded_alarms recs"
    using watchdog_live_sends [OF service sm _ _ _ live recs ok]
    by (simp add: watchdog_default(1) [OF sm])
  have "watchdog_live (checked_iteration (iteration_ok rt) (run_one rt)) ?app (slots_given rt) ?w
      = Done (rss, log, app', w')"
    using watchdog_live_checked [OF live [folded copper_iterationD [OF runs]], of "iteration_ok rt"]
      ok reports by (simp add: list_all_iff)
  moreover obtain k where "iterations_within (elapsed_at rt) 0 = Some k" by (rule loop_ends)
  ultimately have "\<forall>join_turns. watchdog_run_live rt sg join_turns r ?w =
      map_option (\<lambda>live. Done (log, live)) (watchdog_collect join_turns (drop_application w'))"
    using app
    using watchdog_timed_live [of "elapsed_at rt" 0 k "checked_iteration (iteration_ok rt) (run_one rt)"
        "slot_at rt"]
    by (simp add: watchdog_run_live_def watchdog_run_loop_def built app_runs_def slots_given_def)
  from that [OF this _ rest sent inv fed] recs show thesis by simp
qed

text \<open>What \<open>join\<close> and the final drain give: nothing yet, or everything that was sent.\<close>

lemma collected:
  assumes "pulse_inv (thread w) (chan w)" and "out_alive (chan w)"
  shows "watchdog_collect join_turns (drop_application w) \<in> {None, Some (bridged_sent w)}"
proof -
  let ?b = "(chan w)\<lparr>in_alive := False, out_alive := False\<rparr>"
  obtain p b where run: "run_thread pulse_program join_turns (thread w) ?b = (p, b)"
    by (metis prod.exhaust)
  have "pulse_inv (thread w) ?b"
    using assms by (auto simp: pulse_inv_def split: pulse_pc.splits)
  with run_pulse_dropped [OF _ _ run] have "pulse_inv p b" by simp
  moreover have "out_got b @ out_queue b = bridged_sent w"
    using pulse.run_thread_move [OF run] by (simp add: transport_move_def bridged_sent_def)
  ultimately show ?thesis
    by (auto simp: watchdog_collect_def drop_application_def run pulse_inv_def split: pulse_pc.splits)
qed

text \<open>
  Enough turns: the feeder thread gets one per burst, and after that the driver thread gets two per
  alarm sent and three more.
\<close>

lemma collects:
  assumes "pulse_inv (thread w) (chan w)"
    and "length pulse_bursts \<le> count_list feeder_turns Feeder_Thread"
    and "2 * length (bridged_sent w) + 3 \<le> count_list driver_turns Driver_Thread"
  shows "watchdog_collect (feeder_turns @ driver_turns) (drop_application w) \<noteq> None"
proof -
  let ?b = "(chan w)\<lparr>in_alive := False, out_alive := False\<rparr>"
  obtain p1 b1 where run1: "run_thread pulse_program feeder_turns (thread w) ?b = (p1, b1)"
    by (metis prod.exhaust)
  obtain p2 b2 where run2: "run_thread pulse_program driver_turns p1 b1 = (p2, b2)"
    by (metis prod.exhaust)
  have d1: "bursts p1 = []" "driver_left p1 b1 \<le> driver_left (thread w) ?b"
      "\<not> in_alive b1" "\<not> out_alive b1"
    using run_pulse_dropped [OF _ _ run1] assms(1,2)
    by (auto simp: pulse_inv_def simp del: driver_left.simps)
  have "driver_left (thread w) ?b \<le> 2 * length (bridged_sent w) + 3"
    by (auto simp: bridged_sent_def split: pulse_pc.split)
  with d1 run_pulse_dropped [OF d1(3,4) run2] assms(3) have "driver_left p2 b2 = 0" by simp
  then obtain res where "pulse_pc p2 = Pulse_End res" by (auto split: pulse_pc.splits)
  then show ?thesis
    by (simp add: watchdog_collect_def drop_application_def run_thread_append run1 run2)
qed

text \<open>What a run that returned leaves: its log, and the alarms \<open>main\<close> holds, which are those of the log.\<close>

lemma live_outcome:
  assumes "watchdog_run_live rt sg join_turns r (watchdog_world_start turns reads)
      = Some (Done (log, live))"
  obtains recs where "exec_map (watchdog_record im om) log = Done recs"
    "map rec_id recs = map cl_id (slots_given rt)"
    "replay_outputs (watchdog_replay_step sg) (map rec_input recs) (watchdog_machine_default sg)
       = Done (map rec_output recs)"
    "live = recorded_alarms recs"
    "live = concat (fst (watch_run TIMEOUT_NS Never_Fed (map rec_input recs)))"
    "prefix (concat (map (\<lambda>r. events (rec_input r)) recs)) (map Feed (concat pulse_bursts))"
proof -
  obtain log' w' recs where run: "\<forall>join_turns. watchdog_run_live rt sg join_turns r
        (watchdog_world_start turns reads) =
      map_option (\<lambda>live. Done (log', live)) (watchdog_collect join_turns (drop_application w'))"
    and recs: "exec_map (watchdog_record im om) log' = Done recs"
    and rest: "map rec_id recs = map cl_id (slots_given rt)"
      "replay_outputs (watchdog_replay_step sg) (map rec_input recs) (watchdog_machine_default sg)
        = Done (map rec_output recs)"
    and sent: "bridged_sent w' = recorded_alarms recs"
    and inv: "pulse_inv (thread w') (chan w')" "out_alive (chan w')"
    and fed: "prefix (concat (map (\<lambda>r. events (rec_input r)) recs)) (map Feed (concat pulse_bursts))"
    by (rule live_part [of turns reads])
  from assms run collected [OF inv, of join_turns] sent
  have eqs: "log' = log" "live = recorded_alarms recs" by auto
  have "map rec_output recs = map (\<lambda>as. if as = [] then None else Some (Batch as))
      (fst (watch_run TIMEOUT_NS Never_Fed (map rec_input recs)))"
    using replay_outputs_spec [OF sm watchdog_default(1) [OF sm] rest(2)]
    by (simp add: watchdog_default [OF sm])
  then have "live = concat (fst (watch_run TIMEOUT_NS Never_Fed (map rec_input recs)))"
    by (simp add: eqs(2) recorded_alarms_spec)
  then show thesis using that recs rest fed eqs by simp
qed

text \<open>What \<open>main\<close> ends in: nothing yet, its assertion on the kinds of the alarms, or success.\<close>

lemma run_live_returned:
  "watchdog_run_live rt sg join_turns r (watchdog_world_start turns reads) = None
   \<or> (\<exists>log live. watchdog_run_live rt sg join_turns r (watchdog_world_start turns reads)
        = Some (Done (log, live)))"
proof -
  obtain log w' where "\<forall>join_turns. watchdog_run_live rt sg join_turns r
        (watchdog_world_start turns reads) =
      map_option (\<lambda>live. Done (log, live)) (watchdog_collect join_turns (drop_application w'))"
    by (rule live_part [of turns reads])
  then show ?thesis by (cases "watchdog_collect join_turns (drop_application w')") auto
qed

lemma main_outcome:
  assumes "watchdog_run_live rt sg join_turns r (watchdog_world_start turns reads)
      = Some (Done (log, live))"
    and "\<And>b. result_ok (encode None) \<noteq> result_ok (encode (Some b))"
  shows "watchdog_main rt im om read_log oc encode show_i show_o sg join_turns r
           (watchdog_world_start turns reads)
         = Some (if map alarm_kind live = [''armed'', ''tripped'', ''recovered'', ''tripped''] then Done ()
                 else Panic ''live run did not arm, trip on silence, recover, and trip after the last feed'')"
proof -
  obtain recs where recs: "exec_map (watchdog_record im om) log = Done recs"
    "map rec_id recs = map cl_id (slots_given rt)"
    "replay_outputs (watchdog_replay_step sg) (map rec_input recs) (watchdog_machine_default sg)
       = Done (map rec_output recs)"
    "live = recorded_alarms recs"
    by (rule live_outcome [OF assms(1)])
  have "watchdog_read_recorded im om watchdog_ids (read_log log) = Some (Done recs)"
    using read_recorded_clean [OF recs(1)] reads_back by simp
  moreover have "watchdog_checks oc encode show_i show_o sg live recs = Done ()"
    if "map alarm_kind live = [''armed'', ''tripped'', ''recovered'', ''tripped'']"
    unfolding recs(4)
    by (rule watchdog_checks_pass [OF sm recs(3,2)])
      (use that recs(4) assms(2) some_slots few_slots ids in simp_all)
  ultimately show ?thesis by (simp add: watchdog_main_def assms(1))
qed

end

section \<open>A deployment to run\<close>

definition demo_runtime ::
    "(unit, (feed cycle, u64, u64 \<times> u64) slot, (alarm batch, u64, u64 \<times> u64) slot) watchdog_runtime"
  where
  "demo_runtime =
     \<lparr>log_path_str = Some ''wd.copper'', with_log_path = (\<lambda>_ _. Inr ()), start_all_tasks = Inr (),
      stop_all_tasks = Inr (), cfg_get = (\<lambda>_ _. Inr (Some 16)), ingress_config = Some (), types = demo_types,
      run_one = watchdog_iteration (bridged_env pulse_program slot_api slot_api) leaf_statig,
      iteration_ok = list_all (\<lambda>x. x = Inr ()), elapsed_at = (\<lambda>i. int i * 120000000),
      slot_at = (\<lambda>i. \<lparr>cl_id = of_nat i, ingress_slot = fresh_slot, fsm_slot = fresh_slot\<rparr>)\<rparr>"

definition demo_read_log :: "'cl list \<Rightarrow> (cu_error + 'cl list \<times> log_end) option" where
  "demo_read_log log = Some (Inr (log, Eof))"

lemma demo_runtime_slots: "slots_given demo_runtime = demo_copperlists"
  by code_simp

interpretation demo: watchdog_deployment demo_runtime slot_api slot_api demo_read_log True leaf_statig
    None
proof
  show "\<exists>n. configured_batch (cfg_get demo_runtime) (ingress_config demo_runtime) = Inr n \<and> n \<noteq> 0"
    by (simp add: demo_runtime_def configured_batch_def)
  show "consecutive (map cl_id (slots_given demo_runtime))"
    "ids_in_range True (map cl_id (slots_given demo_runtime))"
    by (simp_all only: demo_runtime_slots demo_copperlists_ids)
qed (simp_all add: demo_runtime_def demo_types_def demo_read_log_def app_runs_def setup_log_def
    RUN_FOR_def LOOP_PERIOD_def slot_msg.cu_msg_axioms leaf.statig_axioms list_all_iff)

text \<open>
  The feeder thread sends one feed before the first operation of the DAG and one in the third
  iteration; the clock moves by more than the timeout between two readings.
\<close>

definition demo_turns :: "pulse_thread list list" where
  "demo_turns = [[Feeder_Thread]] @ replicate 10 [] @ [[Feeder_Thread, Driver_Thread]]"

definition demo_join :: "pulse_thread list" where
  "demo_join = replicate 2 Feeder_Thread @ replicate 11 Driver_Thread"

definition demo_start :: watchdog_world where
  "demo_start = watchdog_world_start demo_turns (\<lambda>n. of_nat n * 60000000)"

section \<open>Properties\<close>

text \<open>
  C1. The whole program, under every schedule of its three threads, every pace of the clock and any
  number of iterations: \<open>main\<close> either succeeds, with the log equal to the alarms received, the replay
  passed and the negative control failed, or stops at its first assertion, on the kinds of the live
  alarms, or still waits in \<open>join\<close> because the schedule has not let the transport finish. No other
  panic, no lost alarm, no failed replay is possible.
\<close>

theorem watchdog_main_any_schedule:
  assumes "watchdog_deployment rt im om read_log oc sg r"
    and "\<And>b. result_ok (encode None) \<noteq> result_ok (encode (Some b))"
  shows "watchdog_main rt im om read_log oc encode show_i show_o sg join_turns r
           (watchdog_world_start turns reads)
         \<in> {Some (Done ()), None, Some (Panic
              ''live run did not arm, trip on silence, recover, and trip after the last feed'')}"
  using watchdog_deployment.run_live_returned [OF assms(1), of join_turns turns reads]
proof (elim disjE exE)
  assume "watchdog_run_live rt sg join_turns r (watchdog_world_start turns reads) = None"
  then show ?thesis by (simp add: watchdog_main_def)
next
  fix log live
  assume "watchdog_run_live rt sg join_turns r (watchdog_world_start turns reads) = Some (Done (log, live))"
  from watchdog_deployment.main_outcome [OF assms(1) this assms(2)] show ?thesis by simp
qed

theorem watchdog_main_any_schedule_witness:
  "watchdog_main demo_runtime slot_api slot_api demo_read_log True encode_count (\<lambda>_. '''') (\<lambda>_. '''')
     leaf_statig demo_join None (watchdog_world_start demo_turns (\<lambda>n. of_nat n * 60000000))
   \<in> {Some (Done ()), None, Some (Panic
        ''live run did not arm, trip on silence, recover, and trip after the last feed'')}"
  by (rule watchdog_main_any_schedule [OF demo.watchdog_deployment_axioms encode_count_None])

text \<open>
  C18. \<open>main\<close> does come to its end: once the application is dropped, the feeder thread needs a bounded
  number of turns and the driver thread a number that grows with the alarms sent. Every schedule that
  gives the feeder thread its turns first, one per burst, and the driver thread its turns after
  these, two per alarm and three more, with any other turns in between, lets \<open>join\<close> return; what
  \<open>main\<close> then holds is all the alarms of the log.
\<close>

theorem watchdog_run_live_returns:
  assumes "watchdog_deployment rt im om read_log oc sg r"
  shows "\<exists>log recs. exec_map (watchdog_record im om) log = Done recs
         \<and> (\<forall>join_turns feeder_turns driver_turns. join_turns = feeder_turns @ driver_turns
              \<and> 2 \<le> count_list feeder_turns Feeder_Thread
              \<and> 2 * length (recorded_alarms recs) + 3 \<le> count_list driver_turns Driver_Thread
            \<longrightarrow> watchdog_run_live rt sg join_turns r (watchdog_world_start turns reads)
                  = Some (Done (log, recorded_alarms recs)))"
proof -
  note D = assms(1)
  obtain log w' recs where run: "\<forall>join_turns. watchdog_run_live rt sg join_turns r
        (watchdog_world_start turns reads) =
      map_option (\<lambda>live. Done (log, live)) (watchdog_collect join_turns (drop_application w'))"
    and recs: "exec_map (watchdog_record im om) log = Done recs"
    and w': "bridged_sent w' = recorded_alarms recs" "pulse_inv (thread w') (chan w')"
      "out_alive (chan w')"
      "prefix (concat (map (\<lambda>r. events (rec_input r)) recs)) (map Feed (concat pulse_bursts))"
    by (rule watchdog_deployment.live_part [OF D, of turns reads])
  have "watchdog_collect (f @ d) (drop_application w') = Some (recorded_alarms recs)"
    if "2 \<le> count_list f Feeder_Thread"
      "2 * length (recorded_alarms recs) + 3 \<le> count_list d Driver_Thread" for f d
    using watchdog_deployment.collected [OF D w'(2,3), of "f @ d"]
      watchdog_deployment.collects [OF D w'(2), of f d] that w'(1)
    by (auto simp: pulse_bursts_def)
  with recs run show ?thesis by (intro exI [of _ log] exI [of _ recs]) simp
qed

lemma count_replicate: "count_list (replicate n x) x = n"
  by (induction n) simp_all

theorem watchdog_run_live_returns_witness:
  "\<exists>log live. watchdog_run_live demo_runtime leaf_statig
       (replicate 2 Feeder_Thread @ replicate (2 * length live + 3) Driver_Thread) None demo_start
     = Some (Done (log, live))"
proof -
  obtain log recs where run: "\<forall>join_turns feeder_turns driver_turns.
        join_turns = feeder_turns @ driver_turns \<and> 2 \<le> count_list feeder_turns Feeder_Thread
        \<and> 2 * length (recorded_alarms recs) + 3 \<le> count_list driver_turns Driver_Thread
      \<longrightarrow> watchdog_run_live demo_runtime leaf_statig join_turns None demo_start
            = Some (Done (log, recorded_alarms recs))"
    using watchdog_run_live_returns [OF demo.watchdog_deployment_axioms, of demo_turns
        "\<lambda>n. of_nat n * 60000000"]
    unfolding demo_start_def by blast
  have "2 \<le> count_list (replicate 2 Feeder_Thread) Feeder_Thread"
    and "2 * length (recorded_alarms recs) + 3
      \<le> count_list (replicate (2 * length (recorded_alarms recs) + 3) Driver_Thread) Driver_Thread"
    by (simp_all only: count_replicate)
  with run show ?thesis by blast
qed

text \<open>The outcome of the demonstration run: \<open>main\<close> succeeds.\<close>

lemma demo_main:
  "watchdog_main demo_runtime slot_api slot_api demo_read_log True encode_count (\<lambda>_. '''') (\<lambda>_. '''')
     leaf_statig demo_join None demo_start = Some (Done ())"
  by code_simp

text \<open>
  C2. The composition of the whole live path, channel to channel, under every schedule and pace of the
  clock: whenever \<open>run_live\<close> returns, the alarms it hands to \<open>main\<close> are exactly what the watchdog
  described in three states emits for the logged cycles, with the feeds and times the ingress task put
  on them, and no alarm is lost, repeated or reordered on the way. The feeds of those cycles, joined,
  are the first feeds of the two bursts the transport sends, each delivered once and in order; the
  cycles are one per iteration; and the alarms arm once, then trip and recover in turn, each trip
  after a silence longer than the timeout.
\<close>

theorem watchdog_live_meets_spec:
  assumes "watchdog_deployment rt im om read_log oc sg r"
    and "watchdog_run_live rt sg join_turns r (watchdog_world_start turns reads)
      = Some (Done (log, live))"
  shows "\<exists>recs. exec_map (watchdog_record im om) log = Done recs
         \<and> map rec_id recs = map cl_id (slots_given rt)
         \<and> live = concat (fst (watch_run TIMEOUT_NS Never_Fed (map rec_input recs)))
         \<and> prefix (concat (map (\<lambda>r. events (rec_input r)) recs))
             (map Feed ([0, 1, 2, 3, 4] @ [5, 6, 7]))
         \<and> alarm_stream_ok live
         \<and> (\<forall>d. Tripped d \<in> set live \<longrightarrow> TIMEOUT_NS < d)"
proof (rule watchdog_deployment.live_outcome [OF assms])
  fix recs
  assume recs: "exec_map (watchdog_record im om) log = Done recs"
    "map rec_id recs = map cl_id (slots_given rt)"
    and live: "live = concat (fst (watch_run TIMEOUT_NS Never_Fed (map rec_input recs)))"
    and fed: "prefix (concat (map (\<lambda>r. events (rec_input r)) recs)) (map Feed (concat pulse_bursts))"
  have "alarm_stream_ok live" "\<forall>d. Tripped d \<in> set live \<longrightarrow> TIMEOUT_NS < d"
    using watch_run_stream [of Never_Fed] watch_run_trips [of _ TIMEOUT_NS] by (auto simp: live)
  moreover have "concat pulse_bursts = [0, 1, 2, 3, 4] @ [5, 6, 7]" by code_simp
  ultimately show ?thesis
    using live recs fed by (intro exI [of _ recs]) (simp only: simp_thms)
qed

theorem watchdog_live_meets_spec_witness:
  "\<exists>log live. \<exists>recs :: watchdog_recorded list.
     watchdog_run_live demo_runtime leaf_statig demo_join None demo_start
       = Some (Done (log, live))
     \<and> live = concat (fst (watch_run TIMEOUT_NS Never_Fed (map rec_input recs)))
     \<and> map alarm_kind live = [''armed'', ''tripped'', ''recovered'', ''tripped'']"
proof -
  have "(case watchdog_run_live demo_runtime leaf_statig demo_join None demo_start of
        Some (Done (log, live)) \<Rightarrow> map alarm_kind live
      | _ \<Rightarrow> []) = [''armed'', ''tripped'', ''recovered'', ''tripped'']" by code_simp
  then obtain log live where run: "watchdog_run_live demo_runtime leaf_statig demo_join None demo_start
       = Some (Done (log, live))"
    and kinds: "map alarm_kind live = [''armed'', ''tripped'', ''recovered'', ''tripped'']"
    by (auto split: option.splits exec.splits)
  from watchdog_live_meets_spec [OF demo.watchdog_deployment_axioms run [unfolded demo_start_def]]
  obtain recs :: "watchdog_recorded list"
    where "live = concat (fst (watch_run TIMEOUT_NS Never_Fed (map rec_input recs)))"
    by blast
  with run kinds show ?thesis by (intro exI [of _ log] exI [of _ live] exI [of _ recs] conjI)
qed

text \<open>
  C3. When \<open>main\<close> does succeed, whatever the schedule and the clock: \<open>run_live\<close> returned, and the cycles
  of its log show the timing the transport is written for, feeds with gaps within the timeout, then
  a silence longer than it, then feeds again and another such silence.
\<close>

theorem watchdog_main_succeeds_on_time:
  assumes "watchdog_deployment rt im om read_log oc sg r"
    and "\<And>b. result_ok (encode None) \<noteq> result_ok (encode (Some b))"
    and "watchdog_run_live rt sg join_turns r (watchdog_world_start turns reads)
      = Some (Done (log, live))"
    and "exec_map (watchdog_record im om) log = Done recs"
    and "two_silences (map rec_input recs)"
  shows "watchdog_main rt im om read_log oc encode show_i show_o sg join_turns r
           (watchdog_world_start turns reads) = Some (Done ())"
proof -
  obtain recs' where "exec_map (watchdog_record im om) log = Done recs'"
    "live = concat (fst (watch_run TIMEOUT_NS Never_Fed (map rec_input recs')))"
    by (rule watchdog_deployment.live_outcome [OF assms(1,3)])
  with assms(4) have live: "live = concat (fst (watch_run TIMEOUT_NS Never_Fed (map rec_input recs)))"
    by simp
  obtain d1 d2 where "concat (fst (watch_run TIMEOUT_NS Never_Fed (map rec_input recs)))
      = [Armed, Tripped d1, Recovered, Tripped d2]"
    by (rule watch_run_two_silences [OF assms(5)])
  with watchdog_deployment.main_outcome [OF assms(1,3,2)] show ?thesis by (simp add: live)
qed

definition demo_logged :: "feed cycle list" where
  "demo_logged =
     [\<lparr>now_ns = 0, events = [Feed 0], pending = 0\<rparr>,
      \<lparr>now_ns = 120000000, events = [], pending = 0\<rparr>,
      \<lparr>now_ns = 240000000, events = [Feed 1], pending = 0\<rparr>,
      \<lparr>now_ns = 360000000, events = [], pending = 0\<rparr>]"

lemma demo_logged_timing: "two_silences demo_logged"
  unfolding two_silences_def
  by (rule exI [of _ "[demo_logged ! 0]"], rule exI [of _ "[demo_logged ! 1]"],
      rule exI [of _ "demo_logged ! 2"], rule exI [of _ "[]"], rule exI [of _ "[demo_logged ! 3]"],
      rule exI [of _ 0], rule exI [of _ 240000000])
    (simp add: demo_logged_def silent_past_def TIMEOUT_NS_def)

theorem watchdog_main_succeeds_on_time_witness:
  "two_silences demo_logged
   \<and> watchdog_main demo_runtime slot_api slot_api demo_read_log True encode_count (\<lambda>_. '''') (\<lambda>_. '''')
       leaf_statig demo_join None (watchdog_world_start demo_turns (\<lambda>n. of_nat n * 60000000))
     = Some (Done ())"
proof -
  have "(case watchdog_run_live demo_runtime leaf_statig demo_join None demo_start of
        Some (Done (log, live)) \<Rightarrow>
          (case exec_map (watchdog_record slot_api slot_api) log of
             Done recs \<Rightarrow> map rec_input recs = demo_logged
           | Panic p \<Rightarrow> False)
      | _ \<Rightarrow> False)" by code_simp
  then obtain log live recs where run: "watchdog_run_live demo_runtime leaf_statig demo_join None
        demo_start = Some (Done (log, live))"
    and recs: "exec_map (watchdog_record slot_api slot_api) log = Done recs"
    and cycles: "map rec_input recs = demo_logged"
    by (auto split: option.splits exec.splits)
  have "two_silences (map rec_input recs)" unfolding cycles by (rule demo_logged_timing)
  with watchdog_main_succeeds_on_time [OF demo.watchdog_deployment_axioms encode_count_None
      run [unfolded demo_start_def] recs] demo_logged_timing
  show ?thesis by blast
qed

text \<open>
  C20. The live loop ends: if every turn of the loop, an iteration and the sleep after it, takes at
  least \<open>LOOP_PERIOD\<close>, then however much longer the turns take the loop is \<open>n\<close> iterations, at most 80, each
  begun before \<open>RUN_FOR\<close> had passed, and unless one of them panics it does not stop before then.
\<close>

theorem watchdog_loop_bounded:
  assumes "\<forall>i. elapsed i + LOOP_PERIOD \<le> elapsed (Suc i)" and "0 \<le> elapsed 0"
  shows "\<exists>n \<le> 80. iterations_within elapsed 0 = Some n
           \<and> watchdog_timed iterate elapsed slot 0 app w =
               Some (exec_bind (watchdog_live iterate app (map slot [0..<n]) w)
                 (\<lambda>(rss, log, app, w). Done (log, app, w)))
           \<and> (\<forall>i < n. elapsed i < RUN_FOR) \<and> RUN_FOR \<le> elapsed n"
proof -
  obtain n where n: "iterations_within elapsed 0 = Some n" "n \<le> 80" "\<forall>i < n. elapsed i < RUN_FOR"
    "\<not> elapsed n < RUN_FOR"
    by (rule iterations_within_ends [of elapsed, OF _ assms(2)]) (use assms(1) in blast)
  with watchdog_timed_live [OF n(1), of iterate slot] show ?thesis
    by (intro exI [of _ n]) simp
qed

text \<open>On a clock that passes exactly \<open>LOOP_PERIOD\<close> per turn the bound is reached.\<close>

theorem watchdog_loop_bounded_witness:
  "iterations_within (\<lambda>i. int i * LOOP_PERIOD) 0 = Some 80
   \<and> watchdog_timed demo_run_one (\<lambda>i. int i * LOOP_PERIOD) (\<lambda>i. demo_copperlists ! 0) 0 demo_app demo_run_world
     = Some (exec_bind (watchdog_live demo_run_one demo_app
           (map (\<lambda>i. demo_copperlists ! 0) [0..<80]) demo_run_world)
         (\<lambda>(rss, log, app, w). Done (log, app, w)))"
proof -
  have sleep: "\<forall>i. int i * LOOP_PERIOD + LOOP_PERIOD \<le> int (Suc i) * LOOP_PERIOD"
    and start: "0 \<le> int 0 * LOOP_PERIOD"
    by (simp_all add: algebra_simps)
  obtain n where n: "n \<le> 80" "iterations_within (\<lambda>i. int i * LOOP_PERIOD) 0 = Some n"
    "watchdog_timed demo_run_one (\<lambda>i. int i * LOOP_PERIOD) (\<lambda>i. demo_copperlists ! 0) 0 demo_app demo_run_world
     = Some (exec_bind (watchdog_live demo_run_one demo_app
           (map (\<lambda>i. demo_copperlists ! 0) [0..<n]) demo_run_world)
         (\<lambda>(rss, log, app, w). Done (log, app, w)))"
    and last: "RUN_FOR \<le> int n * LOOP_PERIOD"
    using watchdog_loop_bounded [OF sleep start, of demo_run_one "\<lambda>i. demo_copperlists ! 0" demo_app
        demo_run_world] by blast
  from last n(1) have "n = 80" by (simp add: RUN_FOR_def LOOP_PERIOD_def)
  with n(2,3) show ?thesis by blast
qed

end
