(* ===== verification/Spike.thy ===== *)
theory Spike
  imports Copper
begin

text \<open>
  \<open>spike/src/main.rs\<close>: the integration spike that fixed the signatures the rest of the program
  uses. The counter source with its freeze and thaw hooks, the printing sink, and the two-state
  statig machine. \<open>println!\<close> appends a line to a log in the world. Integers are \<open>i32\<close> and \<open>u32\<close>.
\<close>

section \<open>The counter source and the printing sink\<close>


record counter =
  count :: i32

definition counter_default :: counter where
  "counter_default = \<lparr>count = 0\<rparr>"

definition counter_new :: "cu_error + counter" where
  "counter_new = Inr counter_default"

text \<open>\<open>encode\<close> and \<open>decode\<close> are the bincode codec of \<open>i32\<close> on a stream of bytes.\<close>

definition counter_freeze :: "(i32 \<Rightarrow> 'b list \<Rightarrow> 'e + 'b list) \<Rightarrow> counter \<Rightarrow> 'b list \<Rightarrow> 'e + 'b list"
  where
  "counter_freeze encode c bytes = encode (count c) bytes"

definition counter_thaw ::
    "('b list \<Rightarrow> 'e + (i32 \<times> 'b list)) \<Rightarrow> counter \<Rightarrow> 'b list \<Rightarrow> ('e + 'b list) \<times> counter" where
  "counter_thaw decode c bytes =
     (case decode bytes of
        Inl e \<Rightarrow> (Inl e, c)
      | Inr (n, rest) \<Rightarrow> (Inr rest, c\<lparr>count := n\<rparr>))"

text \<open>\<open>+= 1\<close> on \<open>i32\<close>: overflow at the largest signed value.\<close>

definition inc_i32 :: "bool \<Rightarrow> i32 \<Rightarrow> i32 exec" where
  "inc_i32 oc n =
     (if sint n = 2 ^ 31 - 1 \<and> oc then Panic ''attempt to add with overflow'' else Done (n + 1))"

definition counter_process ::
    "bool \<Rightarrow> ('w, 't, 'r) clock_api \<Rightarrow> ('mo, i32, 't, 'r) msg_api \<Rightarrow> counter \<Rightarrow> 'mo \<Rightarrow> 'w \<Rightarrow>
     ((cu_error + unit) \<times> counter \<times> 'mo \<times> 'w) exec" where
  "counter_process oc clk om c output w =
     exec_bind (inc_i32 oc (count c)) (\<lambda>n.
       let c = c\<lparr>count := n\<rparr>; output = set_payload om (count c) output; (t, w) = now clk w
       in Done (Inr (), c, set_tov om (Tov_Time t) output, w))"

text \<open>\<open>log_line\<close> is what \<open>println!\<close> does to the world; \<open>show_i\<close> is \<open>Display\<close> of \<open>i32\<close>.\<close>

definition printer_process ::
    "(string \<Rightarrow> 'w \<Rightarrow> 'w) \<Rightarrow> (i32 \<Rightarrow> string) \<Rightarrow> ('mi, i32, 't, 'r) msg_api \<Rightarrow> 'mi \<Rightarrow> 'w \<Rightarrow>
     (cu_error + unit) \<times> 'w" where
  "printer_process log_line show_i im input w =
     (case payload im input of
        Some value \<Rightarrow> (Inr (), log_line (''[copper sink] received i32 = '' @ show_i value) w)
      | None \<Rightarrow> (Inr (), w))"

section \<open>The gate\<close>

record gate_ctx =
  transitions :: u32
  gate_lines :: "string list"

datatype gate_state = State_Closed | State_Open

datatype toggle = Toggle

definition gate_log :: "string \<Rightarrow> gate_ctx \<Rightarrow> gate_ctx" where
  "gate_log line c = c\<lparr>gate_lines := gate_lines c @ [line]\<rparr>"

definition gate_closed :: "bool \<Rightarrow> toggle \<Rightarrow> gate_ctx \<Rightarrow> (gate_state outcome \<times> gate_ctx) exec" where
  "gate_closed oc event c =
     exec_bind (add_word oc (transitions c) 1) (\<lambda>n.
       let c = c\<lparr>transitions := n\<rparr> in
       Done (Transition State_Open,
             gate_log (''[statig] closed -> open (transition #'' @ show_word (transitions c) @ '')'') c))"

definition gate_open :: "bool \<Rightarrow> toggle \<Rightarrow> gate_ctx \<Rightarrow> (gate_state outcome \<times> gate_ctx) exec" where
  "gate_open oc event c =
     exec_bind (add_word oc (transitions c) 1) (\<lambda>n.
       let c = c\<lparr>transitions := n\<rparr> in
       Done (Transition State_Closed,
             gate_log (''[statig] open -> closed (transition #'' @ show_word (transitions c) @ '')'') c))"

fun gate_handlers :: "bool \<Rightarrow> (gate_state, toggle, gate_ctx) handlers" where
  "gate_handlers oc State_Closed = gate_closed oc"
| "gate_handlers oc State_Open = gate_open oc"

fun gate_state_name :: "gate_state \<Rightarrow> string" where
  "gate_state_name State_Closed = ''Closed''"
| "gate_state_name State_Open = ''Open''"

type_synonym gate_statig = "(gate_state, toggle, gate_ctx) statig_api"

text \<open>The body of the loop of \<open>run_statig\<close>, \<open>n\<close> times.\<close>

fun gate_loop :: "bool \<Rightarrow> gate_statig \<Rightarrow> nat \<Rightarrow> gate_state \<Rightarrow> gate_ctx \<Rightarrow> (gate_state \<times> gate_ctx) exec" where
  "gate_loop oc sg 0 s c = Done (s, c)"
| "gate_loop oc sg (Suc n) s c =
     exec_bind (handle_with_context sg (gate_handlers oc) s Toggle c) (\<lambda>(s, c).
       gate_loop oc sg n s (gate_log (''[statig] now in state = '' @ gate_state_name s) c))"

definition run_statig :: "bool \<Rightarrow> gate_statig \<Rightarrow> (gate_state \<times> gate_ctx) exec" where
  "run_statig oc sg =
     (let (s, c) = init_with_context sg State_Closed \<lparr>transitions = 0, gate_lines = []\<rparr>;
          c = gate_log (''[statig] initial state = '' @ gate_state_name s) c
      in exec_bind (gate_loop oc sg 3 s c) (\<lambda>(s, c).
           Done (s, gate_log (''[statig] total transitions recorded in context = '' @
                              show_word (transitions c)) c)))"

section \<open>Properties\<close>

lemma gate_toggle:
  assumes "statig sg" and "unat (transitions c) + 1 < 2 ^ 32"
  obtains c' where "handle_with_context sg (gate_handlers oc) s Toggle c
      = Done (if s = State_Closed then State_Open else State_Closed, c')"
    "unat (transitions c') = Suc (unat (transitions c))"
proof -
  have add: "add_word oc (transitions c) 1 = Done (transitions c + 1)"
    using assms(2) by (simp add: add_word_def)
  have "unat (transitions c + 1) = Suc (unat (transitions c))"
    using assms(2) unat_add_lem [of "transitions c" 1] by simp
  then show thesis
    by (cases s) (auto intro!: that simp: statig.dispatch [OF assms(1)] gate_closed_def gate_open_def
        add Let_def gate_log_def)
qed

text \<open>
  The gate alternates: after \<open>n\<close> toggles, short of the counter's overflow, the machine has not
  panicked, the counter has grown by \<open>n\<close>, and the state has changed exactly when \<open>n\<close> is odd.
\<close>

lemma gate_alternates:
  assumes "statig sg" and "unat (transitions c) + n < 2 ^ 32"
  shows "\<exists>c'. gate_loop oc sg n s c =
             Done (if even n then s else if s = State_Closed then State_Open else State_Closed, c')
           \<and> unat (transitions c') = unat (transitions c) + n"
  using assms(2)
proof (induction n arbitrary: s c)
  case (Suc n)
  have "unat (transitions c) + 1 < 2 ^ 32" using Suc.prems by simp
  then obtain c1 where t: "handle_with_context sg (gate_handlers oc) s Toggle c
      = Done (if s = State_Closed then State_Open else State_Closed, c1)"
    "unat (transitions c1) = Suc (unat (transitions c))"
    by (rule gate_toggle [OF assms(1)])
  let ?s = "if s = State_Closed then State_Open else State_Closed"
  let ?c = "gate_log (''[statig] now in state = '' @ gate_state_name ?s) c1"
  have c: "unat (transitions ?c) = Suc (unat (transitions c))"
    using t(2) by (simp add: gate_log_def)
  from Suc.IH [of ?c ?s] Suc.prems c t(1) show ?case
    by (cases s) auto
qed simp

lemma gate_alternates_witness:
  "\<exists>c'. gate_loop True leaf_statig 3 State_Closed \<lparr>transitions = 0, gate_lines = []\<rparr> = Done (State_Open, c')
     \<and> unat (transitions c') = 3"
  using gate_alternates [OF leaf.statig_axioms, of "\<lparr>transitions = 0, gate_lines = []\<rparr>" 3 True State_Closed]
  by simp

text \<open>
  Freeze and thaw: when the codec of \<open>i32\<close> decodes what it encoded, thawing a frozen counter
  into any other counter restores it and leaves the rest of the stream, and the restored counter
  emits the same next value as the frozen one.
\<close>

lemma counter_freeze_thaw:
  assumes "\<And>n rest bytes. encode n rest = Inr bytes \<Longrightarrow> decode bytes = Inr (n, rest)"
    and "counter_freeze encode c rest = Inr bytes"
  shows "counter_thaw decode c0 bytes = (Inr rest, c)
       \<and> counter_process oc clk om (snd (counter_thaw decode c0 bytes)) output w
           = counter_process oc clk om c output w"
proof -
  have "decode bytes = Inr (count c, rest)"
    using assms by (simp add: counter_freeze_def)
  then have "counter_thaw decode c0 bytes = (Inr rest, c)"
    by (cases c; cases c0) (simp add: counter_thaw_def)
  then show ?thesis by simp
qed

end
