(* ===== verification/Spike_App.thy ===== *)
theory Spike_App
  imports Spike Dag
begin

text \<open>
  \<open>main\<close> of \<open>spike/src/main.rs\<close>: five iterations of the \<open>src, sink\<close> graph under the copper runtime,
  then the statig demonstration, with everything the program prints.
\<close>

section \<open>Standard output\<close>

text \<open>
  \<open>println\<close> appends a line to what was printed; reading the clock and stepping the runtime print
  nothing of their own.
\<close>

locale console =
  fixes println :: "string \<Rightarrow> 'w \<Rightarrow> 'w"
    and printed :: "'w \<Rightarrow> string list"
    and clk :: "('w, 't, 'r) clock_api"
  assumes prints: "printed (println s w) = printed w @ [s]"
    and clock_silent: "now clk w = (t, w') \<Longrightarrow> printed w' = printed w"
begin

lemma prints_all: "printed (fold println ss w) = printed w @ ss"
  by (induction ss arbitrary: w) (simp_all add: prints)

end

text \<open>A terminal and a clock that ticks at every reading.\<close>

record terminal =
  screen :: "string list"
  uptime :: u64

definition terminal_println :: "string \<Rightarrow> terminal \<Rightarrow> terminal" where
  "terminal_println s w = w\<lparr>screen := screen w @ [s]\<rparr>"

definition terminal_clk :: "(terminal, u64, u64 \<times> u64) clock_api" where
  "terminal_clk =
     \<lparr>now = (\<lambda>w. (uptime w, w\<lparr>uptime := uptime w + 1\<rparr>)), as_nanos = (\<lambda>t. t), range_start = fst\<rparr>"

interpretation terminal: console terminal_println screen terminal_clk
  by unfold_locales (auto simp: terminal_println_def terminal_clk_def)

section \<open>\<open>main\<close>\<close>

datatype printer = Printer

definition printer_new :: "cu_error + printer" where
  "printer_new = Inr Printer"

record spike_app =
  src :: counter
  sink :: printer

definition spike_build :: "cu_error + spike_app" where
  "spike_build =
     (case counter_new of
        Inl e \<Rightarrow> Inl e
      | Inr c \<Rightarrow> (case printer_new of Inl e \<Rightarrow> Inl e | Inr p \<Rightarrow> Inr \<lparr>src = c, sink = p\<rparr>))"

text \<open>One iteration of the graph on the one message slot of a copperlist.\<close>

definition spike_iteration ::
    "bool \<Rightarrow> (string \<Rightarrow> 'w \<Rightarrow> 'w) \<Rightarrow> (i32 \<Rightarrow> string) \<Rightarrow> ('w, 't, 'r) clock_api \<Rightarrow>
     ('m, i32, 't, 'r) msg_api \<Rightarrow> spike_app \<Rightarrow> 'm \<Rightarrow> 'w \<Rightarrow>
     ((cu_error + unit) list \<times> spike_app \<times> 'w) exec" where
  "spike_iteration oc println show_i clk om app msg w =
     exec_bind (counter_process oc clk om (src app) msg w) (\<lambda>(r0, c, msg, w).
       let (r1, w) = printer_process println show_i om msg w
       in Done ([r0, r1], app\<lparr>src := c\<rparr>, w))"

text \<open>
  What \<open>main\<close> uses of the runtime: \<open>run_one_iteration\<close>, whether it reports an error for given results
  of the tasks, the slots it allots, and the \<open>Display\<close> of a time.
\<close>

record ('w, 't, 'm) spike_runtime = app_runtime +
  spike_run_one :: "spike_app \<Rightarrow> 'm \<Rightarrow> 'w \<Rightarrow> ((cu_error + unit) list \<times> spike_app \<times> 'w) exec"
  spike_iteration_ok :: "(cu_error + unit) list \<Rightarrow> bool"
  spike_slot :: "nat \<Rightarrow> 'm"
  show_time :: "'t \<Rightarrow> string"

text \<open>The loop over the given iteration numbers.\<close>

fun spike_live ::
    "('w, 't, 'm) spike_runtime \<Rightarrow> (string \<Rightarrow> 'w \<Rightarrow> 'w) \<Rightarrow> nat list \<Rightarrow> spike_app \<Rightarrow> 'w \<Rightarrow>
     (spike_app \<times> 'w) exec" where
  "spike_live rt println [] app w = Done (app, w)"
| "spike_live rt println (i # is) app w =
     (let w = println (''[copper] --- iteration '' @ show_nat i @ '' ---'') w in
      exec_bind (spike_run_one rt app (spike_slot rt i) w) (\<lambda>(rs, app, w).
        if spike_iteration_ok rt rs then spike_live rt println is app w
        else Panic ''run_one_iteration failed''))"

definition spike_main ::
    "('w, 't, 'm) spike_runtime \<Rightarrow> (string \<Rightarrow> 'w \<Rightarrow> 'w) \<Rightarrow> ('w, 't, 'r) clock_api \<Rightarrow> bool \<Rightarrow>
     gate_statig \<Rightarrow> 'w \<Rightarrow> 'w exec" where
  "spike_main rt println clk oc sg w =
     exec_bind (result_expect ''Failed to setup logger.'' (with_log_path rt ''logs/spike.copper'' SLAB_SIZE)) (\<lambda>u.
     exec_bind (result_expect ''Failed to create application.'' spike_build) (\<lambda>app.
       let (t, w) = now clk w;
           w = println (''[copper] starting clock: '' @ show_time rt t) w
       in exec_bind (result_expect ''start_all_tasks failed'' (start_all_tasks rt)) (\<lambda>u.
          exec_bind (spike_live rt println [0..<5] app w) (\<lambda>(app, w).
          exec_bind (result_expect ''stop_all_tasks failed'' (stop_all_tasks rt)) (\<lambda>u.
            let (t, w) = now clk w;
                w = println (''[copper] end clock: '' @ show_time rt t) w;
                w = println ''--- statig demo ---'' w
            in exec_bind (run_statig oc sg) (\<lambda>(s, c). Done (fold println (gate_lines c) w)))))))"

section \<open>The iterations\<close>

lemma inc_i32_small:
  assumes "k < 2 ^ 31 - 1"
  shows "inc_i32 oc (of_nat k) = Done (of_nat (Suc k))"
proof -
  have "int k < 2 ^ 31 - 1" using assms by simp
  then have "sint (of_nat k :: i32) = int k"
    by (simp add: signed_of_nat signed_take_bit_int_eq_self)
  with \<open>int k < 2 ^ 31 - 1\<close> show ?thesis by (simp add: inc_i32_def)
qed

text \<open>What iteration \<open>i\<close> prints: its number, and the counter as the sink receives it.\<close>

definition iteration_lines :: "(i32 \<Rightarrow> string) \<Rightarrow> nat \<Rightarrow> string list" where
  "iteration_lines show_i i =
     [''[copper] --- iteration '' @ show_nat i @ '' ---'',
      ''[copper sink] received i32 = '' @ show_i (of_nat (Suc i))]"

locale spike_deployment = console println printed clk + om: cu_msg om + statig sg
  for println :: "string \<Rightarrow> 'w \<Rightarrow> 'w"
    and printed :: "'w \<Rightarrow> string list"
    and clk :: "('w, 't, 'r) clock_api"
    and om :: "('m, i32, 't, 'r) msg_api"
    and sg :: gate_statig +
  fixes rt :: "('w, 't, 'm) spike_runtime" and oc :: bool and show_i :: "i32 \<Rightarrow> string"
  assumes runs: "copper_iteration (spike_run_one rt) (spike_iteration oc println show_i clk om)"
    and reports: "\<forall>x \<in> set rs. x = Inr () \<Longrightarrow> spike_iteration_ok rt rs"
    and sets_up: "with_log_path rt ''logs/spike.copper'' SLAB_SIZE = Inr ()"
    and starts_stops: "start_all_tasks rt = Inr ()" "stop_all_tasks rt = Inr ()"
begin

lemma iteration:
  assumes "k < 2 ^ 31 - 1" and "count (src app) = of_nat k"
  obtains w' where "spike_run_one rt app m w
      = Done ([Inr (), Inr ()], app\<lparr>src := \<lparr>count = of_nat (Suc k)\<rparr>\<rparr>, w')"
    "printed w' = printed w @ [''[copper sink] received i32 = '' @ show_i (of_nat (Suc k))]"
proof -
  obtain t w1 where t: "now clk w = (t, w1)" by (metis prod.exhaust)
  from clock_silent [OF t] show thesis
    by (intro that [of "println (''[copper sink] received i32 = '' @ show_i (of_nat (Suc k))) w1"])
      (simp_all add: copper_iterationD [OF runs] spike_iteration_def counter_process_def
        printer_process_def assms(2) inc_i32_small [OF assms(1)] t Let_def prints del: of_nat_Suc)
qed

lemma live_prints:
  assumes "k + n < 2 ^ 31" and "count (src app) = of_nat k"
  obtains app' w' where "spike_live rt println [k..<k + n] app w = Done (app', w')"
    "printed w' = printed w @ concat (map (iteration_lines show_i) [k..<k + n])"
    "count (src app') = of_nat (k + n)"
  using assms
proof (induction n arbitrary: k app w thesis)
  case 0
  then show ?case by simp
next
  case (Suc n)
  have k: "k < 2 ^ 31 - 1" using Suc.prems(2) by simp
  let ?w = "println (''[copper] --- iteration '' @ show_nat k @ '' ---'') w"
  obtain w1 where it: "spike_run_one rt app (spike_slot rt k) ?w
        = Done ([Inr (), Inr ()], app\<lparr>src := \<lparr>count = of_nat (Suc k)\<rparr>\<rparr>, w1)"
      "printed w1 = printed ?w @ [''[copper sink] received i32 = '' @ show_i (of_nat (Suc k))]"
    by (rule iteration [OF k Suc.prems(3)])
  let ?app = "app\<lparr>src := \<lparr>count = of_nat (Suc k)\<rparr>\<rparr>"
  obtain app' w' where rest: "spike_live rt println [Suc k..<Suc k + n] ?app w1 = Done (app', w')"
      "printed w' = printed w1 @ concat (map (iteration_lines show_i) [Suc k..<Suc k + n])"
      "count (src app') = of_nat (Suc k + n)"
    using Suc.IH [of "Suc k" ?app w1] Suc.prems(2) by auto
  have upt: "[k..<k + Suc n] = k # [Suc k..<Suc k + n]" by (simp add: upt_conv_Cons del: upt_Suc)
  show ?case
  proof (rule Suc.prems(1))
    show "spike_live rt println [k..<k + Suc n] app w = Done (app', w')"
      unfolding upt using rest(1) it(1) by (simp add: Let_def reports del: of_nat_Suc upt_Suc)
    show "printed w' = printed w @ concat (map (iteration_lines show_i) [k..<k + Suc n])"
      unfolding upt using rest(2) it(2) by (simp add: iteration_lines_def prints del: of_nat_Suc upt_Suc)
    show "count (src app') = of_nat (k + Suc n)" using rest(3) by simp
  qed
qed

end

section \<open>The statig demonstration\<close>

definition gate_demo_lines :: "string list" where
  "gate_demo_lines =
     [''[statig] initial state = Closed'',
      ''[statig] closed -> open (transition #1)'', ''[statig] now in state = Open'',
      ''[statig] open -> closed (transition #2)'', ''[statig] now in state = Closed'',
      ''[statig] closed -> open (transition #3)'', ''[statig] now in state = Open'',
      ''[statig] total transitions recorded in context = 3'']"

lemma small_digits: "digit_char (Suc 0) = CHR ''1'' \<and> digit_char 2 = CHR ''2'' \<and> digit_char 3 = CHR ''3''"
  by code_simp

lemma show_small: "show_word (1 :: u32) = ''1''" "show_word (2 :: u32) = ''2''" "show_word (3 :: u32) = ''3''"
  by (simp_all add: show_word_def show_nat.simps small_digits)

lemma add_small: "add_word oc (0 :: u32) 1 = Done 1" "add_word oc (1 :: u32) 1 = Done 2"
    "add_word oc (2 :: u32) 1 = Done 3"
  by (simp_all add: add_word_def)

lemma run_statig_lines:
  assumes "statig sg"
  shows "run_statig oc sg = Done (State_Open, \<lparr>transitions = 3, gate_lines = gate_demo_lines\<rparr>)"
proof -
  have three: "gate_loop oc sg 3 = gate_loop oc sg (Suc (Suc (Suc 0)))"
    by (simp only: numeral_3_eq_3)
  show ?thesis
    unfolding run_statig_def three
    by (simp add: statig.init [OF assms] statig.dispatch [OF assms] gate_closed_def
        gate_open_def gate_log_def Let_def gate_demo_lines_def show_small add_small)
qed

section \<open>A deployment to run\<close>

definition spike_demo_runtime :: "(terminal, u64, (i32, u64, u64 \<times> u64) slot) spike_runtime" where
  "spike_demo_runtime =
     \<lparr>log_path_str = None, with_log_path = (\<lambda>_ _. Inr ()),
      start_all_tasks = Inr (), stop_all_tasks = Inr (),
       spike_run_one = spike_iteration True terminal_println show_word terminal_clk slot_api,
      spike_iteration_ok = list_all (\<lambda>x. x = Inr ()), spike_slot = (\<lambda>i. fresh_slot),
      show_time = show_word\<rparr>"

interpretation spike_demo: spike_deployment terminal_println screen terminal_clk slot_api leaf_statig
    spike_demo_runtime True show_word
  by unfold_locales (simp_all add: spike_demo_runtime_def list_all_iff)

lemma show_time_demo: "show_time spike_demo_runtime = show_word"
  by (simp add: spike_demo_runtime_def)

section \<open>Properties\<close>

text \<open>
  C40. The spike runs through under both build modes: \<open>main\<close> does not panic and prints, between the two
  clock readings, for each of the five iterations its number and the counter value the sink received,
  one to five in order, and after them the gate's three transitions.
\<close>

theorem spike_main_prints:
  assumes "spike_deployment println printed clk om sg rt oc show_i"
  shows "\<exists>t t' w'. spike_main rt println clk oc sg w = Done w' \<and>
    printed w' = printed w @ [''[copper] starting clock: '' @ show_time rt t]
      @ concat (map (iteration_lines show_i) [0..<5])
      @ [''[copper] end clock: '' @ show_time rt t', ''--- statig demo ---''] @ gate_demo_lines"
proof -
  note D = assms(1)
  note C = spike_deployment.axioms(1) [OF D]
  obtain t w1 where t: "now clk w = (t, w1)" by (metis prod.exhaust)
  let ?app = "\<lparr>src = counter_default, sink = Printer\<rparr>"
    and ?w1 = "println (''[copper] starting clock: '' @ show_time rt t) w1"
  obtain app w2 where live: "spike_live rt println [0..<0 + 5] ?app ?w1
        = Done (app, w2)"
      "printed w2 = printed ?w1 @ concat (map (iteration_lines show_i) [0..<0 + 5])"
    by (rule spike_deployment.live_prints [OF D, of 0 5 ?app ?w1]) (simp_all add: counter_default_def)
  obtain t' w3 where t': "now clk w2 = (t', w3)" by (metis prod.exhaust)
  let ?w3 = "println ''--- statig demo ---'' (println (''[copper] end clock: '' @ show_time rt t') w3)"
  have "spike_main rt println clk oc sg w = Done (fold println gate_demo_lines ?w3)"
    using live(1)
    by (simp add: spike_main_def spike_deployment.sets_up [OF D]
        spike_deployment.starts_stops [OF D] spike_build_def counter_new_def printer_new_def t t'
        run_statig_lines [OF spike_deployment.axioms(3) [OF D]] Let_def del: upt_Suc upt_rec_numeral)
  then show ?thesis
    using live(2) console.clock_silent [OF C t] console.clock_silent [OF C t']
    by (intro exI [of _ t] exI [of _ t'] exI [of _ "fold println gate_demo_lines ?w3"])
      (simp add: console.prints_all [OF C] console.prints [OF C] del: upt_Suc upt_rec_numeral)
qed

theorem spike_main_prints_witness:
  "\<exists>(t :: u64) (t' :: u64) w'. spike_main spike_demo_runtime terminal_println terminal_clk True leaf_statig
       \<lparr>screen = [], uptime = 0\<rparr> = Done w' \<and>
    screen w' = [''[copper] starting clock: '' @ show_word t]
      @ concat (map (iteration_lines show_word) [0..<5])
      @ [''[copper] end clock: '' @ show_word t', ''--- statig demo ---''] @ gate_demo_lines"
  using spike_main_prints [OF spike_demo.spike_deployment_axioms, of "\<lparr>screen = [], uptime = 0\<rparr>"]
  by (simp only: show_time_demo terminal.simps append_Nil)

end
