(* ===== verification/Log_Dir.thy ===== *)
theory Log_Dir
  imports Echo_App Watchdog_App Spike_App
begin

text \<open>
  How the three binaries prepare the directory of their log before anything else
  (\<open>examples/echo/src/main.rs\<close>, \<open>examples/watchdog/src/main.rs\<close>, \<open>spike/src/main.rs\<close>), and the binaries
  as a whole. The operations of \<open>std::fs\<close> are the record \<open>fs_api\<close>; what the code relies on is the
  locale \<open>file_system\<close>, with a small disk as an instance. Any operation may fail at any time.
\<close>

section \<open>The file system\<close>

text \<open>A path is the list of its components.\<close>

type_synonym path = "string list"

record ('w, 'e) fs_api =
  create_dir_all :: "path \<Rightarrow> 'w \<Rightarrow> ('e + unit) \<times> 'w"
  read_dir :: "path \<Rightarrow> 'w \<Rightarrow> ('e + ('e + path) list) \<times> 'w"
  remove_file :: "path \<Rightarrow> 'w \<Rightarrow> ('e + unit) \<times> 'w"
  remove_dir_all :: "path \<Rightarrow> 'w \<Rightarrow> ('e + unit) \<times> 'w"
  path_exists :: "path \<Rightarrow> 'w \<Rightarrow> bool \<times> 'w"
  io_debug :: "'e \<Rightarrow> string"

text \<open>\<open>Path::parent\<close> for the paths used here, which end in a file name.\<close>

definition path_parent :: "path \<Rightarrow> path option" where
  "path_parent p = (if p = [] then None else Some (butlast p))"

lemma path_parent_snoc [simp]: "path_parent (dir @ [name]) = Some dir"
  by (simp add: path_parent_def)

text \<open>
  \<open>files\<close> and \<open>dirs\<close> observe the disk. A failed \<open>create_dir_all\<close> may have made some of the directories
  and a failed \<open>remove_dir_all\<close> may have removed some of the files, but below the given path only.
\<close>

locale file_system =
  fixes fs :: "('w, 'e) fs_api"
    and files :: "'w \<Rightarrow> path set"
    and dirs :: "'w \<Rightarrow> path set"
  assumes create_files: "create_dir_all fs p w = (r, w') \<Longrightarrow> files w' = files w \<and> dirs w \<subseteq> dirs w'"
    and create_made: "create_dir_all fs p w = (Inr u, w') \<Longrightarrow> p \<in> dirs w'"
    and read_same: "read_dir fs p w = (entries, w') \<Longrightarrow> files w' = files w \<and> dirs w' = dirs w"
    and read_children: "read_dir fs p w = (Inr es, w') \<Longrightarrow> Inr q \<in> set es \<Longrightarrow> path_parent q = Some p"
    and read_complete: "read_dir fs p w = (Inr es, w') \<Longrightarrow> Inl ` UNIV \<inter> set es = {} \<Longrightarrow>
      q \<in> files w \<Longrightarrow> path_parent q = Some p \<Longrightarrow> Inr q \<in> set es"
    and remove_ok: "remove_file fs p w = (Inr u, w') \<Longrightarrow> files w' = files w - {p} \<and> dirs w' = dirs w"
    and remove_failed: "remove_file fs p w = (Inl e, w') \<Longrightarrow> files w' = files w \<and> dirs w' = dirs w"
    and remove_all: "remove_dir_all fs p w = (r, w') \<Longrightarrow>
      files w' \<subseteq> files w \<and> {q \<in> files w. \<not> prefix p q} \<subseteq> files w'"
    and removed_all: "remove_dir_all fs p w = (Inr u, w') \<Longrightarrow> q \<in> files w' \<Longrightarrow> \<not> prefix p q"
    and exists_same: "path_exists fs p w = (b, w') \<Longrightarrow> files w' = files w \<and> dirs w' = dirs w"

section \<open>The preludes\<close>

text \<open>\<open>entries.flatten()\<close> keeps the entries that could be read.\<close>

definition read_ok :: "('e + 'a) list \<Rightarrow> 'a list" where
  "read_ok entries = List.map_filter result_ok entries"

definition remove_entries :: "('w, 'e) fs_api \<Rightarrow> path list \<Rightarrow> 'w \<Rightarrow> 'w" where
  "remove_entries fs ps w = fold (\<lambda>p w. snd (remove_file fs p w)) ps w"

text \<open>\<open>unwrap\<close> of a missing parent, and \<open>expect\<close> of a failed creation.\<close>

definition unwrap_none :: string where
  "unwrap_none = ''called `Option::unwrap()` on a `None` value''"

definition create_dir_expect :: "('w, 'e) fs_api \<Rightarrow> string \<Rightarrow> path \<Rightarrow> 'w \<Rightarrow> 'w exec" where
  "create_dir_expect fs msg dir w =
     (case create_dir_all fs dir w of
        (Inr u, w) \<Rightarrow> Done w
      | (Inl e, w) \<Rightarrow> Panic (msg @ '': '' @ io_debug fs e))"

definition echo_prepare :: "('w, 'e) fs_api \<Rightarrow> path \<Rightarrow> 'w \<Rightarrow> 'w exec" where
  "echo_prepare fs log_base w =
     (case path_parent log_base of
        None \<Rightarrow> Panic unwrap_none
      | Some dir \<Rightarrow>
          exec_bind (create_dir_expect fs ''create log dir'' dir w) (\<lambda>w.
            case read_dir fs dir w of
              (Inr entries, w) \<Rightarrow> Done (remove_entries fs (read_ok entries) w)
            | (Inl e, w) \<Rightarrow> Done w))"

definition watchdog_prepare :: "('w, 'e) fs_api \<Rightarrow> path \<Rightarrow> 'w \<Rightarrow> 'w exec" where
  "watchdog_prepare fs log_base w =
     (case path_parent log_base of
        None \<Rightarrow> Panic unwrap_none
      | Some dir \<Rightarrow>
          let (ignored, w) = remove_dir_all fs dir w
          in create_dir_expect fs ''create log dir'' dir w)"

definition spike_prepare :: "('w, 'e) fs_api \<Rightarrow> path \<Rightarrow> 'w \<Rightarrow> 'w exec" where
  "spike_prepare fs logger_path w =
     (case path_parent logger_path of
        None \<Rightarrow> Done w
      | Some dir \<Rightarrow>
          (case path_exists fs dir w of
             (True, w) \<Rightarrow> Done w
           | (False, w) \<Rightarrow> create_dir_expect fs ''Failed to create logs directory'' dir w))"


definition watchdog_log_base :: "path \<Rightarrow> path" where
  "watchdog_log_base manifest_dir = manifest_dir @ [''..'', ''..'', ''target'', ''watchdog-logs'', ''wd.copper'']"

definition spike_logger_path :: path where
  "spike_logger_path = [''logs'', ''spike.copper'']"

section \<open>What a prelude leaves on the disk\<close>

lemma create_dir_expect_cases:
  obtains (Made) w' where "create_dir_expect fs msg dir w = Done w'"
      "create_dir_all fs dir w = (Inr (), w')"
    | (Failed) e w' where "create_dir_expect fs msg dir w = Panic (msg @ '': '' @ io_debug fs e)"
      "create_dir_all fs dir w = (Inl e, w')"
  by (cases "create_dir_all fs dir w"; cases "fst (create_dir_all fs dir w)")
    (auto simp: create_dir_expect_def)

context file_system
begin

lemma remove_entries_spec:
  "dirs (remove_entries fs ps w) = dirs w
   \<and> files (remove_entries fs ps w) \<subseteq> files w
   \<and> files w - set ps \<subseteq> files (remove_entries fs ps w)"
proof (induction ps arbitrary: w)
  case (Cons p ps)
  obtain r w1 where r: "remove_file fs p w = (r, w1)" by (metis prod.exhaust)
  have "dirs w1 = dirs w \<and> files w1 \<subseteq> files w \<and> files w - {p} \<subseteq> files w1"
    using r remove_ok remove_failed by (cases r) blast+
  moreover have "remove_entries fs (p # ps) w = remove_entries fs ps w1"
    by (simp add: remove_entries_def r)
  ultimately show ?case using Cons.IH [of w1] by auto
qed (simp add: remove_entries_def)

lemma remove_entries_clean:
  assumes "\<And>p w. p \<in> set ps \<Longrightarrow> p \<in> files w \<Longrightarrow> fst (remove_file fs p w) = Inr ()"
  shows "files (remove_entries fs ps w) \<inter> set ps = {}"
  using assms
proof (induction ps arbitrary: w)
  case (Cons p ps)
  obtain r w1 where r: "remove_file fs p w = (r, w1)" by (metis prod.exhaust)
  have "p \<notin> files w1"
  proof (cases "p \<in> files w")
    case True
    with Cons.prems [of p w] r have "r = Inr ()" by simp
    with r remove_ok show ?thesis by auto
  next
    case False
    with r remove_ok remove_failed show ?thesis by (cases r) blast+
  qed
  moreover have "remove_entries fs (p # ps) w = remove_entries fs ps w1"
    by (simp add: remove_entries_def r)
  ultimately show ?case
    using Cons.IH [of w1] Cons.prems remove_entries_spec [of ps w1] by auto
qed simp

end

context file_system
begin

lemma echo_prepare_spec:
  assumes "create_dir_all fs dir w = (Inr (), w1)"
  obtains w' where "echo_prepare fs (dir @ [name]) w = Done w'"
    "dir \<in> dirs w'" "files w' \<subseteq> files w" "{q \<in> files w. path_parent q \<noteq> Some dir} \<subseteq> files w'"
proof -
  have made: "create_dir_expect fs msg dir w = Done w1" for msg
    by (simp add: create_dir_expect_def assms)
  have w1: "dir \<in> dirs w1" "files w1 = files w"
    using create_made [OF assms] create_files [OF assms] by simp_all
  obtain r w2 where r: "read_dir fs dir w1 = (r, w2)" by (metis prod.exhaust)
  note w2 = read_same [OF r]
  show thesis
  proof (cases r)
    case (Inl e)
    show thesis
      by (rule that [of w2]) (use w1 w2 in \<open>auto simp: echo_prepare_def made r Inl\<close>)
  next
    case (Inr es)
    let ?w' = "remove_entries fs (read_ok es) w2"
    have "\<forall>q \<in> set (read_ok es). path_parent q = Some dir"
      using read_children [OF r [unfolded Inr]]
      by (auto simp: read_ok_def map_filter_def)
    then have "{q \<in> files w. path_parent q \<noteq> Some dir} \<subseteq> files w - set (read_ok es)" by auto
    with remove_entries_spec [of "read_ok es" w2] w1 w2 show thesis
      by (intro that [of ?w']) (auto simp: echo_prepare_def made r Inr)
  qed
qed

lemma echo_prepare_clean:
  assumes "echo_prepare fs (dir @ [name]) w = Done w'"
    and "\<And>w. \<exists>qs w'. read_dir fs dir w = (Inr (map Inr qs), w')"
    and "\<And>q w. q \<in> files w \<Longrightarrow> path_parent q = Some dir \<Longrightarrow> fst (remove_file fs q w) = Inr ()"
    and "path_parent q = Some dir"
  shows "q \<notin> files w'"
proof -
  obtain w1 where made: "create_dir_expect fs ''create log dir'' dir w = Done w1"
    using assms(1) by (auto simp: echo_prepare_def)
  obtain qs w2 where r: "read_dir fs dir w1 = (Inr (map Inr qs), w2)" using assms(2) by blast
  have ok: "read_ok (map Inr qs) = qs" for qs :: "path list"
    by (induction qs) (simp_all add: read_ok_def)
  have w': "w' = remove_entries fs qs w2"
    using assms(1) by (simp add: echo_prepare_def made r ok)
  have kids: "path_parent q = Some dir" if "q \<in> set qs" for q
    using read_children [OF r] that by simp
  have "q \<in> set qs" if "q \<in> files w1"
    using read_complete [OF r _ that assms(4)] by auto
  moreover have "files w' \<subseteq> files w1"
    using remove_entries_spec [of qs w2] read_same [OF r] by (simp add: w')
  moreover have "files w' \<inter> set qs = {}"
    unfolding w' by (rule remove_entries_clean) (use assms(3) kids in blast)
  ultimately show ?thesis by blast
qed

end

section \<open>A disk\<close>

text \<open>Files, directories, and the files that cannot be removed.\<close>

datatype io_error = Not_Found | Not_A_Directory | Permission_Denied

record disk =
  disk_files :: "path list"
  disk_dirs :: "path list"
  pinned :: "path list"

definition disk_create :: "path \<Rightarrow> disk \<Rightarrow> (io_error + unit) \<times> disk" where
  "disk_create p w =
     (if list_ex (\<lambda>f. prefix f p) (disk_files w) then (Inl Not_A_Directory, w)
      else (Inr (), w\<lparr>disk_dirs := disk_dirs w @ prefixes p\<rparr>))"

definition disk_read :: "path \<Rightarrow> disk \<Rightarrow> (io_error + (io_error + path) list) \<times> disk" where
  "disk_read p w =
     (if p \<in> set (disk_dirs w)
      then (Inr (map Inr (filter (\<lambda>q. path_parent q = Some p) (disk_files w @ disk_dirs w))), w)
      else (Inl Not_Found, w))"

definition disk_remove :: "path \<Rightarrow> disk \<Rightarrow> (io_error + unit) \<times> disk" where
  "disk_remove p w =
     (if p \<notin> set (disk_files w) then (Inl Not_Found, w)
      else if p \<in> set (pinned w) then (Inl Permission_Denied, w)
      else (Inr (), w\<lparr>disk_files := filter (\<lambda>q. q \<noteq> p) (disk_files w)\<rparr>))"

definition disk_remove_all :: "path \<Rightarrow> disk \<Rightarrow> (io_error + unit) \<times> disk" where
  "disk_remove_all p w =
     (let stays = (\<lambda>q. \<not> prefix p q \<or> q \<in> set (pinned w));
          w' = w\<lparr>disk_files := filter stays (disk_files w)\<rparr>
      in if p \<notin> set (disk_dirs w) then (Inl Not_Found, w)
         else if list_ex (prefix p) (disk_files w') then (Inl Permission_Denied, w')
         else (Inr (), w'\<lparr>disk_dirs := filter (\<lambda>q. \<not> prefix p q) (disk_dirs w)\<rparr>))"

definition disk_fs :: "(disk, io_error) fs_api" where
  "disk_fs =
     \<lparr>create_dir_all = disk_create, read_dir = disk_read, remove_file = disk_remove,
      remove_dir_all = disk_remove_all,
      path_exists = (\<lambda>p w. (p \<in> set (disk_files w) \<or> p \<in> set (disk_dirs w), w)),
      io_debug = (\<lambda>e. case e of Not_Found \<Rightarrow> ''NotFound'' | Not_A_Directory \<Rightarrow> ''NotADirectory''
        | Permission_Denied \<Rightarrow> ''PermissionDenied'')\<rparr>"

interpretation disk: file_system disk_fs "\<lambda>w. set (disk_files w)" "\<lambda>w. set (disk_dirs w)"
  by unfold_locales
    (auto simp: disk_fs_def disk_create_def disk_read_def disk_remove_def disk_remove_all_def Let_def
      list_ex_iff in_set_prefixes split: if_splits)

section \<open>The binaries\<close>


definition watchdog_program ::
    "('d, 'f) fs_api \<Rightarrow> path \<Rightarrow> 'd \<Rightarrow> ('cfg, 'mi, 'mo) watchdog_runtime \<Rightarrow>
     ('mi, feed cycle, u64, u64 \<times> u64) msg_api \<Rightarrow> ('mo, alarm batch, u64, u64 \<times> u64) msg_api \<Rightarrow>
     (('mi, 'mo) copperlist list \<Rightarrow> (cu_error + ('mi, 'mo) copperlist list \<times> log_end) option) \<Rightarrow>
     bool \<Rightarrow> (alarm batch option \<Rightarrow> 'e + 'b list) \<Rightarrow> (feed cycle \<Rightarrow> string) \<Rightarrow>
     (alarm batch option \<Rightarrow> string) \<Rightarrow> watchdog_statig \<Rightarrow> pulse_thread list \<Rightarrow> unit registry \<Rightarrow>
     watchdog_world \<Rightarrow> unit exec option" where
  "watchdog_program fs manifest_dir d rt im om read_log oc encode show_i show_o sg join_turns r w =
     (case watchdog_prepare fs (watchdog_log_base manifest_dir) d of
        Panic p \<Rightarrow> Some (Panic p)
      | Done d \<Rightarrow> watchdog_main rt im om read_log oc encode show_i show_o sg join_turns r w)"

definition spike_program ::
    "('d, 'e) fs_api \<Rightarrow> 'd \<Rightarrow> ('w, 't, 'm) spike_runtime \<Rightarrow> (string \<Rightarrow> 'w \<Rightarrow> 'w) \<Rightarrow>
     ('w, 't, 'r) clock_api \<Rightarrow> bool \<Rightarrow> gate_statig \<Rightarrow> 'w \<Rightarrow> 'w exec" where
  "spike_program fs d rt println clk oc sg w =
     exec_bind (spike_prepare fs spike_logger_path d) (\<lambda>d. spike_main rt println clk oc sg w)"

text \<open>A creation that fails, or the rest of \<open>main\<close>.\<close>

lemma spike_program_cases:
  shows "spike_program fs d rt println clk oc sg w = spike_main rt println clk oc sg w
         \<or> (\<exists>e. spike_program fs d rt println clk oc sg w
                  = Panic (''Failed to create logs directory: '' @ io_debug fs e))"
proof -
  obtain b d1 where b: "path_exists fs [''logs''] d = (b, d1)" by (metis prod.exhaust)
  show ?thesis
  proof (cases b)
    case False
    show ?thesis
      by (rule create_dir_expect_cases [of fs "''Failed to create logs directory''" "[''logs'']" d1])
        (auto simp: spike_program_def spike_prepare_def spike_logger_path_def path_parent_def b False)
  qed (simp add: spike_program_def spike_prepare_def spike_logger_path_def path_parent_def b)
qed

section \<open>Properties\<close>




text \<open>
  C34. The watchdog binary as a whole: when the log directory cannot be created, after the attempt to
  remove it, the program panics before anything runs; otherwise it behaves as \<open>main\<close> from the live
  run on, with the directory in place and no file outside of it touched. Nothing of an earlier run
  is in it if the removal succeeded; a removal that failed is ignored, and then files can stay.
\<close>

theorem watchdog_program_starts_clean:
  assumes "file_system fs files dirs"
    and "remove_dir_all fs dir d = (removed, d1)"
    and "watchdog_log_base manifest_dir = dir @ [name]"
  shows "(case create_dir_all fs dir d1 of
            (Inl e, d2) \<Rightarrow>
              watchdog_program fs manifest_dir d rt im om read_log oc encode show_i show_o sg join_turns r w
                = Some (Panic (''create log dir: '' @ io_debug fs e))
          | (Inr u, d2) \<Rightarrow>
              watchdog_program fs manifest_dir d rt im om read_log oc encode show_i show_o sg join_turns r w
                = watchdog_main rt im om read_log oc encode show_i show_o sg join_turns r w
              \<and> watchdog_prepare fs (dir @ [name]) d = Done d2
              \<and> dir \<in> dirs d2 \<and> files d2 \<subseteq> files d
              \<and> {q \<in> files d. \<not> prefix dir q} \<subseteq> files d2
              \<and> (removed = Inr () \<longrightarrow> {q \<in> files d2. prefix dir q} = {}))"
proof (cases "create_dir_all fs dir d1")
  case (Pair res d2)
  note file_system.remove_all [OF assms(1,2)]
  moreover note file_system.create_files [OF assms(1) Pair]
  moreover have "res = Inr () \<Longrightarrow> dir \<in> dirs d2"
    using file_system.create_made [OF assms(1)] Pair by blast
  moreover have "removed = Inr () \<Longrightarrow> {q \<in> files d1. prefix dir q} = {}"
    using file_system.removed_all [OF assms(1)] assms(2) by blast
  ultimately show ?thesis
    by (cases res) (auto simp: Pair watchdog_program_def watchdog_prepare_def assms(2,3)
        create_dir_expect_def)
qed

definition old_disk :: disk where
  "old_disk =
     \<lparr>disk_files = [[''m'', ''..'', ''..'', ''target'', ''watchdog-logs'', ''wd_0.copper''], [''m'', ''Cargo.toml'']],
      disk_dirs = [[''m''], [''m'', ''..'', ''..'', ''target'', ''watchdog-logs'']], pinned = []\<rparr>"

theorem watchdog_program_starts_clean_witness:
  "\<exists>d2. watchdog_prepare disk_fs (watchdog_log_base [''m'']) old_disk = Done d2
     \<and> disk_files d2 = [[''m'', ''Cargo.toml'']]
     \<and> watchdog_program disk_fs [''m''] old_disk demo_runtime slot_api slot_api demo_read_log True
         encode_count (\<lambda>_. '''') (\<lambda>_. '''') leaf_statig demo_join None demo_start = Some (Done ())"
proof -
  let ?dir = "[''m'', ''..'', ''..'', ''target'', ''watchdog-logs'']"
  obtain removed d1 where rm: "remove_dir_all disk_fs ?dir old_disk = (removed, d1)"
    by (metis prod.exhaust)
  have "disk_files d1 = [[''m'', ''Cargo.toml'']]"
    using rm by (auto simp: disk_fs_def disk_remove_all_def old_disk_def Let_def)
  then have mk: "create_dir_all disk_fs ?dir d1 = (Inr (), d1\<lparr>disk_dirs := disk_dirs d1 @ prefixes ?dir\<rparr>)"
    and files: "disk_files (d1\<lparr>disk_dirs := disk_dirs d1 @ prefixes ?dir\<rparr>) = [[''m'', ''Cargo.toml'']]"
    by (simp_all add: disk_fs_def disk_create_def)
  have base: "watchdog_log_base [''m''] = ?dir @ [''wd.copper'']"
    by (simp add: watchdog_log_base_def)
  from watchdog_program_starts_clean [OF disk.file_system_axioms rm base, of demo_runtime slot_api slot_api
      demo_read_log True encode_count "\<lambda>_. ''''" "\<lambda>_. ''''" leaf_statig demo_join None demo_start]
  have "watchdog_prepare disk_fs (?dir @ [''wd.copper'']) old_disk
        = Done (d1\<lparr>disk_dirs := disk_dirs d1 @ prefixes ?dir\<rparr>)"
    and "watchdog_program disk_fs [''m''] old_disk demo_runtime slot_api slot_api demo_read_log True
         encode_count (\<lambda>_. '''') (\<lambda>_. '''') leaf_statig demo_join None demo_start = Some (Done ())"
    unfolding mk by (simp_all add: demo_main del: append.simps prefixes.simps)
  then show ?thesis using files
    by (intro exI [of _ "d1\<lparr>disk_dirs := disk_dirs d1 @ prefixes ?dir\<rparr>"] conjI) (simp_all only: base)
qed

end
