(* ===== verification/Echo_Liveness.thy ===== *)
theory Echo_Liveness
  imports Echo_App
begin

text \<open>
  When \<open>examples/echo/src/main.rs\<close> succeeds: a condition on the pace of the driver thread under which
  \<open>main\<close> exits with status 0 for any list of inputs. The driver thread sends its inputs before the
  first iteration, no timeout expires, and it gets a few turns while \<open>main\<close> collects and joins. And a
  condition under which \<open>main\<close> fails: the driver thread is too late to send all its inputs.
\<close>

section \<open>A prompt transport\<close>

text \<open>
  What holds while no timeout expires: the echoes received and those still to receive add up to the
  inputs, so \<open>run\<close> returns only after the last. Once an end of the bridge on the DAG side is gone,
  all inputs were sent, respectively all echoes.
\<close>

definition prompt_inv :: "string list \<Rightarrow> string list \<Rightarrow> feeder \<Rightarrow> (echo_msg, echo_msg) bridge \<Rightarrow> bool"
  where
  "prompt_inv inputs got p b \<longleftrightarrow>
     feeder_inv got p b \<and> feeder_inputs p = inputs \<and> in_capacity b = None
   \<and> (in_alive b \<or> in_taken b @ in_queue b = map Echo_Msg inputs)
   \<and> (out_alive b \<or> length (out_got b @ out_queue b) = length inputs)
   \<and> (case feeder_pc p of
        Feeder_Send msgs \<Rightarrow> out_got b = []
      | Feeder_Await k \<Rightarrow> length (out_got b) + k = length inputs
      | Feeder_Deliver body k \<Rightarrow> length (out_got b) + k = length inputs
      | Feeder_End res \<Rightarrow> length (out_got b) = length inputs)"

lemma prompt_inv_step:
  assumes "prompt_inv inputs got p b" and "feeder_advance Go p b = (p', b')"
  shows "prompt_inv inputs got p' b'"
proof -
  have inv: "feeder_inv got p b" using assms(1) by (simp add: prompt_inv_def)
  then have ok: "echo_results_alive p" by (simp add: feeder_inv_def)
  note inv' = feeder_advance_inv [OF inv assms(2)]
  show ?thesis
  proof (cases "feeder_pc p")
    case (Feeder_Send msgs)
    with inv have "in_taken b @ in_queue b @ map Echo_Msg msgs = map Echo_Msg (feeder_inputs p)"
      by (simp add: feeder_inv_def)
    moreover have "in_alive b \<or> in_taken b @ in_queue b = map Echo_Msg (feeder_inputs p)"
      using assms(1) by (auto simp: prompt_inv_def)
    ultimately have "in_alive b \<or> msgs = []"
      by (metis append_assoc append_self_conv map_is_Nil_conv)
    moreover have "in_capacity b = None" "out_got b = []"
      using assms(1) Feeder_Send by (simp_all add: prompt_inv_def)
    ultimately show ?thesis
    proof (cases msgs)
      case Nil
      then have eq: "p' = p\<lparr>feeder_pc := Feeder_Await (length (feeder_inputs p))\<rparr>" "b' = b"
        using assms(2) Feeder_Send by (simp_all add: feeder_advance_def)
      show ?thesis
        using assms(1) inv' \<open>out_got b = []\<close> unfolding eq prompt_inv_def by simp
    next
      case (Cons msg ms)
      with \<open>in_alive b \<or> msgs = []\<close> have "in_alive b" by simp
      with Cons \<open>in_capacity b = None\<close> have eq: "p' = p\<lparr>feeder_pc := Feeder_Send ms\<rparr>"
          "b' = b\<lparr>in_queue := in_queue b @ [echo_msg_new msg]\<rparr>"
        using assms(2) Feeder_Send by (simp_all add: feeder_advance_def bridge_send_def)
      show ?thesis
        using assms(1) inv' \<open>out_got b = []\<close> \<open>in_alive b\<close> unfolding eq prompt_inv_def by simp
    qed
  next
    case (Feeder_Await k)
    show ?thesis
    proof (cases k)
      case 0
      then have eq: "p' = p\<lparr>feeder_pc := Feeder_End (Inr ())\<rparr>" "b' = b"
        using assms(2) Feeder_Await by (simp_all add: feeder_advance_def)
      show ?thesis
        using assms(1) inv' Feeder_Await 0 unfolding eq prompt_inv_def by auto
    next
      case (Suc j)
      show ?thesis
      proof (cases "out_queue b")
        case Nil
        with assms(1) Feeder_Await Suc have "out_alive b" by (auto simp: prompt_inv_def)
        with Nil Suc Feeder_Await have "p' = p" "b' = b"
          using assms(2) by (simp_all add: feeder_advance_def bridge_recv_def)
        with assms(1) show ?thesis by simp
      next
        case (Cons v q)
        with Suc have eq: "p' = p\<lparr>feeder_pc := Feeder_Deliver (echo_text v) j\<rparr>"
            "b' = b\<lparr>out_queue := q, out_got := out_got b @ [v]\<rparr>"
          using assms(2) Feeder_Await by (simp_all add: feeder_advance_def bridge_recv_def)
        show ?thesis
          using assms(1) inv' Feeder_Await Suc Cons unfolding eq prompt_inv_def by simp
      qed
    qed
  next
    case (Feeder_Deliver body k)
    with ok have eq: "p' = p\<lparr>feeder_pc := Feeder_Await k, echo_queue := echo_queue p @ [body]\<rparr>" "b' = b"
      using assms(2) by (simp_all add: feeder_advance_def)
    show ?thesis
      using assms(1) inv' Feeder_Deliver unfolding eq prompt_inv_def by simp
  next
    case (Feeder_End res)
    with assms show ?thesis by (simp add: feeder_advance_def)
  qed
qed

interpretation prompt: paced_invariant feeder_program "{Go}"
    "\<lambda>p b. prompt_inv inputs [] p b \<and> in_alive b \<and> out_alive b"
proof unfold_locales
  fix c p b p' b'
  assume c: "c \<in> {Go}" and a: "advance feeder_program c p b = (p', b')"
    and J: "prompt_inv inputs [] p b \<and> in_alive b \<and> out_alive b"
  from a have "transport_move b b'"
    by (auto simp: feeder_program_def intro: feeder_advance_move)
  with a c J show "prompt_inv inputs [] p' b' \<and> in_alive b' \<and> out_alive b'"
    by (auto simp: feeder_program_def transport_move_def intro: prompt_inv_step)
qed (auto simp: prompt_inv_def feeder_inv_def in_hand_def split: feeder_pc.splits)

text \<open>The DAG can send as long as it has not sent an echo for every input.\<close>

lemma prompt_send:
  assumes "on_pace {Go} w"
    and "prompt_inv inputs [] (thread w) (chan w) \<and> in_alive (chan w) \<and> out_alive (chan w)"
    and "length (bridged_sent w) < length inputs"
    and "send (bridged_tx feeder_program) () v w = (q, w')"
  shows "q = Inr ()"
proof -
  let ?w = "thread_turn feeder_program w"
  have "prompt_inv inputs [] (thread ?w) (chan ?w)"
    using prompt.thread_turn_J [OF assms(1,2)] by simp
  moreover have "out_got (chan ?w) @ out_queue (chan ?w) = bridged_sent w"
    by (simp add: bridged_sent_def)
  then have "length (out_got (chan ?w)) < length inputs"
    using assms(3) by (metis le_add1 length_append order_le_less_trans)
  ultimately have "listening feeder_program (thread ?w)"
    by (auto simp: prompt_inv_def feeder_program_def feeder_listening_def split: feeder_pc.splits)
  with assms(4) show ?thesis by (simp add: bridged_tx_def bridged_send_def Let_def)
qed

section \<open>The live loop reports no error\<close>

lemma egress_process_ok:
  assumes "egress_process txa im \<lparr>egress_tx = h\<rparr> m w = (res, w')"
    and "\<And>v q w''. payload im m = Some v \<Longrightarrow> send txa h v w = (q, w'') \<Longrightarrow> q = Inr ()"
  shows "res = Inr ()"
  using assms by (auto simp: egress_process_def egress_step_def split: option.splits prod.splits)

lemma feeder_inv_taken:
  assumes "feeder_inv got p b" and "feeder_inputs p = inputs"
  shows "length (in_taken b) \<le> length inputs"
  using assms by (auto simp: feeder_inv_def dest: prefix_length_le)

abbreviation prompt_world :: "string list \<Rightarrow> echo_world \<Rightarrow> bool" where
  "prompt_world inputs w \<equiv> on_pace {Go} w \<and>
     (prompt_inv inputs [] (thread w) (chan w) \<and> in_alive (chan w) \<and> out_alive (chan w))"

text \<open>One iteration, from a state in which every message taken was answered.\<close>

lemma echo_iteration_prompt:
  assumes im: "cu_msg im" and om: "cu_msg om" and sg: "statig sg"
    and room: "machine_count (machine (ec_fsm app)) + 1 < 2 ^ 64"
    and app: "ec_ingress app = \<lparr>ingress_rx = ()\<rparr>" "ec_egress app = \<lparr>egress_tx = ()\<rparr>"
    and w: "prompt_world inputs w" "length (bridged_sent w) = length (bridged_taken w)"
    and it: "echo_iteration oc (bridged_env feeder_program im om) sg app cl w = Done (rs, cl', app', w')"
  shows "(\<forall>x \<in> set rs. x = Inr ()) \<and> prompt_world inputs w'
    \<and> length (bridged_sent w') = length (bridged_taken w')
    \<and> ec_ingress app' = ec_ingress app \<and> ec_egress app' = ec_egress app
    \<and> machine_count (machine (ec_fsm app')) \<le> machine_count (machine (ec_fsm app)) + 1"
proof -
  let ?env = "bridged_env feeder_program im om" and ?k = "machine_count (machine (ec_fsm app))"
  have sv: "service_env ?env () () bridged_arrived bridged_taken bridged_sent"
    by (rule feeder.bridged_service [OF im om])
  then have slots: "slot_env ?env"
    and ch: "dag_world (env_rx ?env) (env_clk ?env) () bridged_arrived bridged_taken (env_tx ?env) ()
      bridged_sent"
    by (simp_all only: service_env_def)
  then have ing: "ingress_world (env_rx ?env) (env_clk ?env) () bridged_arrived bridged_taken (env_in ?env)"
    using im by (simp add: dag_world_def ingress_world_def)
  obtain m0 w0 i m1 w1 r2 w2 m' where p:
    "ingress_process (env_clk ?env) (env_rx ?env) (env_in ?env) (ec_ingress app) (ingress_slot cl) w
       = (Inr (), m0, w0)"
    "slot_messages (env_in ?env) m0 = map Echo_Msg (input_texts [i])"
    "forward_single (env_clk ?env) (env_out ?env) (fsm_slot cl) w0
       (map Echo_Msg (numbered ?k (input_texts [i]))) = (Inr (), m1, w1)"
    "slot_texts (env_out ?env) m1 = numbered ?k (input_texts [i])"
    "egress_process (env_tx ?env) (env_out ?env) (ec_egress app) m1 w1 = (r2, w2)"
    "echo_iteration oc ?env sg app cl w = Done ([Inr (), Inr (), r2],
       cl\<lparr>ingress_slot := m0, fsm_slot := m1\<rparr>,
       app\<lparr>ec_fsm := (ec_fsm app)\<lparr>machine := m'\<rparr>\<rparr>, w2)"
    "machine_count m' = ?k + length (input_texts [i])"
    by (rule echo_iteration_parts [OF slots sg room])
  note inv = prompt.paced.ingress_process_inv [where inputs = inputs]
    prompt.paced.forward_single_inv [where inputs = inputs]
    prompt.paced.egress_process_inv [where inputs = inputs]
  have w0: "prompt_world inputs w0" by (rule inv(1) [OF w(1) p(1) [unfolded app(1) bridged_env_simps]])
  have w1: "prompt_world inputs w1" by (rule inv(2) [OF w0 p(3) [unfolded bridged_env_simps]])
  have w2: "prompt_world inputs w2" by (rule inv(3) [OF w1 p(5) [unfolded app(2) bridged_env_simps]])
  note ingress = ingress_world.ingress_process_spec [OF ing p(1) [unfolded app(1)]]
  note fsm = dag_world.forward_single_rx [OF ch p(3)] dag_world.forward_single_sent [OF ch p(3)]
  note egress = dag_world.egress_process_spec [OF ch p(5) [unfolded app(2)]]
  have t: "bridged_taken w1 = bridged_taken w @ map Echo_Msg (input_texts [i])"
    using ingress(2) fsm p(2) by simp
  have s: "bridged_sent w1 = bridged_sent w"
    using fsm(2) dag_world.ingress_sent [OF ch p(1) [unfolded app(1)]] by simp
  have out: "length (slot_messages om m1) = length (input_texts [i])"
    using arg_cong [OF p(4), of length] by (simp add: slot_texts_def slot_messages_def split: option.splits)
  have "q = Inr ()" if v: "payload om m1 = Some v"
    and q: "send (bridged_tx feeder_program) () v w1 = (q, w'')" for v q w''
  proof (rule prompt_send [OF _ _ _ q])
    have "length (bridged_taken w1) \<le> length inputs"
      using w1 feeder_inv_taken by (auto simp: prompt_inv_def bridged_taken_def)
    moreover have "length (bridged_taken w1) = Suc (length (bridged_sent w))"
      using out v w(2) t by (simp add: slot_messages_def)
    ultimately show "length (bridged_sent w1) < length inputs" using s by simp
  qed (use w1 in simp_all)
  then have r2: "r2 = Inr ()"
    using egress_process_ok [OF p(5) [unfolded app(2)]] by simp
  have "length (bridged_sent w2) = length (bridged_taken w2)"
    using egress(1) egress(2) [OF r2] s t out w(2) by simp
  moreover have "length (input_texts [i]) \<le> 1" using length_input_texts [of "[i]"] by simp
  ultimately show ?thesis using it p(6,7) r2 w2 by auto
qed

lemma echo_live_prompt:
  assumes "cu_msg im" and "cu_msg om" and "statig sg"
  shows "machine_count (machine (ec_fsm app)) + length cls < 2 ^ 64 \<Longrightarrow>
    ec_ingress app = \<lparr>ingress_rx = ()\<rparr> \<Longrightarrow> ec_egress app = \<lparr>egress_tx = ()\<rparr> \<Longrightarrow>
    prompt_world inputs w \<Longrightarrow> length (bridged_sent w) = length (bridged_taken w) \<Longrightarrow>
    echo_live (echo_iteration oc (bridged_env feeder_program im om) sg) app cls w
      = Done (rss, log, app', w') \<Longrightarrow>
    (\<forall>rs \<in> set rss. \<forall>x \<in> set rs. x = Inr ()) \<and> prompt_world inputs w'"
proof (induction cls arbitrary: app w rss log)
  case (Cons cl cls)
  let ?env = "bridged_env feeder_program im om"
  obtain rs cl1 app1 w1 where it: "echo_iteration oc ?env sg app cl w = Done (rs, cl1, app1, w1)"
    using Cons.prems(6) by auto
  obtain rss1 log1 where rest: "echo_live (echo_iteration oc ?env sg) app1 cls w1
      = Done (rss1, log1, app', w')" and rss: "rss = rs # rss1"
    using Cons.prems(6) it by auto
  have room: "machine_count (machine (ec_fsm app)) + 1 < 2 ^ 64" using Cons.prems(1) by simp
  note step = echo_iteration_prompt [OF assms room Cons.prems(2-5) it]
  have "machine_count (machine (ec_fsm app1)) + length cls < 2 ^ 64"
    using step Cons.prems(1) by simp
  from Cons.IH [OF this _ _ _ _ rest] step Cons.prems(2,3) show ?case by (simp add: rss)
qed simp

section \<open>Sending the inputs\<close>

lemma run_feeder_sends:
  "in_alive b \<Longrightarrow> in_capacity b = None \<Longrightarrow> feeder_pc p = Feeder_Send msgs \<Longrightarrow>
   run_thread feeder_program (replicate (length msgs) Go) p b =
     (p\<lparr>feeder_pc := Feeder_Send []\<rparr>, b\<lparr>in_queue := in_queue b @ map Echo_Msg msgs\<rparr>)"
proof (induction msgs arbitrary: p b)
  case (Cons msg msgs)
  have "feeder_advance Go p b = (p\<lparr>feeder_pc := Feeder_Send msgs\<rparr>, b\<lparr>in_queue := in_queue b @ [Echo_Msg msg]\<rparr>)"
    using Cons.prems by (simp add: feeder_advance_def bridge_send_def echo_msg_new_def)
  with Cons.IH [of "b\<lparr>in_queue := in_queue b @ [Echo_Msg msg]\<rparr>" "p\<lparr>feeder_pc := Feeder_Send msgs\<rparr>"]
    Cons.prems show ?case by (simp add: feeder_program_def)
qed (simp add: prod_eq_iff)

lemma all_Go: "set cs \<subseteq> {Go} \<Longrightarrow> cs = replicate (length cs) Go"
  by (induction cs) auto

lemma feeder_start_inv: "feeder_inv [] (feeder_start inputs) (new_bridge None)"
  by (simp add: feeder_inv_def feeder_start_def new_bridge_def in_hand_def)

lemma start_prompt:
  "prompt_inv inputs [] (feeder_start inputs) (new_bridge None)"
  using feeder_start_inv [of inputs]
  by (simp add: prompt_inv_def) (simp add: feeder_start_def new_bridge_def)

text \<open>Enough turns at the start put every input into the channel.\<close>

lemma feeder_sends_all:
  assumes "set cs \<subseteq> {Go}" and "length inputs \<le> length cs"
    and "run_thread feeder_program cs (feeder_start inputs) (new_bridge None) = (p, b)"
  shows "in_taken b = [] \<and> in_queue b = map Echo_Msg inputs"
proof -
  let ?n = "length inputs"
  let ?p = "(feeder_start inputs)\<lparr>feeder_pc := Feeder_Send []\<rparr>"
    and ?b = "(new_bridge None :: (echo_msg, echo_msg) bridge)\<lparr>in_queue := map Echo_Msg inputs\<rparr>"
  have cs: "cs = replicate ?n Go @ replicate (length cs - ?n) Go"
    using all_Go [OF assms(1)] assms(2) by (metis le_add_diff_inverse replicate_add)
  have sent: "run_thread feeder_program (replicate ?n Go) (feeder_start inputs) (new_bridge None) = (?p, ?b)"
    using run_feeder_sends [of "new_bridge None" "feeder_start inputs" inputs]
    by (simp add: feeder_start_def new_bridge_def)
  with assms(3) cs have rest: "run_thread feeder_program (replicate (length cs - ?n) Go) ?p ?b = (p, b)"
    by (metis (no_types, lifting) case_prod_conv run_thread_append)
  from feeder.run_thread_move [OF rest] have "prefix (map Echo_Msg inputs) (in_queue b)" "in_taken b = []"
    by (simp_all add: transport_move_def new_bridge_def)
  moreover have "prefix (in_taken b @ in_queue b) (map Echo_Msg inputs)"
    using run_feeder_inv [OF feeder_start_inv assms(3)]
    by (auto simp: feeder_inv_def feeder_start_def)
  ultimately show ?thesis by (simp add: prefix_order.antisym)
qed

section \<open>Collecting and joining\<close>

text \<open>
  After the last iteration of a run in which every input was answered: nothing is left to send, and
  what the driver thread has not received yet is in its channel. \<open>turns_to_echo\<close> is how far it is
  from the next echo for \<open>main\<close>, \<open>turns_to_end\<close>, once \<open>main\<close> has all echoes, how far from returning.
\<close>

definition answered :: "string list \<Rightarrow> string list \<Rightarrow> feeder \<Rightarrow> (echo_msg, echo_msg) bridge \<Rightarrow> bool" where
  "answered inputs got p b \<longleftrightarrow> prompt_inv inputs got p b
   \<and> in_taken b @ in_queue b = map Echo_Msg inputs
   \<and> length (out_got b @ out_queue b) = length inputs"

definition turns_to_echo :: "feeder \<Rightarrow> nat" where
  "turns_to_echo p =
     (if echo_queue p \<noteq> [] then 0
      else (case feeder_pc p of
              Feeder_Send msgs \<Rightarrow> 3 | Feeder_Await k \<Rightarrow> 2 | Feeder_Deliver body k \<Rightarrow> 1 | Feeder_End res \<Rightarrow> 0))"

definition turns_to_end :: "feeder \<Rightarrow> nat" where
  "turns_to_end p =
     (case feeder_pc p of
        Feeder_Send msgs \<Rightarrow> 2 | Feeder_Await k \<Rightarrow> 1 | Feeder_Deliver body k \<Rightarrow> 0 | Feeder_End res \<Rightarrow> 0)"

lemma answered_step:
  assumes "answered inputs got p b" and "feeder_advance Go p b = (p', b')"
  shows "answered inputs got p' b'"
proof -
  have "prompt_inv inputs got p' b'"
    using assms prompt_inv_step [of inputs got p b] by (simp add: answered_def)
  moreover have "prefix (in_taken b' @ in_queue b') (map Echo_Msg inputs)"
    using calculation by (auto simp: prompt_inv_def feeder_inv_def)
  moreover have "in_taken b' = in_taken b" "prefix (in_queue b) (in_queue b')"
      "out_got b' @ out_queue b' = out_got b @ out_queue b"
    using feeder_advance_move [OF assms(2)] by (simp_all add: transport_move_def)
  moreover have "in_taken b @ in_queue b = map Echo_Msg inputs"
    using assms(1) by (simp add: answered_def)
  ultimately show ?thesis
    using assms(1) by (metis answered_def prefix_order.antisym same_prefix_prefix)
qed

text \<open>The driver thread has nothing left to send and does not run out of echoes.\<close>

lemma answered_pc:
  assumes "answered inputs got p b"
  shows "feeder_pc p = Feeder_Send msgs \<Longrightarrow> msgs = []"
    and "feeder_pc p = Feeder_Await k \<Longrightarrow> length (out_queue b) = k"
    and "got @ echo_queue p @ in_hand p = map echo_text (out_got b)" "echo_results_alive p"
proof -
  have inv: "feeder_inv got p b" "feeder_inputs p = inputs"
    and "in_taken b @ in_queue b = map Echo_Msg inputs"
    using assms by (simp_all add: answered_def prompt_inv_def)
  then show "msgs = []" if "feeder_pc p = Feeder_Send msgs"
    using that by (simp add: feeder_inv_def) (metis append_assoc append_self_conv map_is_Nil_conv)
  show "length (out_queue b) = k" if "feeder_pc p = Feeder_Await k"
    using assms that by (auto simp: answered_def prompt_inv_def)
  show "got @ echo_queue p @ in_hand p = map echo_text (out_got b)" "echo_results_alive p"
    using inv by (simp_all add: feeder_inv_def)
qed

lemma echo_comes_closer:
  assumes "answered inputs got p b" and "length got < length inputs"
    and "feeder_advance Go p b = (p', b')"
  shows "turns_to_echo p' \<le> turns_to_echo p - 1"
proof (cases "feeder_pc p")
  case (Feeder_Send msgs)
  with answered_pc(1) [OF assms(1)] assms(3) show ?thesis
    by (auto simp: feeder_advance_def turns_to_echo_def)
next
  case (Feeder_Await k)
  show ?thesis
  proof (cases "echo_queue p = [] \<and> k = 0")
    case True
    with Feeder_Await assms(1) have "length (out_got b) = length inputs"
      by (auto simp: answered_def prompt_inv_def)
    with answered_pc(3) [OF assms(1)] True Feeder_Await assms(2) show ?thesis
      by (auto simp: in_hand_def dest!: arg_cong [where f = length])
  next
    case False
    with answered_pc(2) [OF assms(1) Feeder_Await] Feeder_Await assms(3) show ?thesis
      by (cases k; cases "out_queue b")
        (auto simp: feeder_advance_def bridge_recv_def turns_to_echo_def)
  qed
next
  case (Feeder_Deliver body k)
  with answered_pc(4) [OF assms(1)] assms(3) show ?thesis
    by (auto simp: feeder_advance_def turns_to_echo_def)
next
  case (Feeder_End res)
  with assms(3) show ?thesis by (auto simp: feeder_advance_def turns_to_echo_def)
qed

lemma run_answered:
  "set cs \<subseteq> {Go} \<Longrightarrow> answered inputs got p b \<Longrightarrow> run_thread feeder_program cs p b = (p', b') \<Longrightarrow>
     answered inputs got p' b'
   \<and> (length got < length inputs \<longrightarrow> turns_to_echo p' \<le> turns_to_echo p - length cs)"
proof (induction cs arbitrary: p b)
  case (Cons c cs)
  obtain p1 b1 where s: "feeder_advance Go p b = (p1, b1)" by (metis prod.exhaust)
  have "answered inputs got p' b' \<and>
      (length got < length inputs \<longrightarrow> turns_to_echo p' \<le> turns_to_echo p1 - length cs)"
    by (rule Cons.IH [OF _ answered_step [OF Cons.prems(2) s]])
      (use Cons.prems s in \<open>auto simp: feeder_program_def\<close>)
  with echo_comes_closer [OF Cons.prems(2) _ s] show ?case by fastforce
qed simp

lemma answered_taken:
  assumes "answered inputs got p b" and "echo_queue p = v # vs"
  shows "answered inputs (got @ [v]) (p\<lparr>echo_queue := vs\<rparr>) b"
proof -
  have "feeder_inv got p b" using assms(1) by (simp add: answered_def prompt_inv_def)
  with assms(2) have "feeder_inv (got @ [v]) (p\<lparr>echo_queue := vs\<rparr>) b"
    by (simp add: feeder_inv_def in_hand_def cong: feeder_pc.case_cong)
  with assms(1) show ?thesis unfolding answered_def prompt_inv_def by simp
qed

lemma collect_all:
  "answered inputs got p b \<Longrightarrow> m + length got = length inputs \<Longrightarrow> m \<le> length turns \<Longrightarrow>
   \<forall>cs \<in> set turns. set cs \<subseteq> {Go} \<and> 3 \<le> length cs \<Longrightarrow> echo_collect m turns p b = (live, p', b') \<Longrightarrow>
     length live = m \<and> answered inputs (got @ live) p' b'"
proof (induction m arbitrary: got turns p b live)
  case (Suc m)
  obtain cs rest where turns: "turns = cs # rest" using Suc.prems(3) by (cases turns) auto
  obtain p1 b1 where r: "run_thread feeder_program cs p b = (p1, b1)" by (metis prod.exhaust)
  have cs: "set cs \<subseteq> {Go}" "3 \<le> length cs" and less: "length got < length inputs"
    using Suc.prems(2,4) turns by auto
  note run = run_answered [OF cs(1) Suc.prems(1) r]
  have "turns_to_echo p \<le> 3"
    by (simp add: turns_to_echo_def split: feeder_pc.split)
  with run less cs(2) have zero: "turns_to_echo p1 = 0" by simp
  have "echo_queue p1 \<noteq> []"
  proof
    assume none: "echo_queue p1 = []"
    with zero obtain res where "feeder_pc p1 = Feeder_End res"
      by (auto simp: turns_to_echo_def split: feeder_pc.splits)
    with run have "length (out_got b1) = length inputs" "in_hand p1 = []"
      by (auto simp: answered_def prompt_inv_def in_hand_def)
    with run none less show False
      using arg_cong [OF answered_pc(3), of inputs got p1 b1 length] by simp
  qed
  then obtain v vs where q: "echo_queue p1 = v # vs" by (cases "echo_queue p1") auto
  obtain live1 where rest: "echo_collect m rest (p1\<lparr>echo_queue := vs\<rparr>) b1 = (live1, p', b')"
    and live: "live = v # live1"
    using Suc.prems(5) r q turns by (auto split: prod.splits)
  have "answered inputs (got @ [v]) (p1\<lparr>echo_queue := vs\<rparr>) b1"
    by (rule answered_taken [OF _ q]) (use run in simp)
  from Suc.IH [OF this _ _ _ rest] Suc.prems(2-4) turns live show ?case by simp
qed simp

lemma join_step:
  assumes "answered inputs got p b" and "length got = length inputs"
    and "feeder_advance Go p b = (p', b')"
  shows "turns_to_end p' \<le> turns_to_end p - 1"
proof (cases "feeder_pc p")
  case (Feeder_Send msgs)
  with answered_pc(1) [OF assms(1)] assms(3) show ?thesis
    by (auto simp: feeder_advance_def turns_to_end_def)
next
  case (Feeder_Await k)
  have "length got \<le> length (out_got b)"
    using arg_cong [OF answered_pc(3) [OF assms(1)], of length] by simp
  with assms(1,2) answered_pc(2) [OF assms(1) Feeder_Await] have "k = 0"
    by (simp add: answered_def)
  with Feeder_Await assms(3) show ?thesis by (auto simp: feeder_advance_def turns_to_end_def)
next
  case (Feeder_Deliver body k)
  with answered_pc(4) [OF assms(1)] assms show ?thesis
    using arg_cong [OF answered_pc(3) [OF assms(1)], of length]
    by (auto simp: answered_def in_hand_def)
next
  case (Feeder_End res)
  with assms(3) show ?thesis by (auto simp: feeder_advance_def turns_to_end_def)
qed

lemma join_all:
  "set cs \<subseteq> {Go} \<Longrightarrow> answered inputs got p b \<Longrightarrow> length got = length inputs \<Longrightarrow>
   run_thread feeder_program cs p b = (p', b') \<Longrightarrow>
     answered inputs got p' b' \<and> turns_to_end p' \<le> turns_to_end p - length cs"
proof (induction cs arbitrary: p b)
  case (Cons c cs)
  obtain p1 b1 where s: "feeder_advance Go p b = (p1, b1)" by (metis prod.exhaust)
  have "answered inputs got p' b' \<and> turns_to_end p' \<le> turns_to_end p1 - length cs"
    by (rule Cons.IH [OF _ answered_step [OF Cons.prems(2) s] Cons.prems(3)])
      (use Cons.prems s in \<open>auto simp: feeder_program_def\<close>)
  with join_step [OF Cons.prems(2,3) s] show ?case by auto
qed simp

lemma joined:
  assumes "answered inputs got p b" and "length got = length inputs" and "turns_to_end p = 0"
  shows "\<exists>res. feeder_pc p = Feeder_End res"
proof (cases "feeder_pc p")
  case (Feeder_Deliver body k)
  have "length (out_got b) \<le> length inputs" using assms(1) by (simp add: answered_def)
  with answered_pc(3) [OF assms(1)] Feeder_Deliver assms(2) show ?thesis
    by (auto simp: in_hand_def dest!: arg_cong [where f = length])
qed (use assms(3) in \<open>simp_all add: turns_to_end_def\<close>)

section \<open>The first turn comes before the first iteration\<close>

lemma thread_turn_first:
  assumes "run_thread tp cs (thread w) (chan w) = (p, b)"
  shows "thread_turn tp (w\<lparr>schedule := cs # rest\<rparr>)
    = thread_turn tp (w\<lparr>thread := p, chan := b, schedule := [] # rest\<rparr>)"
  using assms by (simp add: thread_turn_def)

lemma echo_live_first_turn:
  assumes "run_thread feeder_program cs (thread w) (chan w) = (p, b)"
    and "ec_ingress app = \<lparr>ingress_rx = ()\<rparr>" and "cls \<noteq> []"
  shows "echo_live (echo_iteration oc (bridged_env feeder_program im om) sg) app cls
      (w\<lparr>schedule := cs # rest\<rparr>)
    = echo_live (echo_iteration oc (bridged_env feeder_program im om) sg) app cls
      (w\<lparr>thread := p, chan := b, schedule := [] # rest\<rparr>)"
proof -
  obtain cl cls' where "cls = cl # cls'" using assms(3) by (cases cls) auto
  then show ?thesis
    using thread_turn_first [OF assms(1), of rest] assms(2)
    by (simp add: echo_iteration_def ingress_process_def ingress_step_def bridged_rx_def
        bridged_try_recv_def)
qed

section \<open>Success\<close>

text \<open>
  The pace asked for: the driver thread makes no turn in which a timeout expires, at least one turn
  per input before the first operation of the DAG, and three respectively two turns for each receive
  of \<open>main\<close> and for \<open>join\<close>.
\<close>

definition prompt_pace :: "string list \<Rightarrow> feeder_turn list list \<Rightarrow> echo_after \<Rightarrow> bool" where
  "prompt_pace inputs turns after \<longleftrightarrow>
     turns \<noteq> [] \<and> length inputs \<le> length (hd turns) \<and> (\<forall>cs \<in> set turns. set cs \<subseteq> {Go})
   \<and> length inputs \<le> length (collect_turns after)
   \<and> (\<forall>cs \<in> set (collect_turns after). set cs \<subseteq> {Go} \<and> 3 \<le> length cs)
   \<and> set (echo_join_turns after) \<subseteq> {Go} \<and> 2 \<le> length (echo_join_turns after)"

text \<open>The live run then reports no error and leaves every input answered.\<close>

lemma prefix_squeeze: "prefix (a @ q) m \<Longrightarrow> prefix m a \<Longrightarrow> a = m \<and> q = []"
  by (auto simp: prefix_def)

context echo_deployment
begin

lemma prompt_live:
  assumes "prompt_pace inputs turns after"
    and "echo_live (echo_iteration oc env sg) cold_app cls (echo_world_start inputs turns reads)
       = Done (rss, log, app', w')"
  shows "\<forall>rs \<in> set rss. \<forall>x \<in> set rs. x = Inr ()"
    "concat (map (\<lambda>cl. slot_texts om (fsm_slot cl)) log) = numbered 0 inputs"
    "answered inputs [] (thread w') (chan (drop_application w'))"
    "bridged_sent w' = map Echo_Msg (numbered 0 inputs)"
proof -
  let ?w = "echo_world_start inputs turns reads"
  obtain cs rest where turns: "turns = cs # rest" using assms(1) by (cases turns) (auto simp: prompt_pace_def)
  have pace: "set cs \<subseteq> {Go}" "length inputs \<le> length cs" "\<forall>cs \<in> set rest. set cs \<subseteq> {Go}"
    using assms(1) by (simp_all add: prompt_pace_def turns)
  obtain p b where r: "run_thread feeder_program cs (feeder_start inputs) (new_bridge None) = (p, b)"
    by (metis prod.exhaust)
  let ?w1 = "?w\<lparr>thread := p, chan := b, schedule := [] # rest\<rparr>"
  have "?w\<lparr>schedule := cs # rest\<rparr> = ?w" by (simp add: echo_world_start_def turns)
  with echo_live_first_turn [of cs ?w p b cold_app cls oc im om sg rest] r assms(2)
  have live: "echo_live (echo_iteration oc env sg) cold_app cls ?w1 = Done (rss, log, app', w')"
    by (simp add: start_state echo_iterations_def)
  have J: "prompt_inv inputs [] p b"
    using prompt.run_thread_J [OF pace(1) _ r, of inputs] start_prompt by (simp add: new_bridge_def)
  have "transport_move (new_bridge None) b" by (rule feeder.run_thread_move [OF r])
  then have b: "in_alive b" "out_alive b" "out_got b @ out_queue b = []"
    by (simp_all add: transport_move_def new_bridge_def)
  note q = feeder_sends_all [OF pace(1,2) r]
  have w1: "bridged_taken ?w1 = []" "bridged_sent ?w1 = []" "bridged_arrived ?w1 = map Echo_Msg inputs"
      "prompt_world inputs ?w1"
    using q b J pace(3)
    by (simp_all add: bridged_taken_def bridged_sent_def bridged_arrived_def on_pace_def)
  have final: "(\<forall>rs \<in> set rss. \<forall>x \<in> set rs. x = Inr ()) \<and> prompt_world inputs w'"
    by (rule echo_live_prompt [OF slots_in slots_out sm room _ _ w1(4) _ live]) (simp_all add: w1)
  then show ok: "\<forall>rs \<in> set rss. \<forall>x \<in> set rs. x = Inr ()" by simp
  obtain texts where T: "bridged_taken w' = map Echo_Msg texts"
      "bridged_sent w' = map Echo_Msg (numbered 0 texts)" "prefix (map Echo_Msg inputs) (bridged_taken w')"
      "concat (map (\<lambda>cl. slot_texts om (fsm_slot cl)) log) = numbered 0 texts"
    using echo_live_channels [OF service sm room _ _ live] ok
    by (auto simp: w1 echo_default_count [OF sm] echo_iterations_def)
  have J': "prompt_inv inputs [] (thread w') (chan w')" using final by simp
  then have "prefix (in_taken (chan w') @ in_queue (chan w')) (map Echo_Msg inputs)"
    by (auto simp: prompt_inv_def feeder_inv_def)
  moreover have "prefix (map Echo_Msg inputs) (in_taken (chan w'))"
    using T(3) by (simp add: bridged_taken_def)
  ultimately have "in_taken (chan w') = map Echo_Msg inputs \<and> in_queue (chan w') = []"
    by (rule prefix_squeeze)
  then have all: "in_taken (chan w') = map Echo_Msg inputs" "in_queue (chan w') = []" by simp_all
  have "map Echo_Msg texts = map Echo_Msg inputs"
    using T(1) all(1) by (simp add: bridged_taken_def)
  then have texts: "texts = inputs"
    by (metis map_map map_text_Echo_Msg)
  show "concat (map (\<lambda>cl. slot_texts om (fsm_slot cl)) log) = numbered 0 inputs"
    and "bridged_sent w' = map Echo_Msg (numbered 0 inputs)"
    using T texts by simp_all
  then have "length (out_got (chan w') @ out_queue (chan w')) = length inputs"
    by (metis bridged_sent_def length_map length_numbered)
  with J' all show "answered inputs [] (thread w') (chan (drop_application w'))"
    by (auto simp: answered_def prompt_inv_def drop_application_def feeder_inv_def split: feeder_pc.splits)
qed

lemma prompt_run:
  assumes "prompt_pace inputs turns after"
  obtains log recorded where
    "echo_run_live rt sg inputs after r (echo_world_start inputs turns reads)
       = Some (Done (log, numbered 0 inputs))"
    "read_log log = Some (Done recorded)" "echo_outputs recorded = numbered 0 inputs"
    "echo_replay oc sg (ingress_inputs recorded) = Done (numbered 0 inputs)"
proof -
  let ?w = "echo_world_start inputs turns reads"
  obtain rss log app' w' "is" where
    live: "echo_live (echo_iteration oc env sg) cold_app cls ?w = Done (rss, log, app', w')"
    and outs: "concat (map (\<lambda>cl. slot_texts om (fsm_slot cl)) log) = numbered 0 (input_texts is)"
    and read: "read_log log = Some (Done
       \<lparr>ingress_inputs = is, echo_outputs = concat (map (\<lambda>cl. slot_texts om (fsm_slot cl)) log)\<rparr>)"
    and replay: "echo_replay oc sg is = Done (numbered 0 (input_texts is))"
    and run: "\<forall>after. echo_run_live rt sg inputs after r ?w =
       (if list_all (echo_iteration_ok rt) rss
        then (let (live, p, b) = echo_collect (length inputs) (collect_turns after)
                    (thread w') (chan (drop_application w'));
                  (p, b) = run_thread feeder_program (echo_join_turns after) p b
              in (case feeder_pc p of Feeder_End res \<Rightarrow> Some (Done (log, live)) | _ \<Rightarrow> None))
        else Some (Panic ''run_one_iteration failed''))"
    by (rule live_start [of turns reads])
  note P = prompt_live [OF assms live]
  obtain echoes p b where c: "echo_collect (length inputs) (collect_turns after)
      (thread w') (chan (drop_application w')) = (echoes, p, b)" by (metis prod.exhaust)
  have "length echoes = length inputs \<and> answered inputs ([] @ echoes) p b"
    by (rule collect_all [OF P(3) _ _ _ c]) (use assms in \<open>simp_all add: prompt_pace_def\<close>)
  then have got: "length echoes = length inputs" "answered inputs echoes p b" by simp_all
  obtain p' b' where j: "run_thread feeder_program (echo_join_turns after) p b = (p', b')"
    by (metis prod.exhaust)
  have turns: "set (echo_join_turns after) \<subseteq> {Go}" "2 \<le> length (echo_join_turns after)"
    using assms by (simp_all add: prompt_pace_def)
  have "turns_to_end p \<le> 2" by (simp add: turns_to_end_def split: feeder_pc.split)
  with join_all [OF turns(1) got(2,1) j] turns(2) obtain res where ended: "feeder_pc p' = Feeder_End res"
    using joined [of inputs echoes p' b'] got(1) by auto
  have inv: "feeder_inv [] (thread w') (chan (drop_application w'))"
    using P(3) by (simp add: answered_def prompt_inv_def)
  have "prefix echoes (numbered 0 inputs)"
    using collected_prefix(1) [OF inv c] P(4)
    by (simp add: bridged_sent_def drop_application_def flip: map_append)
  with got(1) have "echoes = numbered 0 inputs"
    by (metis length_numbered prefix_order.dual_order.refl prefix_length_prefix prefix_order.antisym le_refl)
  then show thesis
    using that [of log, OF _ read] run P(1,2) outs replay c j ended reports by (simp add: list_all_iff)
qed

end

text \<open>
  C6. The echo program succeeds when its transport is prompt, for every list of inputs and whatever the
  clock reads: if the driver thread sends its inputs before the first iteration, no timeout expires,
  and it gets a few turns while \<open>main\<close> collects and joins, then every input is echoed and \<open>main\<close> exits
  with status 0, having compared equal files.
\<close>

theorem echo_main_prompt_succeeds:
  assumes "echo_deployment rt im om read_log decode os oc sg inputs r"
    and "prompt_pace inputs turns after"
  shows "echo_main rt read_log os oc sg inputs after r (echo_world_start inputs turns reads) = Some (Done 0)"
proof (rule echo_deployment.prompt_run [OF assms, of reads])
  fix log recorded
  assume "echo_run_live rt sg inputs after r (echo_world_start inputs turns reads)
       = Some (Done (log, numbered 0 inputs))"
    and "read_log log = Some (Done recorded)" "echo_outputs recorded = numbered 0 inputs"
    and "echo_replay oc sg (ingress_inputs recorded) = Done (numbered 0 inputs)"
  then show ?thesis
    using echo_deployment.writes [OF assms(1)] echo_deployment.diffs [OF assms(1)]
    by (simp add: echo_main_def echo_compare_def)
qed

definition patient_after :: echo_after where
  "patient_after = \<lparr>collect_turns = replicate 3 (replicate 3 Go), echo_join_turns = [Go, Go]\<rparr>"

theorem echo_main_prompt_succeeds_witness:
  "echo_main echo_demo_runtime echo_demo_read echo_demo_host True leaf_statig main_inputs patient_after
     None (echo_world_start main_inputs [replicate 3 Go] (\<lambda>n. 0)) = Some (Done 0)"
  by (rule echo_main_prompt_succeeds [OF echo_demo.echo_deployment_axioms])
    (simp add: prompt_pace_def patient_after_def main_inputs_def)

section \<open>A late transport\<close>

text \<open>
  What holds while the driver thread has fewer turns before the end of the loop than there are
  messages left to send: it is still sending, so the DAG can send too, and nothing has come back.
\<close>

definition late_world :: "string list \<Rightarrow> echo_world \<Rightarrow> bool" where
  "late_world inputs w \<longleftrightarrow> in_alive (chan w)
   \<and> (\<exists>msgs. thread w = (feeder_start inputs)\<lparr>feeder_pc := Feeder_Send msgs\<rparr>
        \<and> length (concat (schedule w)) < length msgs)"

lemma run_feeder_late:
  "in_alive b \<Longrightarrow> p = (feeder_start inputs)\<lparr>feeder_pc := Feeder_Send msgs\<rparr> \<Longrightarrow>
   length cs + n < length msgs \<Longrightarrow> run_thread feeder_program cs p b = (p', b') \<Longrightarrow>
     in_alive b' \<and> (\<exists>ms. p' = (feeder_start inputs)\<lparr>feeder_pc := Feeder_Send ms\<rparr> \<and> n < length ms)"
proof (induction cs arbitrary: p b msgs)
  case (Cons c cs)
  obtain m ms where msgs: "msgs = m # ms" using Cons.prems(3) by (cases msgs) auto
  let ?p = "\<lambda>ms. (feeder_start inputs)\<lparr>feeder_pc := Feeder_Send ms\<rparr>"
  obtain p1 b1 where s: "feeder_advance c p b = (p1, b1)" by (metis prod.exhaust)
  then have rest: "run_thread feeder_program cs p1 b1 = (p', b')"
    using Cons.prems(4) by (simp add: feeder_program_def)
  have b1: "in_alive b1"
    using feeder_advance_move [OF s] Cons.prems(1) by (simp add: transport_move_def)
  from s Cons.prems(1) have "p1 = ?p ms \<or> p1 = ?p msgs"
    by (auto simp: Cons.prems(2) msgs feeder_advance_def bridge_send_def split: option.splits if_splits)
  then show ?case
  proof
    assume "p1 = ?p ms"
    then show ?thesis by (rule Cons.IH [OF b1 _ _ rest]) (use Cons.prems(3) msgs in simp)
  next
    assume "p1 = ?p msgs"
    then show ?thesis by (rule Cons.IH [OF b1 _ _ rest]) (use Cons.prems(3) in simp)
  qed
qed auto

lemma late_world_turn: "late_world inputs w \<Longrightarrow> late_world inputs (thread_turn feeder_program w)"
proof (cases "schedule w")
  case (Cons cs rest)
  assume "late_world inputs w"
  then obtain msgs where w: "in_alive (chan w)"
      "thread w = (feeder_start inputs)\<lparr>feeder_pc := Feeder_Send msgs\<rparr>"
      "length cs + length (concat rest) < length msgs"
    by (auto simp: late_world_def Cons)
  obtain p b where r: "run_thread feeder_program cs (thread w) (chan w) = (p, b)"
    by (metis prod.exhaust)
  from run_feeder_late [OF w r] Cons r show ?thesis
    by (auto simp: late_world_def thread_turn_def)
qed (simp add: thread_turn_def)

lemma late_world_listens: "late_world inputs w \<Longrightarrow> listening feeder_program (thread w)"
  by (auto simp: late_world_def feeder_program_def feeder_listening_def)

lemma late_world_chan:
  "late_world inputs w \<Longrightarrow> in_alive b = in_alive (chan w) \<Longrightarrow> late_world inputs (w\<lparr>chan := b\<rparr>)"
  "late_world inputs w \<Longrightarrow> late_world inputs (w\<lparr>clock_count := k\<rparr>)"
  by (simp_all add: late_world_def)

interpretation late: world_sends "bridged_clk feeder_program" "bridged_rx feeder_program" "()"
    "bridged_tx feeder_program" "()" "late_world inputs"
  by unfold_locales
    (auto simp: bridged_defs split: list.splits if_splits
      intro: late_world_chan late_world_turn
      dest: late_world_listens [OF late_world_turn])

text \<open>No task reports an error in such a loop.\<close>

lemma echo_live_no_error:
  assumes "slot_env env" and "statig sg"
    and sends: "world_sends (env_clk env) (env_rx env) hin (env_tx env) hout I"
  shows "machine_count (machine (ec_fsm app)) + length cls < 2 ^ 64 \<Longrightarrow>
    ec_ingress app = \<lparr>ingress_rx = hin\<rparr> \<Longrightarrow> ec_egress app = \<lparr>egress_tx = hout\<rparr> \<Longrightarrow> I w \<Longrightarrow>
    echo_live (echo_iteration oc env sg) app cls w = Done (rss, log, app', w') \<Longrightarrow>
    \<forall>rs \<in> set rss. \<forall>x \<in> set rs. x = Inr ()"
proof (induction cls arbitrary: app w rss log)
  case (Cons cl cls)
  note inv = world_sends.axioms(1) [OF sends]
  have room: "machine_count (machine (ec_fsm app)) + 1 < 2 ^ 64" using Cons.prems(1) by simp
  obtain m0 w0 i m1 w1 r2 w2 m' where it:
    "ingress_process (env_clk env) (env_rx env) (env_in env) (ec_ingress app) (ingress_slot cl) w
       = (Inr (), m0, w0)"
    "forward_single (env_clk env) (env_out env) (fsm_slot cl) w0
       (map Echo_Msg (numbered (machine_count (machine (ec_fsm app))) (input_texts [i]))) = (Inr (), m1, w1)"
    "egress_process (env_tx env) (env_out env) (ec_egress app) m1 w1 = (r2, w2)"
    "echo_iteration oc env sg app cl w = Done ([Inr (), Inr (), r2],
       cl\<lparr>ingress_slot := m0, fsm_slot := m1\<rparr>,
       app\<lparr>ec_fsm := (ec_fsm app)\<lparr>machine := m'\<rparr>\<rparr>, w2)"
    "machine_count m' = machine_count (machine (ec_fsm app)) + length (input_texts [i])"
    by (rule echo_iteration_parts [OF assms(1,2) room])
  let ?app = "app\<lparr>ec_fsm := (ec_fsm app)\<lparr>machine := m'\<rparr>\<rparr>"
  obtain rss1 log1 where rest: "echo_live (echo_iteration oc env sg) ?app cls w2 = Done (rss1, log1, app', w')"
    and rss: "rss = [Inr (), Inr (), r2] # rss1"
    using Cons.prems(5) it(4) by auto
  have "I w1"
    by (rule world_invariant.forward_single_inv [OF inv world_invariant.ingress_process_inv
        [OF inv Cons.prems(4) it(1) [unfolded Cons.prems(2)]] it(2)])
  note e = this it(3) [unfolded Cons.prems(3)]
  have "r2 = Inr ()" by (rule world_sends.egress_process_no_error [OF sends e])
  moreover have "I w2" by (rule world_invariant.egress_process_inv [OF inv e])
  moreover have "machine_count (machine (ec_fsm ?app)) + length cls < 2 ^ 64"
    using Cons.prems(1) it(5) length_input_texts [of "[i]"] by simp
  ultimately show ?case using Cons.IH [OF _ _ _ _ rest] Cons.prems(2,3) by (simp add: rss)
qed simp

text \<open>After the drop of the application a thread that is still sending ends with its next turn.\<close>

lemma run_feeder_dropped:
  "\<not> in_alive b \<Longrightarrow> echo_queue p = [] \<Longrightarrow>
   (\<exists>m ms. feeder_pc p = Feeder_Send (m # ms)) \<or> (\<exists>res. feeder_pc p = Feeder_End res) \<Longrightarrow>
   run_thread feeder_program cs p b = (p', b') \<Longrightarrow>
     b' = b \<and> echo_queue p' = []
   \<and> ((\<exists>m ms. feeder_pc p' = Feeder_Send (m # ms)) \<or> (\<exists>res. feeder_pc p' = Feeder_End res))
   \<and> (cs \<noteq> [] \<longrightarrow> (\<exists>res. feeder_pc p' = Feeder_End res))"
proof (induction cs arbitrary: p)
  case (Cons c cs)
  obtain p1 b1 where s: "feeder_advance c p b = (p1, b1)" by (metis prod.exhaust)
  then have rest: "run_thread feeder_program cs p1 b1 = (p', b')"
    using Cons.prems(4) by (simp add: feeder_program_def)
  from s Cons.prems(1-3) have p1: "b1 = b" "echo_queue p1 = []" "\<exists>res. feeder_pc p1 = Feeder_End res"
    by (auto simp: feeder_advance_def bridge_send_def)
  have "feeder_pc p' = feeder_pc p1" if "cs = []" using rest that by simp
  with Cons.IH [OF Cons.prems(1) p1(2) _ rest [unfolded p1(1)]] p1(3) show ?case
    by (cases cs) auto
qed auto

context echo_deployment
begin

lemma late_run:
  assumes "length (concat turns) < length inputs" and "echo_join_turns after \<noteq> []"
  obtains log where "echo_run_live rt sg inputs after r (echo_world_start inputs turns reads)
    = Some (Done (log, []))"
proof -
  let ?w = "echo_world_start inputs turns reads"
  obtain rss log app' w' where
    live: "echo_live (echo_iteration oc env sg) cold_app cls ?w = Done (rss, log, app', w')"
    and run: "\<forall>after. echo_run_live rt sg inputs after r ?w =
       (if list_all (echo_iteration_ok rt) rss
        then (let (live, p, b) = echo_collect (length inputs) (collect_turns after)
                    (thread w') (chan (drop_application w'));
                  (p, b) = run_thread feeder_program (echo_join_turns after) p b
              in (case feeder_pc p of Feeder_End res \<Rightarrow> Some (Done (log, live)) | _ \<Rightarrow> None))
        else Some (Panic ''run_one_iteration failed''))"
    by (rule live_start [of turns reads])
  have slots: "slot_env env" using service by (simp add: service_env_def)
  have start: "late_world inputs ?w"
    unfolding late_world_def
    by (rule conjI [OF _ exI [of _ inputs]])
      (use assms(1) in \<open>simp_all add: echo_world_start_def new_bridge_def feeder_start_def\<close>)
  have ok: "\<forall>rs \<in> set rss. \<forall>x \<in> set rs. x = Inr ()"
    by (rule echo_live_no_error [where env = env and hin = "()" and hout = "()"
        and I = "late_world inputs" and cls = cls, OF slots sm _ room _ _ start live])
      (simp_all add: late.world_sends_axioms)
  have "late_world inputs w'"
    by (rule echo_live_inv [where env = env and hin = "()" and hout = "()"
        and I = "late_world inputs", OF _ start _ _ live])
      (simp_all add: late.world_invariant_axioms)
  then obtain m ms where w': "thread w' = (feeder_start inputs)\<lparr>feeder_pc := Feeder_Send (m # ms)\<rparr>"
    by (metis late_world_def list.exhaust list.size(3) not_less_zero)
  let ?cs = "case collect_turns after of [] \<Rightarrow> [] | cs # _ \<Rightarrow> cs"
  obtain p b where c: "run_thread feeder_program ?cs (thread w') (chan (drop_application w')) = (p, b)"
    by (metis prod.exhaust)
  have p: "b = chan (drop_application w')" "echo_queue p = []"
      "(\<exists>m ms. feeder_pc p = Feeder_Send (m # ms)) \<or> (\<exists>res. feeder_pc p = Feeder_End res)"
    using run_feeder_dropped [OF _ _ _ c]
    by (simp_all add: w' drop_application_def feeder_start_def)
  obtain p' b' where j: "run_thread feeder_program (echo_join_turns after) p b = (p', b')"
    by (metis prod.exhaust)
  obtain res where ended: "feeder_pc p' = Feeder_End res"
    using run_feeder_dropped [OF _ p(2,3) j] assms(2) by (auto simp: p(1) drop_application_def)
  obtain n where n: "length inputs = Suc n" using assms(1) by (cases "length inputs") auto
  have "echo_collect (length inputs) (collect_turns after) (thread w') (chan (drop_application w'))
      = ([], p, b)"
    by (simp add: n c p(2))
  then show thesis
    using that [of log] run ok reports j ended by (simp add: list_all_iff)
qed

end

text \<open>
  C39. The live loop does not wait for its transport: it makes \<open>inputs.len() + 3\<close> iterations at whatever
  pace. If the driver thread gets fewer turns before the loop ends than there are inputs to send, then
  \<open>main\<close> fails on "live run did not echo every input", whatever the inputs and the clock are, as soon
  as that thread runs again, although no task reports an error.
\<close>

theorem echo_main_late_fails:
  assumes "echo_deployment rt im om read_log decode os oc sg inputs r"
    and "length (concat turns) < length inputs" and "echo_join_turns after \<noteq> []"
  shows "echo_main rt read_log os oc sg inputs after r (echo_world_start inputs turns reads)
         = Some (Panic ''live run did not echo every input'')"
  by (rule echo_deployment.late_run [OF assms, of reads]) (use assms(2) in \<open>auto simp: echo_main_def\<close>)

theorem echo_main_late_fails_witness:
  "echo_main echo_demo_runtime echo_demo_read echo_demo_host True leaf_statig main_inputs
     \<lparr>collect_turns = [], echo_join_turns = [Go]\<rparr> None
     (echo_world_start main_inputs [[], [Go], [], [Deadline]] (\<lambda>n. 0))
   = Some (Panic ''live run did not echo every input'')"
  by (rule echo_main_late_fails [OF echo_demo.echo_deployment_axioms]) (simp_all add: main_inputs_def)

end
