(* ===== verification/Rt.thy ===== *)
theory Rt
  imports Prelude
begin

text \<open>
  \<open>crates/msrs-core/src/rt.rs\<close>: pinning and scheduling of the current thread. The operating
  system, reached through the \<open>core_affinity\<close> and \<open>thread_priority\<close> crates, is a record of
  operations on a world; \<open>os_threads\<close> states what their documentation says, and a simulated thread
  is the executable instance.
\<close>

section \<open>Configuration\<close>

datatype sched_policy = Normal | Fifo u8

record rt_config =
  scheduler :: sched_policy
  affinity :: "usize list"

definition rt_config_normal :: rt_config where
  "rt_config_normal = \<lparr>scheduler = Normal, affinity = []\<rparr>"

section \<open>The operating system\<close>

text \<open>
  \<open>get_core_ids\<close>, the \<open>id\<close> of a core and \<open>set_for_current\<close> of \<open>core_affinity\<close>;
  \<open>ThreadPriorityValue::try_from\<close> and \<open>set_thread_priority_and_policy\<close> for the FIFO policy on the
  calling thread, with the texts of their errors.
\<close>

record ('w, 'c, 'p) os_api =
  get_core_ids :: "'w \<Rightarrow> 'c list option \<times> 'w"
  core_no :: "'c \<Rightarrow> usize"
  set_for_current :: "'c \<Rightarrow> 'w \<Rightarrow> bool \<times> 'w"
  priority_try_from :: "u8 \<Rightarrow> string + 'p"
  set_fifo_priority :: "'p \<Rightarrow> 'w \<Rightarrow> (string + unit) \<times> 'w"

section \<open>Operations\<close>

text \<open>The two versions of \<open>set_fifo\<close>, selected at compile time by the target.\<close>

definition set_fifo_linux :: "('w, 'c, 'p) os_api \<Rightarrow> u8 \<Rightarrow> 'w \<Rightarrow> (string + unit) \<times> 'w" where
  "set_fifo_linux os prio w =
     (case map_err (\<lambda>e. ''invalid priority: '' @ e) (priority_try_from os prio) of
        Inl e \<Rightarrow> (Inl e, w)
      | Inr priority \<Rightarrow>
          let (r, w) = set_fifo_priority os priority w
          in (map_err (\<lambda>e. ''set SCHED_FIFO failed: '' @ e) r, w))"

definition set_fifo_other :: "u8 \<Rightarrow> 'w \<Rightarrow> (string + unit) \<times> 'w" where
  "set_fifo_other prio w = (Inl ''SCHED_FIFO only supported on Linux'', w)"

text \<open>One turn of the loop over \<open>affinity\<close>; the state is \<open>first_err\<close> and the world.\<close>

definition pin_core ::
    "('w, 'c, 'p) os_api \<Rightarrow> 'c list \<Rightarrow> usize \<Rightarrow> string option \<times> 'w \<Rightarrow> string option \<times> 'w" where
  "pin_core os ids want = (\<lambda>(first_err, w).
     (case find (\<lambda>c. core_no os c = want) ids of
        Some core \<Rightarrow>
          let (ok, w) = set_for_current os core w in
          (if ok then first_err
           else get_or_insert (''failed to pin to core '' @ show_word want) first_err, w)
      | None \<Rightarrow>
          (get_or_insert (''core '' @ show_word want @ '' not available'') first_err, w)))"

definition rt_apply ::
    "('w, 'c, 'p) os_api \<Rightarrow> (u8 \<Rightarrow> 'w \<Rightarrow> (string + unit) \<times> 'w) \<Rightarrow> rt_config \<Rightarrow> 'w \<Rightarrow>
     (string + unit) \<times> 'w" where
  "rt_apply os set_fifo rt w =
     (let first_err = None;
          (first_err, w) =
            (if affinity rt \<noteq> [] then
               (case get_core_ids os w of
                  (Some ids, w) \<Rightarrow> fold (pin_core os ids) (affinity rt) (first_err, w)
                | (None, w) \<Rightarrow> (get_or_insert ''core ids unavailable'' first_err, w))
             else (first_err, w));
          (first_err, w) =
            (case scheduler rt of
               Fifo prio \<Rightarrow>
                 (case set_fifo prio w of
                    (Inl e, w) \<Rightarrow> (get_or_insert e first_err, w)
                  | (Inr u, w) \<Rightarrow> (first_err, w))
             | Normal \<Rightarrow> (first_err, w))
      in (case first_err of Some e \<Rightarrow> (Inl e, w) | None \<Rightarrow> (Inr (), w)))"

section \<open>What it does, as a list of attempts\<close>

text \<open>
  Every attempt in order, with the failures they report: pinning first, then the policy.
  \<open>rt_apply\<close> is this run with only the first failure kept.
\<close>

fun pin_attempts :: "('w, 'c, 'p) os_api \<Rightarrow> 'c list \<Rightarrow> usize list \<Rightarrow> 'w \<Rightarrow> string list \<times> 'w" where
  "pin_attempts os ids [] w = ([], w)"
| "pin_attempts os ids (want # wants) w =
     (case find (\<lambda>c. core_no os c = want) ids of
        Some core \<Rightarrow>
          (case set_for_current os core w of (ok, w) \<Rightarrow>
             (case pin_attempts os ids wants w of (es, w) \<Rightarrow>
                ((if ok then [] else [''failed to pin to core '' @ show_word want]) @ es, w)))
      | None \<Rightarrow>
          (case pin_attempts os ids wants w of (es, w) \<Rightarrow>
             ((''core '' @ show_word want @ '' not available'') # es, w)))"

definition affinity_attempts ::
    "('w, 'c, 'p) os_api \<Rightarrow> usize list \<Rightarrow> 'w \<Rightarrow> string list \<times> 'w" where
  "affinity_attempts os wants w =
     (if wants = [] then ([], w)
      else (case get_core_ids os w of
              (None, w) \<Rightarrow> ([''core ids unavailable''], w)
            | (Some ids, w) \<Rightarrow> pin_attempts os ids wants w))"

definition policy_attempts ::
    "(u8 \<Rightarrow> 'w \<Rightarrow> (string + unit) \<times> 'w) \<Rightarrow> sched_policy \<Rightarrow> 'w \<Rightarrow> string list \<times> 'w" where
  "policy_attempts set_fifo policy w =
     (case policy of
        Normal \<Rightarrow> ([], w)
      | Fifo prio \<Rightarrow> (case set_fifo prio w of (r, w) \<Rightarrow>
          (case r of Inl e \<Rightarrow> [e] | Inr u \<Rightarrow> [], w)))"

lemma pin_core_apply:
  "pin_core os ids want (first_err, w) =
     (case find (\<lambda>c. core_no os c = want) ids of
        Some core \<Rightarrow>
          (case set_for_current os core w of (ok, w) \<Rightarrow>
             (if ok then first_err
              else get_or_insert (''failed to pin to core '' @ show_word want) first_err, w))
      | None \<Rightarrow>
          (get_or_insert (''core '' @ show_word want @ '' not available'') first_err, w))"
  unfolding pin_core_def Let_def by simp

lemma fold_pin_core:
  "fold (pin_core os ids) wants (err, w) =
     (case pin_attempts os ids wants w of (es, w') \<Rightarrow> (fold get_or_insert es err, w'))"
proof (induction wants arbitrary: err w)
  case (Cons want wants)
  show ?case
    by (cases "find (\<lambda>c. core_no os c = want) ids")
      (auto simp: pin_core_apply Cons.IH split: prod.splits)
qed simp

lemma fold_get_or_insert_None:
  "fold get_or_insert es None = (case es of [] \<Rightarrow> None | e # _ \<Rightarrow> Some e)"
  by (cases es) simp_all

lemma rt_apply_attempts:
  "rt_apply os set_fifo rt w =
     (let (pin_errors, w1) = affinity_attempts os (affinity rt) w;
          (policy_errors, w2) = policy_attempts set_fifo (scheduler rt) w1
      in (case pin_errors @ policy_errors of [] \<Rightarrow> Inr () | e # _ \<Rightarrow> Inl e, w2))"
proof -
  obtain e1 w1 where a: "affinity_attempts os (affinity rt) w = (e1, w1)"
    by (cases "affinity_attempts os (affinity rt) w")
  obtain e2 w2 where p: "policy_attempts set_fifo (scheduler rt) w1 = (e2, w2)"
    by (cases "policy_attempts set_fifo (scheduler rt) w1")
  have pin: "(if affinity rt \<noteq> [] then
         (case get_core_ids os w of
            (Some ids, w) \<Rightarrow> fold (pin_core os ids) (affinity rt) (None, w)
          | (None, w) \<Rightarrow> (get_or_insert ''core ids unavailable'' None, w))
       else (None, w)) = (fold get_or_insert e1 None, w1)"
    using a by (auto simp: affinity_attempts_def fold_pin_core split: prod.splits option.splits)
  have pol: "(case scheduler rt of
         Fifo prio \<Rightarrow>
           (case set_fifo prio w1 of
              (Inl e, w) \<Rightarrow> (get_or_insert e err, w)
            | (Inr u, w) \<Rightarrow> (err, w))
       | Normal \<Rightarrow> (err, w1)) = (fold get_or_insert e2 err, w2)" for err
    using p by (auto simp: policy_attempts_def split: sched_policy.splits prod.splits sum.splits)
  show ?thesis
    by (simp add: rt_apply_def pin pol a p Let_def fold_append [symmetric] fold_get_or_insert_None
        del: fold_append split: list.split)
qed

text \<open>
  \<open>RtConfig::apply\<close> always makes every attempt, each configured core in order and then the
  scheduling policy, also after failures; it returns the text of the first failure, or \<open>Ok\<close> exactly
  when there was none.
\<close>

lemma rt_apply_first_failure:
  "rt_apply os set_fifo rt w =
     (let (pin_errors, w1) = affinity_attempts os (affinity rt) w;
          (policy_errors, w2) = policy_attempts set_fifo (scheduler rt) w1
      in (case pin_errors @ policy_errors of [] \<Rightarrow> Inr () | e # _ \<Rightarrow> Inl e, w2))"
  by (rule rt_apply_attempts)

text \<open>
  The default configuration touches nothing and cannot fail, on every platform.
\<close>

lemma rt_apply_normal: "rt_apply os set_fifo rt_config_normal w = (Inr (), w)"
  by (simp add: rt_apply_def rt_config_normal_def)

section \<open>The contract of the operating system\<close>

text \<open>
  \<open>core_mask\<close> is the set of cores the current thread may run on. \<open>set_for_current\<close> with a core of
  the machine binds the thread to that core alone, whatever it was bound to before, or fails and
  changes nothing; reading the cores and setting the policy leave the mask alone.
\<close>

locale os_threads =
  fixes os :: "('w, 'c, 'p) os_api"
    and core_mask :: "'w \<Rightarrow> usize set"
  assumes cores_mask: "core_mask (snd (get_core_ids os w)) = core_mask w"
    and pin_ok: "set_for_current os c w = (True, w') \<Longrightarrow> core_mask w' = {core_no os c}"
    and pin_failed: "set_for_current os c w = (False, w') \<Longrightarrow> core_mask w' = core_mask w"
    and policy_mask: "core_mask (snd (set_fifo_priority os p w)) = core_mask w"
begin

lemma set_fifo_mask: "core_mask (snd (set_fifo_linux os prio w)) = core_mask w"
  by (simp add: set_fifo_linux_def split_def Let_def policy_mask split: sum.split)

text \<open>After the loop the thread is bound to the last core that could be pinned.\<close>

lemma pin_attempts_mask:
  "pin_attempts os ids wants w = ([], w') \<Longrightarrow> wants \<noteq> [] \<Longrightarrow> core_mask w' = {last wants}"
proof (induction wants arbitrary: w)
  case (Cons want wants)
  from Cons.prems(1) obtain core w1 where c: "find (\<lambda>c. core_no os c = want) ids = Some core"
    and s: "set_for_current os core w = (True, w1)"
    and rest: "pin_attempts os ids wants w1 = ([], w')"
    by (auto split: option.splits prod.splits if_splits)
  show ?case
  proof (cases "wants = []")
    case True
    have "core_no os core = want" using c by (auto simp: find_Some_iff)
    with pin_ok [OF s] rest True show ?thesis by simp
  next
    case False
    with Cons.IH [OF rest] show ?thesis by simp
  qed
qed simp

lemma policy_attempts_mask:
  "core_mask (snd (policy_attempts (set_fifo_linux os) policy w)) = core_mask w"
  by (simp add: policy_attempts_def split_def set_fifo_mask split: sched_policy.split)

lemma affinity_attempts_mask:
  assumes "affinity_attempts os wants w = ([], w')"
  shows "core_mask w' = (if wants = [] then core_mask w else {last wants})"
proof (cases "wants = []")
  case False
  with assms obtain ids w1 where "get_core_ids os w = (Some ids, w1)"
    "pin_attempts os ids wants w1 = ([], w')"
    by (auto simp: affinity_attempts_def split: prod.splits option.splits)
  with pin_attempts_mask [of ids wants w1 w'] False show ?thesis by simp
qed (use assms in \<open>simp add: affinity_attempts_def\<close>)

end

text \<open>A simulated thread: four cores, the mask, the FIFO priority and whether it may set one.\<close>

record sim_thread =
  sim_mask :: "usize set"
  sim_fifo :: "u8 option"
  sim_privileged :: bool

definition sim_os :: "(sim_thread, usize, u8) os_api" where
  "sim_os =
     \<lparr>get_core_ids = (\<lambda>w. (Some [0, 1, 2, 3], w)),
      core_no = (\<lambda>c. c),
      set_for_current = (\<lambda>c w. (True, w\<lparr>sim_mask := {c}\<rparr>)),
      priority_try_from = (\<lambda>p. if p < 100 then Inr p else Inl ''out of range''),
      set_fifo_priority = (\<lambda>p w. if sim_privileged w then (Inr (), w\<lparr>sim_fifo := Some p\<rparr>)
                                  else (Inl ''EPERM'', w))\<rparr>"

interpretation sim_threads: os_threads sim_os sim_mask
  by unfold_locales (auto simp: sim_os_def)

text \<open>
  C36. Pinning to several cores: \<open>set_for_current\<close> binds to one core, so the loop over \<open>affinity\<close>
  leaves the thread bound to the last configured core alone, although \<open>apply\<close> returns \<open>Ok\<close>.
  Only a list whose elements are all equal is pinned as configured.
\<close>

theorem rt_apply_pins_last_core:
  assumes "os_threads os core_mask"
    and "rt_apply os (set_fifo_linux os) rt w = (Inr (), w')" and "affinity rt \<noteq> []"
  shows "core_mask w' = {last (affinity rt)}
       \<and> (core_mask w' = set (affinity rt) \<longleftrightarrow> (\<forall>c \<in> set (affinity rt). c = last (affinity rt)))"
proof -
  obtain e1 w1 e2 w2 where a: "affinity_attempts os (affinity rt) w = (e1, w1)"
    and p: "policy_attempts (set_fifo_linux os) (scheduler rt) w1 = (e2, w2)"
    by (metis prod.exhaust)
  have "e1 = []" "w2 = w'"
    using assms(2) a p rt_apply_attempts [of os "set_fifo_linux os" rt w]
    by (auto split: list.splits)
  then have "core_mask w' = {last (affinity rt)}"
    using os_threads.affinity_attempts_mask [OF assms(1)] a assms(3)
      os_threads.policy_attempts_mask [OF assms(1), of "scheduler rt" w1] p by simp
  moreover have "last (affinity rt) \<in> set (affinity rt)" using assms(3) by simp
  ultimately show ?thesis by auto
qed

theorem rt_apply_pins_last_core_witness:
  "\<exists>w'. rt_apply sim_os (set_fifo_linux sim_os) \<lparr>scheduler = Normal, affinity = [1, 2]\<rparr>
          \<lparr>sim_mask = {0, 1, 2, 3}, sim_fifo = None, sim_privileged = False\<rparr> = (Inr (), w')
     \<and> sim_mask w' = {2}"
proof -
  have r: "rt_apply sim_os (set_fifo_linux sim_os) \<lparr>scheduler = Normal, affinity = [1, 2]\<rparr>
      \<lparr>sim_mask = {0, 1, 2, 3}, sim_fifo = None, sim_privileged = False\<rparr>
      = (Inr (), \<lparr>sim_mask = {2}, sim_fifo = None, sim_privileged = False\<rparr>)"
    by (simp add: rt_apply_def pin_core_def sim_os_def)
  from rt_apply_pins_last_core [OF sim_threads.os_threads_axioms r] r show ?thesis by simp
qed

end
