(* ===== verification/Driver.thy ===== *)
theory Driver
  imports Rt
begin

text \<open>
  \<open>crates/msrs-transport/src/transport.rs\<close> and \<open>driver.rs\<close>: the transport interface and its inbound
  event type, and the spawning of a transport on its own thread with its two channels. Channel
  creation and \<open>thread::spawn\<close> are operations of outside libraries; \<open>channel_factory\<close> states what
  they promise, and a factory that numbers its channels is the executable instance.
\<close>

section \<open>Transport\<close>

text \<open>
  \<open>Transport::run\<close> consumes the transport and its two channel ends; \<open>None\<close> is a run that does not
  end. The values of the transport itself are the parameter \<open>'tr\<close>.
\<close>

type_synonym ('w, 'tr, 'ro, 'ti) transport_run =
  "'tr \<Rightarrow> 'ro \<Rightarrow> 'ti \<Rightarrow> 'w \<Rightarrow> ((string + unit) exec \<times> 'w) option"

datatype 'a transport_event = Transport_Message 'a | Transport_Error string

definition transport_event_default :: "'a::default transport_event" where
  "transport_event_default = Transport_Message default"

instantiation transport_event :: (default) default
begin

definition default_transport_event :: "'a transport_event" where
  "default_transport_event = transport_event_default"

instance ..

end

section \<open>Driver\<close>

record ('s, 'r, 'j) driver_handles =
  to_transport :: 's
  from_transport :: 'r
  join_handle :: 'j

text \<open>
  The libraries: creating the outbound and the inbound channel (sender and receiver), the latter
  with or without a bound, and starting a thread with a closure.
\<close>

record ('w, 'so, 'ro, 'si, 'ri, 'j) spawn_api =
  unbounded_out :: "'w \<Rightarrow> ('so \<times> 'ro) \<times> 'w"
  unbounded_in :: "'w \<Rightarrow> ('si \<times> 'ri) \<times> 'w"
  bounded_in :: "usize \<Rightarrow> 'w \<Rightarrow> ('si \<times> 'ri) \<times> 'w"
  thread_spawn :: "('w \<Rightarrow> ((string + unit) exec \<times> 'w) option) \<Rightarrow> 'w \<Rightarrow> 'j \<times> 'w"

text \<open>The closure that runs on the driver thread: \<open>rt.apply()\<close>, its result dropped, then \<open>run\<close>.\<close>

definition driver_thread ::
    "('w, 'c, 'p) os_api \<Rightarrow> (u8 \<Rightarrow> 'w \<Rightarrow> (string + unit) \<times> 'w) \<Rightarrow> ('w, 'tr, 'ro, 'ti) transport_run \<Rightarrow>
     'tr \<Rightarrow> rt_config \<Rightarrow> 'ro \<Rightarrow> 'ti \<Rightarrow> 'w \<Rightarrow> ((string + unit) exec \<times> 'w) option" where
  "driver_thread os set_fifo run transport rt rx_out tx_in w =
     (let (_, w) = rt_apply os set_fifo rt w in run transport rx_out tx_in w)"

definition spawn_with ::
    "('w, 'c, 'p) os_api \<Rightarrow> (u8 \<Rightarrow> 'w \<Rightarrow> (string + unit) \<times> 'w) \<Rightarrow>
     ('w, 'so, 'ro, 'si, 'ri, 'j) spawn_api \<Rightarrow> ('w, 'tr, 'ro, 'si) transport_run \<Rightarrow>
     'tr \<Rightarrow> rt_config \<Rightarrow> 'si \<Rightarrow> 'ri \<Rightarrow> 'w \<Rightarrow> ('so, 'ri, 'j) driver_handles \<times> 'w" where
  "spawn_with os set_fifo api run transport rt tx_in from_tr w =
     (let ((to_tr, rx_out), w) = unbounded_out api w;
          (join, w) = thread_spawn api (driver_thread os set_fifo run transport rt rx_out tx_in) w
      in (\<lparr>to_transport = to_tr, from_transport = from_tr, join_handle = join\<rparr>, w))"

definition driver_spawn ::
    "('w, 'c, 'p) os_api \<Rightarrow> (u8 \<Rightarrow> 'w \<Rightarrow> (string + unit) \<times> 'w) \<Rightarrow>
     ('w, 'so, 'ro, 'si, 'ri, 'j) spawn_api \<Rightarrow> ('w, 'tr, 'ro, 'si) transport_run \<Rightarrow>
     'tr \<Rightarrow> rt_config \<Rightarrow> 'w \<Rightarrow> ('so, 'ri, 'j) driver_handles \<times> 'w" where
  "driver_spawn os set_fifo api run transport rt w =
     (let ((tx_in, from_tr), w) = unbounded_in api w
      in spawn_with os set_fifo api run transport rt tx_in from_tr w)"

definition driver_spawn_bounded ::
    "('w, 'c, 'p) os_api \<Rightarrow> (u8 \<Rightarrow> 'w \<Rightarrow> (string + unit) \<times> 'w) \<Rightarrow>
     ('w, 'so, 'ro, 'si, 'ri, 'j) spawn_api \<Rightarrow> ('w, 'tr, 'ro, 'si) transport_run \<Rightarrow>
     'tr \<Rightarrow> rt_config \<Rightarrow> usize \<Rightarrow> 'w \<Rightarrow> ('so, 'ri, 'j) driver_handles \<times> 'w" where
  "driver_spawn_bounded os set_fifo api run transport rt inbound_capacity w =
     (let ((tx_in, from_tr), w) = bounded_in api inbound_capacity w
      in spawn_with os set_fifo api run transport rt tx_in from_tr w)"

section \<open>The contract of channels and threads\<close>

text \<open>
  Every channel has an identity, shared by its two ends and fresh when it is created, and a fixed
  capacity (\<open>None\<close>: unbounded). \<open>body w j\<close> is the closure that the thread with handle \<open>j\<close> runs.
\<close>

locale channel_factory =
  fixes api :: "('w, 'so, 'ro, 'si, 'ri, 'j) spawn_api"
    and so_id :: "'so \<Rightarrow> 'k" and ro_id :: "'ro \<Rightarrow> 'k"
    and si_id :: "'si \<Rightarrow> 'k" and ri_id :: "'ri \<Rightarrow> 'k"
    and known :: "'w \<Rightarrow> 'k set"
    and capacity :: "'w \<Rightarrow> 'k \<Rightarrow> usize option"
    and body :: "'w \<Rightarrow> 'j \<Rightarrow> ('w \<Rightarrow> ((string + unit) exec \<times> 'w) option) option"
  assumes out_unbounded: "unbounded_out api w = ((s, r), w') \<Longrightarrow>
      so_id s = ro_id r \<and> so_id s \<notin> known w \<and> known w' = insert (so_id s) (known w) \<and>
      capacity w' = (capacity w)(so_id s := None)"
    and in_unbounded: "unbounded_in api w = ((t, q), w') \<Longrightarrow>
      si_id t = ri_id q \<and> si_id t \<notin> known w \<and> known w' = insert (si_id t) (known w) \<and>
      capacity w' = (capacity w)(si_id t := None)"
    and in_bounded: "bounded_in api n w = ((t, q), w') \<Longrightarrow>
      si_id t = ri_id q \<and> si_id t \<notin> known w \<and> known w' = insert (si_id t) (known w) \<and>
      capacity w' = (capacity w)(si_id t := Some n)"
    and spawned: "thread_spawn api f w = (j, w') \<Longrightarrow> body w' j = Some f \<and> capacity w' = capacity w"
begin

lemma spawn_with_wires:
  assumes "spawn_with os set_fifo api run transport rt tx_in from_tr w = (h, w')"
    and "si_id tx_in \<in> known w"
  obtains rx_out where
    "body w' (join_handle h) = Some (driver_thread os set_fifo run transport rt rx_out tx_in)"
    "from_transport h = from_tr" "ro_id rx_out = so_id (to_transport h)"
    "so_id (to_transport h) \<noteq> si_id tx_in" "capacity w' (so_id (to_transport h)) = None"
    "capacity w' (si_id tx_in) = capacity w (si_id tx_in)"
proof -
  obtain s r w1 where u: "unbounded_out api w = ((s, r), w1)" by (metis prod.exhaust)
  obtain j w2 where t: "thread_spawn api (driver_thread os set_fifo run transport rt r tx_in) w1
      = (j, w2)" by (metis prod.exhaust)
  have h: "h = \<lparr>to_transport = s, from_transport = from_tr, join_handle = j\<rparr>" "w' = w2"
    using assms(1) u t by (simp_all add: spawn_with_def)
  show thesis
    by (rule that [of r]) (use out_unbounded [OF u] spawned [OF t] assms(2) in \<open>auto simp: h\<close>)
qed

end

text \<open>
  A factory that numbers its channels in the order of their creation; the handle of a thread is its
  closure.
\<close>

record num_world =
  next_id :: nat
  capacities :: "nat \<Rightarrow> usize option"

definition new_channel :: "usize option \<Rightarrow> num_world \<Rightarrow> (nat \<times> nat) \<times> num_world" where
  "new_channel cap w =
     ((next_id w, next_id w),
      \<lparr>next_id = Suc (next_id w), capacities = (capacities w)(next_id w := cap)\<rparr>)"

definition num_api ::
    "(num_world, nat, nat, nat, nat, num_world \<Rightarrow> ((string + unit) exec \<times> num_world) option) spawn_api"
  where
  "num_api =
     \<lparr>unbounded_out = new_channel None, unbounded_in = new_channel None,
      bounded_in = (\<lambda>n. new_channel (Some n)), thread_spawn = (\<lambda>f w. (f, w))\<rparr>"

interpretation num_factory: channel_factory num_api "\<lambda>k. k" "\<lambda>k. k" "\<lambda>k. k" "\<lambda>k. k"
    "\<lambda>w. {..<next_id w}" capacities "\<lambda>w j. Some j"
  by unfold_locales (auto simp: num_api_def new_channel_def)

section \<open>Properties\<close>

text \<open>
  A bounded spawn wires the bridge as documented: the receiver given to the DAG is the other end
  of the sender given to the transport, on a channel of exactly the requested capacity; the sender
  given to the DAG leads, on another channel that is unbounded, to the receiver of the transport;
  and the thread that runs is the transport with the configuration applied first.
\<close>

lemma spawn_bounded_wires:
  assumes "channel_factory api so_id ro_id si_id ri_id known capacity body"
    and "driver_spawn_bounded os set_fifo api run transport rt n w = (h, w')"
  shows "\<exists>rx_out tx_in.
           body w' (join_handle h) = Some (driver_thread os set_fifo run transport rt rx_out tx_in)
         \<and> ri_id (from_transport h) = si_id tx_in \<and> capacity w' (si_id tx_in) = Some n
         \<and> ro_id rx_out = so_id (to_transport h) \<and> capacity w' (so_id (to_transport h)) = None
         \<and> so_id (to_transport h) \<noteq> si_id tx_in"
proof -
  obtain t q w1 where c: "bounded_in api n w = ((t, q), w1)" by (metis prod.exhaust)
  note new = channel_factory.in_bounded [OF assms(1) c]
  have s: "spawn_with os set_fifo api run transport rt t q w1 = (h, w')"
    using assms(2) c by (simp add: driver_spawn_bounded_def)
  have "si_id t \<in> known w1" using new by simp
  then obtain rx_out where
    "body w' (join_handle h) = Some (driver_thread os set_fifo run transport rt rx_out t)"
    "from_transport h = q" "ro_id rx_out = so_id (to_transport h)"
    "so_id (to_transport h) \<noteq> si_id t" "capacity w' (so_id (to_transport h)) = None"
    "capacity w' (si_id t) = capacity w1 (si_id t)"
    by (rule channel_factory.spawn_with_wires [OF assms(1) s])
  with new show ?thesis by (intro exI conjI) auto
qed

definition no_os :: "(num_world, unit, unit) os_api" where
  "no_os =
     \<lparr>get_core_ids = (\<lambda>w. (None, w)), core_no = (\<lambda>_. 0), set_for_current = (\<lambda>_ w. (False, w)),
      priority_try_from = (\<lambda>_. Inr ()), set_fifo_priority = (\<lambda>_ w. (Inl ''EPERM'', w))\<rparr>"

definition idle_run :: "(num_world, unit, nat, nat) transport_run" where
  "idle_run tr rx_out tx_in w = Some (Done (Inr ()), w)"

lemma spawn_bounded_wires_witness:
  "\<exists>h w' rx_out tx_in.
     driver_spawn_bounded no_os (set_fifo_linux no_os) num_api idle_run () rt_config_normal 4
       \<lparr>next_id = 0, capacities = (\<lambda>_. None)\<rparr> = (h, w')
     \<and> join_handle h = driver_thread no_os (set_fifo_linux no_os) idle_run () rt_config_normal rx_out tx_in
     \<and> from_transport h = tx_in \<and> capacities w' tx_in = Some 4"
proof -
  obtain h w' where d: "driver_spawn_bounded no_os (set_fifo_linux no_os) num_api idle_run ()
      rt_config_normal 4 \<lparr>next_id = 0, capacities = (\<lambda>_. None)\<rparr> = (h, w')"
    by (metis prod.exhaust)
  from spawn_bounded_wires [OF num_factory.channel_factory_axioms d] d show ?thesis by auto
qed

text \<open>
  Real-time configuration is best effort: a transport runs also when \<open>apply\<close> fails, with the
  same arguments and in the world that the failed attempts left, and the failure is not reported.
\<close>

lemma driver_thread_best_effort:
  "driver_thread os set_fifo run transport rt rx_out tx_in w =
     run transport rx_out tx_in
       (snd (policy_attempts set_fifo (scheduler rt) (snd (affinity_attempts os (affinity rt) w))))"
  by (simp add: driver_thread_def rt_apply_attempts split_def Let_def)

end
