(* ===== verification/Driver_Tests.thy ===== *)
theory Driver_Tests
  imports Bridge Driver
begin

text \<open>
  The two transports of the tests of \<open>crates/msrs-transport/src/driver.rs\<close> as programs on the bridge:
  \<open>Loopback\<close>, which multiplies what it receives by ten and sends it back, and \<open>Burst\<close>, which pushes
  without waiting into a bounded inbound channel. The tests are generalised: every message comes
  back in order under every schedule and whatever the DAG does with its ends, a bounded channel accepts exactly its
  capacity while the DAG takes nothing, and with the DAG at work its backlog stays within it.
\<close>

section \<open>\<open>Loopback\<close>\<close>


text \<open>\<open>*\<close> on \<open>i32\<close>: with overflow checks it panics when the product leaves the range.\<close>

definition mul_i32 :: "bool \<Rightarrow> i32 \<Rightarrow> i32 \<Rightarrow> i32 exec" where
  "mul_i32 overflow_checks a b =
     (if - (2 ^ 31) \<le> sint a * sint b \<and> sint a * sint b < 2 ^ 31 \<or> \<not> overflow_checks
      then Done (a * b) else Panic ''attempt to multiply with overflow'')"

text \<open>
  At \<open>rx_out.recv()\<close>, at \<open>tx_in.send\<close>, or over, where the result is that of \<open>join\<close>: a panic of the
  thread or what \<open>run\<close> returned.
\<close>

datatype loopback = Loop_Recv | Loop_Send i32 | Loop_End "(string + unit) exec"

definition loopback_advance ::
    "bool \<Rightarrow> unit \<Rightarrow> loopback \<Rightarrow> (i32, i32) bridge \<Rightarrow> loopback \<times> (i32, i32) bridge" where
  "loopback_advance oc c p b =
     (case p of
        Loop_Recv \<Rightarrow>
          (case bridge_recv b of
             Received v b \<Rightarrow>
               (case mul_i32 oc v 10 of
                  Done v \<Rightarrow> (Loop_Send v, b)
                | Panic msg \<Rightarrow> (Loop_End (Panic msg), b))
           | Recv_Empty \<Rightarrow> (Loop_Recv, b)
           | Recv_Closed \<Rightarrow> (Loop_End (Done (Inr ())), b))
      | Loop_Send v \<Rightarrow>
          (case bridge_send v b of
             Sent b \<Rightarrow> (Loop_Recv, b)
           | Send_Full \<Rightarrow> (Loop_Send v, b)
           | Send_Closed \<Rightarrow> (Loop_End (Done (Inl send_error_text)), b))
      | Loop_End r \<Rightarrow> (Loop_End r, b))"

definition loopback_listening :: "loopback \<Rightarrow> bool" where
  "loopback_listening p = (case p of Loop_End r \<Rightarrow> False | _ \<Rightarrow> True)"

definition loopback_program :: "bool \<Rightarrow> (loopback, unit, i32, i32) transport_program" where
  "loopback_program oc = \<lparr>advance = loopback_advance oc, listening = loopback_listening\<rparr>"

section \<open>\<open>Burst\<close>\<close>

text \<open>
  The values still to try and how many fitted so far, then the report over \<open>accepted\<close>, whose
  receiver the test keeps.
\<close>

datatype burst_pc = Burst_Try "i32 list" usize | Burst_Report usize | Burst_End "string + unit"

record burst =
  burst_pc :: burst_pc
  accepted_queue :: "usize list"
  accepted_alive :: bool

definition burst_start :: "i32 \<Rightarrow> burst" where
  "burst_start n =
     \<lparr>burst_pc = Burst_Try (map of_nat [0..<nat (sint n)]) 0, accepted_queue = [],
      accepted_alive = True\<rparr>"

definition burst_advance ::
    "unit \<Rightarrow> burst \<Rightarrow> (i32, i32) bridge \<Rightarrow> burst \<times> (i32, i32) bridge" where
  "burst_advance c p b =
     (case burst_pc p of
        Burst_Try [] ok \<Rightarrow> (p\<lparr>burst_pc := Burst_Report ok\<rparr>, b)
      | Burst_Try (v # vs) ok \<Rightarrow>
          (case bridge_send v b of
             Sent b \<Rightarrow> (p\<lparr>burst_pc := Burst_Try vs (ok + 1)\<rparr>, b)
           | _ \<Rightarrow> (p\<lparr>burst_pc := Burst_Try vs ok\<rparr>, b))
      | Burst_Report ok \<Rightarrow>
          if accepted_alive p
          then (p\<lparr>burst_pc := Burst_End (Inr ()), accepted_queue := accepted_queue p @ [ok]\<rparr>, b)
          else (p\<lparr>burst_pc := Burst_End (Inl send_error_text)\<rparr>, b)
      | Burst_End r \<Rightarrow> (p, b))"

definition burst_program :: "(burst, unit, i32, i32) transport_program" where
  "burst_program =
     \<lparr>advance = burst_advance,
      listening = (\<lambda>p. case burst_pc p of Burst_End r \<Rightarrow> False | _ \<Rightarrow> True)\<rparr>"

section \<open>The tests\<close>

text \<open>
  \<open>loopback_round_trips\<close>: send 5, receive what comes back (\<open>recv\<close> waits, here for the given turns),
  drop the sender and join. The value received and the result of \<open>join\<close>.
\<close>

definition loopback_round_trips :: "nat \<Rightarrow> nat \<Rightarrow> i32 list \<times> loopback" where
  "loopback_round_trips turns join_turns =
     (let b = (new_bridge None)\<lparr>out_queue := [5]\<rparr>;
          (p, b) = run_thread (loopback_program True) (replicate turns ()) Loop_Recv b;
          received = in_queue b;
          b = b\<lparr>in_queue := [], out_alive := False\<rparr>;
          (p, b) = run_thread (loopback_program True) (replicate join_turns ()) p b
      in (received, p))"

definition bounded_inbound_caps_backlog :: "nat \<Rightarrow> burst \<times> nat" where
  "bounded_inbound_caps_backlog turns =
     (let (p, b) = run_thread burst_program (replicate turns ()) (burst_start 10) (new_bridge (Some 4))
      in (p, length (in_queue b)))"

lemma loopback_test: "loopback_round_trips 2 1 = ([50], Loop_End (Done (Inr ())))"
  by code_simp

lemma bounded_test:
  "bounded_inbound_caps_backlog 12 =
     (\<lparr>burst_pc = Burst_End (Inr ()), accepted_queue = [4], accepted_alive = True\<rparr>, 4)"
  by code_simp

section \<open>\<open>Loopback\<close> in general\<close>

text \<open>
  What is being sent back, and the invariant: nothing is lost, reordered or made up. A transport that
  returned \<open>Ok\<close> has answered everything and its sender is gone; one that failed or panicked owes the
  answer to the last message it received.
\<close>

definition loopback_hand :: "loopback \<Rightarrow> i32 list" where
  "loopback_hand p = (case p of Loop_Send v \<Rightarrow> [v] | _ \<Rightarrow> [])"

definition loopback_inv :: "bool \<Rightarrow> loopback \<Rightarrow> (i32, i32) bridge \<Rightarrow> bool" where
  "loopback_inv oc p b \<longleftrightarrow>
     (case p of
        Loop_End (Done (Inr u)) \<Rightarrow>
          in_taken b @ in_queue b = map (\<lambda>v. v * 10) (out_got b) \<and> out_queue b = [] \<and> \<not> out_alive b
      | Loop_End r \<Rightarrow>
          out_got b \<noteq> [] \<and> in_taken b @ in_queue b = map (\<lambda>v. v * 10) (butlast (out_got b))
          \<and> (case r of Panic msg \<Rightarrow> oc | Done e \<Rightarrow> \<not> in_alive b)
      | _ \<Rightarrow> in_taken b @ in_queue b @ loopback_hand p = map (\<lambda>v. v * 10) (out_got b))"

lemma mul_i32_Done: "mul_i32 oc a b = Done c \<Longrightarrow> c = a * b"
  by (auto simp: mul_i32_def split: if_splits)

lemma mul_i32_Panic: "mul_i32 oc a b = Panic msg \<Longrightarrow> oc"
  by (auto simp: mul_i32_def split: if_splits)

lemma loopback_inv_step:
  assumes "loopback_advance oc c p b = (p', b')" and "loopback_inv oc p b"
  shows "loopback_inv oc p' b'"
proof (cases p)
  case Loop_Recv
  with assms show ?thesis
    by (auto simp: loopback_advance_def loopback_inv_def loopback_hand_def bridge_recv_def
        dest: mul_i32_Done mul_i32_Panic split: list.splits exec.splits if_splits)
next
  case (Loop_Send v)
  then have inv: "in_taken b @ in_queue b @ [v] = map (\<lambda>v. v * 10) (out_got b)"
    using assms(2) by (simp add: loopback_inv_def loopback_hand_def)
  then have "out_got b \<noteq> []" by auto
  moreover have "in_taken b @ in_queue b = map (\<lambda>v. v * 10) (butlast (out_got b))"
    using arg_cong [OF inv, of butlast] by (simp add: map_butlast flip: append_assoc)
  ultimately show ?thesis
    using Loop_Send assms(1) inv
    by (auto simp: loopback_advance_def loopback_inv_def loopback_hand_def bridge_send_def
        split: option.splits if_splits)
next
  case (Loop_End r)
  with assms show ?thesis by (simp add: loopback_advance_def)
qed

interpretation loopback: dropping_invariant "loopback_program oc" "loopback_inv oc"
proof unfold_locales
  fix c p b p' b'
  assume a: "advance (loopback_program oc) c p b = (p', b')"
  then show "transport_move b b'"
    by (auto simp: loopback_program_def loopback_advance_def
        split: loopback.splits sending.splits receiving.splits exec.splits)
  assume "loopback_inv oc p b"
  with a show "loopback_inv oc p' b'"
    by (auto simp: loopback_program_def intro: loopback_inv_step)
qed (auto simp: loopback_inv_def loopback_program_def loopback_listening_def
    split: loopback.splits exec.splits sum.splits)

lemma loopback_inv_prefix:
  assumes "loopback_inv oc p b"
  shows "prefix (in_taken b @ in_queue b) (map (\<lambda>v. v * 10) (out_got b))"
proof -
  have "prefix (butlast (out_got b)) (out_got b)" by (rule prefixeq_butlast)
  then have "prefix (map (\<lambda>v. v * 10) (butlast (out_got b))) (map (\<lambda>v. v * 10) (out_got b))"
    by (rule map_mono_prefix)
  moreover have "prefix (in_taken b @ in_queue b) (map (\<lambda>v. v * 10) (out_got b))"
    if "in_taken b @ in_queue b @ loopback_hand p = map (\<lambda>v. v * 10) (out_got b)"
    using that by (intro prefixI [of _ _ "loopback_hand p"]) simp
  ultimately show ?thesis
    using assms by (auto simp: loopback_inv_def split: loopback.splits exec.splits sum.splits)
qed

section \<open>\<open>Burst\<close> in general\<close>

lemma burst_step:
  "burst_advance () p b =
     (case burst_pc p of
        Burst_Try (v # vs) ok \<Rightarrow>
          if in_alive b \<and> (case in_capacity b of None \<Rightarrow> True | Some n \<Rightarrow> length (in_queue b) < n)
          then (p\<lparr>burst_pc := Burst_Try vs (ok + 1)\<rparr>, b\<lparr>in_queue := in_queue b @ [v]\<rparr>)
          else (p\<lparr>burst_pc := Burst_Try vs ok\<rparr>, b)
      | _ \<Rightarrow> burst_advance () p b)"
  by (auto simp: burst_advance_def bridge_send_def not_le split: burst_pc.splits list.splits option.splits)

lemma burst_run:
  "in_alive b \<Longrightarrow> in_capacity b = Some cap \<Longrightarrow> burst_pc p = Burst_Try vs ok \<Longrightarrow>
   run_thread burst_program (replicate (length vs) ()) p b =
     (let k = min (length vs) (cap - length (in_queue b)) in
      (p\<lparr>burst_pc := Burst_Try [] (ok + of_nat k)\<rparr>, b\<lparr>in_queue := in_queue b @ take k vs\<rparr>))"
proof (induction vs arbitrary: p b ok)
  case (Cons v vs)
  show ?case
  proof (cases "length (in_queue b) < cap")
    case True
    have s: "advance burst_program () p b
        = (p\<lparr>burst_pc := Burst_Try vs (ok + 1)\<rparr>, b\<lparr>in_queue := in_queue b @ [v]\<rparr>)"
      using Cons.prems True by (simp add: burst_program_def burst_step)
    from True obtain d where "cap = Suc (length (in_queue b) + d)"
      using less_iff_Suc_add by auto
    then show ?thesis
      using Cons.IH [of "b\<lparr>in_queue := in_queue b @ [v]\<rparr>" "p\<lparr>burst_pc := Burst_Try vs (ok + 1)\<rparr>" "ok + 1"]
        Cons.prems
      by (simp add: s Let_def algebra_simps)
  next
    case False
    have "advance burst_program () p b = (p\<lparr>burst_pc := Burst_Try vs ok\<rparr>, b)"
      using Cons.prems False by (simp add: burst_program_def burst_step)
    then show ?thesis
      using Cons.IH [of b "p\<lparr>burst_pc := Burst_Try vs ok\<rparr>" ok] Cons.prems False
      by (simp add: Let_def)
  qed
qed (simp add: Let_def)

text \<open>
  The invariant while the DAG takes messages at the same time; \<open>vs\<close> is what the transport has not
  tried yet. While the DAG keeps its receiver, either nothing was refused so far, or the first \<open>cap\<close>
  messages did get in.
\<close>

definition burst_sent :: "nat \<Rightarrow> i32 list \<Rightarrow> i32 list \<Rightarrow> (i32, i32) bridge \<Rightarrow> bool" where
  "burst_sent cap msgs vs b \<longleftrightarrow>
     in_capacity b = Some cap \<and> length (in_queue b) \<le> cap
   \<and> subseq (in_taken b @ in_queue b @ vs) msgs
   \<and> (in_alive b \<longrightarrow>
        in_taken b @ in_queue b @ vs = msgs \<or> prefix (take cap msgs) (in_taken b @ in_queue b))"

definition accepted_count :: "(i32, i32) bridge \<Rightarrow> usize" where
  "accepted_count b = of_nat (length (in_taken b @ in_queue b))"

definition burst_inv :: "nat \<Rightarrow> i32 list \<Rightarrow> burst \<Rightarrow> (i32, i32) bridge \<Rightarrow> bool" where
  "burst_inv cap msgs p b \<longleftrightarrow>
     (case burst_pc p of
        Burst_Try vs ok \<Rightarrow> burst_sent cap msgs vs b \<and> ok = accepted_count b \<and> accepted_queue p = []
      | Burst_Report ok \<Rightarrow> burst_sent cap msgs [] b \<and> ok = accepted_count b \<and> accepted_queue p = []
      | Burst_End r \<Rightarrow> burst_sent cap msgs [] b \<and> set (accepted_queue p) \<subseteq> {accepted_count b})"

lemma subseq_skip: "subseq (xs @ v # vs) ws \<Longrightarrow> subseq (xs @ vs) ws"
proof -
  have "subseq (xs @ vs) (xs @ v # vs)" by (rule list_emb_append_mono) auto
  then show "subseq (xs @ v # vs) ws \<Longrightarrow> subseq (xs @ vs) ws" by (rule subseq_order.trans)
qed

lemma burst_sent_refused:
  assumes "burst_sent cap msgs (v # vs) b" and "\<forall>b'. bridge_send v b \<noteq> Sent b'"
  shows "burst_sent cap msgs vs b"
proof -
  have full: "length (in_queue b) = cap" if "in_alive b"
    using assms that by (auto simp: burst_sent_def bridge_send_def split: if_splits)
  have "prefix (take cap msgs) (in_taken b @ in_queue b)"
    if eq: "in_taken b @ in_queue b @ v # vs = msgs" and "in_alive b"
  proof -
    have "take cap msgs = take cap (in_taken b @ in_queue b)"
      using full [OF that(2)] by (simp flip: eq)
    then show ?thesis by (metis take_is_prefix)
  qed
  with assms(1) show ?thesis
    using subseq_skip [of "in_taken b @ in_queue b" v vs msgs] by (auto simp: burst_sent_def)
qed

lemma burst_sent_accepted:
  assumes "burst_sent cap msgs (v # vs) b" and "bridge_send v b = Sent b'"
  shows "burst_sent cap msgs vs b'" "accepted_count b' = accepted_count b + 1"
proof -
  have b': "b' = b\<lparr>in_queue := in_queue b @ [v]\<rparr>" and room: "length (in_queue b) < cap"
    using assms by (auto simp: burst_sent_def bridge_send_def split: if_splits)
  show "burst_sent cap msgs vs b'"
    using assms(1) room by (auto simp: burst_sent_def b' intro: prefix_order.trans)
  show "accepted_count b' = accepted_count b + 1" by (simp add: accepted_count_def b')
qed

lemma burst_sent_arrived: "burst_sent cap msgs vs b \<Longrightarrow> subseq (in_taken b @ in_queue b) msgs"
proof -
  assume "burst_sent cap msgs vs b"
  then have "subseq ((in_taken b @ in_queue b) @ vs) msgs" by (simp add: burst_sent_def)
  moreover have "subseq (in_taken b @ in_queue b) ((in_taken b @ in_queue b) @ vs)"
    by (rule prefix_imp_subseq) (rule prefixI [OF refl])
  ultimately show ?thesis by (blast intro: subseq_order.trans)
qed

lemma burst_inv_advance:
  assumes "burst_inv cap msgs p b" and "burst_advance c p b = (p', b')"
  shows "burst_inv cap msgs p' b'"
proof (cases "burst_pc p")
  case (Burst_Try vs ok)
  show ?thesis
  proof (cases vs)
    case (Cons v rest)
    have sent: "burst_sent cap msgs (v # rest) b" "ok = accepted_count b" "accepted_queue p = []"
      using assms(1) by (simp_all add: burst_inv_def Burst_Try Cons)
    show ?thesis
    proof (cases "bridge_send v b")
      case (Sent b1)
      with assms(2) burst_sent_accepted [OF sent(1) Sent] sent(2,3) show ?thesis
        by (auto simp: burst_advance_def burst_inv_def Burst_Try Cons)
    qed (use assms(2) burst_sent_refused [OF sent(1)] sent(2,3) in
        \<open>auto simp: burst_advance_def burst_inv_def Burst_Try Cons\<close>)
  qed (use assms in \<open>auto simp: burst_advance_def burst_inv_def Burst_Try\<close>)
qed (use assms in \<open>auto simp: burst_advance_def burst_inv_def split: if_splits\<close>)

interpretation burst: dropping_invariant burst_program "burst_inv cap msgs"
proof unfold_locales
  fix c p b p' b'
  assume a: "advance burst_program c p b = (p', b')"
  then show "transport_move b b'"
    by (auto simp: burst_program_def burst_advance_def
        split: burst_pc.splits list.splits sending.splits if_splits)
  assume "burst_inv cap msgs p b"
  with a show "burst_inv cap msgs p' b'"
    by (auto simp: burst_program_def intro: burst_inv_advance)
qed (auto simp: burst_inv_def burst_sent_def accepted_count_def split: burst_pc.splits)

section \<open>Properties\<close>

text \<open>
  C31. The loopback transport over the whole bridge, for every schedule and whatever the DAG side does
  with its ends, the drop of either included: while the transport runs, what came back to the DAG,
  is on its way there or is about to be sent is exactly ten times what the transport received, in
  order. If it returned \<open>Ok\<close>, it has answered all the DAG sent and the DAG dropped its sender; if it
  panicked or failed, exactly the answer to the last message it received is missing, and that only
  when overflow is checked or the DAG dropped its receiver. In every case the DAG only receives a
  first part of ten times what it sent.
\<close>

theorem loopback_in_order:
  assumes "dag_reach (loopback_program oc)
      \<lparr>thread = Loop_Recv, chan = new_bridge cap, schedule = turns, readings = reads, clock_count = 0\<rparr> w"
  shows "(case thread w of
            Loop_End (Done (Inr u)) \<Rightarrow>
              bridged_arrived w = map (\<lambda>v. v * 10) (bridged_sent w) \<and> \<not> out_alive (chan w)
          | Loop_End r \<Rightarrow>
              out_got (chan w) \<noteq> []
              \<and> bridged_arrived w = map (\<lambda>v. v * 10) (butlast (out_got (chan w)))
              \<and> (case r of Panic msg \<Rightarrow> oc | Done e \<Rightarrow> \<not> in_alive (chan w))
          | p \<Rightarrow> bridged_arrived w @ loopback_hand p = map (\<lambda>v. v * 10) (out_got (chan w)))
       \<and> prefix (bridged_taken w) (map (\<lambda>v. v * 10) (bridged_sent w))"
proof -
  have inv: "loopback_inv oc (thread w) (chan w)"
    by (rule loopback.dag_reach_J [OF assms])
      (simp add: loopback_inv_def new_bridge_def loopback_hand_def)
  have "prefix (in_taken (chan w)) (map (\<lambda>v. v * 10) (out_got (chan w)))"
    using loopback_inv_prefix [OF inv] by (rule append_prefixD)
  with inv show ?thesis
    by (auto simp: loopback_inv_def bridged_arrived_def bridged_taken_def bridged_sent_def
        prefix_prefix split: loopback.splits exec.splits sum.splits)
qed

text \<open>
  A run for the witness: send 5, poll until it is back, drop the sender, and let the transport
  notice.
\<close>

definition loopback_world :: "(loopback, unit, i32, i32) bridged" where
  "loopback_world =
     \<lparr>thread = Loop_Recv, chan = new_bridge None, schedule = [[], [(), ()], [()]],
      readings = (\<lambda>_. 0), clock_count = 0\<rparr>"

definition loopback_sent :: "(loopback, unit, i32, i32) bridged" where
  "loopback_sent = snd (bridged_send (loopback_program True) () 5 loopback_world)"

definition loopback_polled :: "(unit + i32) \<times> (loopback, unit, i32, i32) bridged" where
  "loopback_polled = bridged_try_recv (loopback_program True) () loopback_sent"

definition loopback_over :: "(loopback, unit, i32, i32) bridged" where
  "loopback_over = thread_turn (loopback_program True) (drop_sender (snd loopback_polled))"

lemma loopback_sent_reach: "dag_reach (loopback_program True) loopback_world loopback_sent"
proof (rule dag_send [OF dag_start])
  show "out_alive (chan loopback_world)" by (simp add: loopback_world_def new_bridge_def)
  show "bridged_send (loopback_program True) () 5 loopback_world
      = (fst (bridged_send (loopback_program True) () 5 loopback_world), loopback_sent)"
    by (simp add: loopback_sent_def)
qed

lemma loopback_polled_reach:
  "dag_reach (loopback_program True) loopback_world (snd loopback_polled)"
proof (rule dag_recv [OF loopback_sent_reach])
  show "in_alive (chan loopback_sent)" by code_simp
  show "bridged_try_recv (loopback_program True) () loopback_sent
      = (fst loopback_polled, snd loopback_polled)" by (simp add: loopback_polled_def)
qed

lemma loopback_over_reach: "dag_reach (loopback_program True) loopback_world loopback_over"
  unfolding loopback_over_def by (rule dag_turn [OF dag_drop_sender [OF loopback_polled_reach]])

lemma loopback_over_result:
  "thread loopback_over = Loop_End (Done (Inr ())) \<and> fst loopback_polled = Inr 50
   \<and> bridged_sent loopback_over = [5]"
  by code_simp

theorem loopback_in_order_witness:
  "bridged_arrived loopback_over = [50] \<and> \<not> out_alive (chan loopback_over)"
  using loopback_in_order [OF loopback_over_reach [unfolded loopback_world_def]]
    loopback_over_result by simp

text \<open>
  A bounded inbound channel caps the backlog: pushed with \<open>try_send\<close> while the DAG takes nothing,
  it accepts exactly the first messages that fit its capacity, the transport counts them right, and
  \<open>run\<close> returns \<open>Ok\<close>.
\<close>

lemma burst_accepts_capacity:
  assumes "n = nat (sint count)"
  shows "run_thread burst_program (replicate (n + 2) ()) (burst_start count) (new_bridge (Some cap)) =
     (\<lparr>burst_pc = Burst_End (Inr ()), accepted_queue = [of_nat (min n cap)], accepted_alive = True\<rparr>,
      (new_bridge (Some cap))\<lparr>in_queue := map of_nat [0..<min n cap]\<rparr>)"
proof -
  let ?vs = "map of_nat [0..<n] :: i32 list"
  have "run_thread burst_program (replicate (length ?vs) ()) (burst_start count) (new_bridge (Some cap))
      = ((burst_start count)\<lparr>burst_pc := Burst_Try [] (of_nat (min n cap))\<rparr>,
         (new_bridge (Some cap))\<lparr>in_queue := take (min n cap) ?vs\<rparr>)"
    using burst_run [of "new_bridge (Some cap)" cap "burst_start count" ?vs 0]
    by (simp add: burst_start_def new_bridge_def assms Let_def)
  moreover have "replicate (n + 2) () = replicate (length ?vs) () @ [(), ()]"
    by (simp add: replicate_append_same [symmetric])
  ultimately show ?thesis
    by (simp add: run_thread_append burst_program_def burst_advance_def burst_start_def take_map)
qed

lemma burst_accepts_capacity_witness:
  "accepted_queue (fst (run_thread burst_program (replicate 12 ()) (burst_start 10) (new_bridge (Some 4))))
     = [4]"
  using burst_accepts_capacity [of 10 10 4] by simp

text \<open>
  C32. The same with the DAG at work, under every schedule and whatever the DAG side does with its ends,
  the drop of either included: the backlog never exceeds the capacity of the channel; what gets in
  is a part of the messages in order; once the transport has tried them all, and unless the DAG
  dropped its receiver, at least the first messages up to the capacity got in; and the count it
  reports is the number of messages that got in.
\<close>

theorem bounded_backlog:
  assumes "dag_reach burst_program
      \<lparr>thread = burst_start count, chan = new_bridge (Some cap), schedule = turns, readings = reads,
       clock_count = 0\<rparr> w"
    and "msgs = map of_nat [0..<nat (sint count)]"
  shows "length (in_queue (chan w)) \<le> cap
       \<and> subseq (bridged_arrived w) msgs
       \<and> (case burst_pc (thread w) of Burst_Try vs ok \<Rightarrow> True
          | _ \<Rightarrow> in_alive (chan w) \<longrightarrow> prefix (take cap msgs) (bridged_arrived w))
       \<and> set (accepted_queue (thread w)) \<subseteq> {of_nat (length (bridged_arrived w))}"
proof -
  have "burst_inv cap msgs (thread w) (chan w)"
    by (rule burst.dag_reach_J [OF assms(1)])
      (simp add: burst_inv_def burst_sent_def burst_start_def new_bridge_def accepted_count_def assms(2))
  then obtain vs where sent: "burst_sent cap msgs vs (chan w)"
    and pc: "\<forall>ok. burst_pc (thread w) \<noteq> Burst_Try vs ok \<Longrightarrow> vs = []"
    and count: "set (accepted_queue (thread w)) \<subseteq> {accepted_count (chan w)}"
    by (cases "burst_pc (thread w)") (auto simp: burst_inv_def)
  have "prefix (take cap msgs) (in_taken (chan w) @ in_queue (chan w))"
    if "vs = []" "in_alive (chan w)"
    using sent take_is_prefix [of cap msgs] by (auto simp: burst_sent_def that)
  with sent pc count burst_sent_arrived [OF sent] show ?thesis
    by (auto simp: burst_sent_def accepted_count_def bridged_arrived_def split: burst_pc.splits)
qed

definition burst_world :: "(burst, unit, i32, i32) bridged" where
  "burst_world =
     \<lparr>thread = burst_start 6, chan = new_bridge (Some 2), schedule = [[(), (), ()], [(), (), (), (), ()]],
      readings = (\<lambda>_. 0), clock_count = 0\<rparr>"

definition burst_first :: "(burst, unit, i32, i32) bridged" where
  "burst_first = snd (bridged_try_recv burst_program () burst_world)"

definition burst_polled :: "(burst, unit, i32, i32) bridged" where
  "burst_polled = snd (bridged_try_recv burst_program () burst_first)"

lemma burst_first_reach: "dag_reach burst_program burst_world burst_first"
proof (rule dag_recv [OF dag_start])
  show "in_alive (chan burst_world)" by (simp add: burst_world_def new_bridge_def)
  show "bridged_try_recv burst_program () burst_world
      = (fst (bridged_try_recv burst_program () burst_world), burst_first)"
    by (simp add: burst_first_def)
qed

lemma burst_polled_reach: "dag_reach burst_program burst_world burst_polled"
proof (rule dag_recv [OF burst_first_reach])
  show "in_alive (chan burst_first)" by code_simp
  show "bridged_try_recv burst_program () burst_first
      = (fst (bridged_try_recv burst_program () burst_first), burst_polled)"
    by (simp add: burst_polled_def)
qed

lemma burst_polled_result:
  "bridged_arrived burst_polled = [0, 1, 3] \<and> accepted_queue (thread burst_polled) = [3]
   \<and> in_alive (chan burst_polled)"
  by code_simp

theorem bounded_backlog_witness:
  "prefix (take 2 [0, 1, 2, 3, 4, 5]) (bridged_arrived burst_polled)
   \<and> length (in_queue (chan burst_polled)) \<le> 2
   \<and> accepted_queue (thread burst_polled) = [3]"
  using bounded_backlog [OF burst_polled_reach [unfolded burst_world_def] refl] burst_polled_result
  by (simp split: burst_pc.splits)

end
