(* ===== verification/Unit_Tests.thy ===== *)
theory Unit_Tests
  imports Watchdog_Service Echo_Service Spike Driver
begin

text \<open>
  The unit tests of the repository, run on the model. Each test function is a definition of the same
  name that performs the test's calls on the modelled operations and returns whether all of its
  assertions hold (for a test with \<open>should_panic\<close>: whether it panics with the expected text); the
  lemmas evaluate them. Tests are built with overflow checks. The tests of \<open>driver.rs\<close> are in
  \<open>Driver_Tests\<close>. Of a test that only asserts that a call returns, the definition gives the result.
\<close>

section \<open>Assertions\<close>

text \<open>\<open>should_panic(expected = s)\<close> asks that the panic message contains \<open>s\<close>.\<close>

definition contains_text :: "string \<Rightarrow> string \<Rightarrow> bool" where
  "contains_text s msg = list_ex (\<lambda>n. take (length s) (drop n msg) = s) [0..<Suc (length msg)]"

definition should_panic :: "string \<Rightarrow> 'a exec \<Rightarrow> bool" where
  "should_panic expected x = (case x of Done a \<Rightarrow> False | Panic msg \<Rightarrow> contains_text expected msg)"

text \<open>A test body whose calls must not panic.\<close>

definition passes :: "bool exec \<Rightarrow> bool" where
  "passes x = (case x of Done b \<Rightarrow> b | Panic msg \<Rightarrow> False)"

section \<open>\<open>trigger.rs\<close>, \<open>effects.rs\<close>, \<open>store.rs\<close> and \<open>transport.rs\<close>\<close>

definition tick_has_no_message :: bool where
  "tick_has_no_message =
     (let t = Tick 42 :: u32 trigger in is_tick t \<and> message t = None)"

definition message_exposes_payload :: bool where
  "message_exposes_payload =
     (let payload = 7 :: u32; t = Message payload in \<not> is_tick t \<and> message t = Some 7)"

definition emit_then_take_preserves_order :: bool where
  "emit_then_take_preserves_order =
     (let e0 = effects_default :: u32 effects; e = emit 2 (emit 1 e0); (vs, e') = effects_take e
      in effects_is_empty e0 \<and> \<not> effects_is_empty e \<and> vs = [1, 2] \<and> effects_is_empty e')"

definition take_one_returns_first_and_clears :: bool where
  "take_one_returns_first_and_clears =
     (let (r0, e) = take_one (effects_default :: string effects);
          (r1, e) = take_one (emit ''a'' e)
      in r0 = Inr None \<and> r1 = Inr (Some ''a'') \<and> effects_is_empty e)"

definition take_one_reports_extra_emits_instead_of_dropping :: bool where
  "take_one_reports_extra_emits_instead_of_dropping =
     (let (r, e) = take_one (emit ''b'' (emit ''a'' effects_default))
      in r = Inl (Extra_Emits 2) \<and> effects_is_empty e)"

text \<open>The counter of the test in \<open>store.rs\<close>; \<open>+\<close> on \<open>i64\<close> panics outside its range.\<close>

record store_counter =
  store_count :: "64 word"

definition store_counter_default :: store_counter where
  "store_counter_default = \<lparr>store_count = 0\<rparr>"

definition store_counter_next :: "store_counter \<Rightarrow> 64 word \<Rightarrow> 64 word exec" where
  "store_counter_next c amount =
     (let n = sint (store_count c) + sint amount in
      if - (2 ^ 63) \<le> n \<and> n < 2 ^ 63 then Done (store_count c + amount)
      else Panic ''attempt to add with overflow'')"

definition store_counter_apply :: "64 word \<Rightarrow> store_counter \<Rightarrow> store_counter" where
  "store_counter_apply new_value c = c\<lparr>store_count := new_value\<rparr>"

definition store_logic_is_pure_and_testable :: bool where
  "store_logic_is_pure_and_testable =
     passes (let c = store_counter_default in
       exec_bind (store_counter_next c 5) (\<lambda>n.
       exec_bind (store_counter_next (store_counter_apply n c) 0) (\<lambda>n'.
       Done (n = 5 \<and> n' = 5))))"

definition transport_event_is_a_copper_payload :: bool where
  "transport_event_is_a_copper_payload =
     ((transport_event_default :: u32 transport_event) = Transport_Message 0)"

section \<open>\<open>fsm_task.rs\<close>\<close>

record test_echo =
  seen :: u32

definition test_echo_default :: test_echo where
  "test_echo_default = \<lparr>seen = 0\<rparr>"

definition test_echo_step :: "(test_echo, string, string) fsm_step" where
  "test_echo_step m trigger effects =
     (case message trigger of
        None \<Rightarrow> Done (m, effects)
      | Some msg \<Rightarrow>
          exec_bind (add_word True (seen m) 1) (\<lambda>n.
            let m = m\<lparr>seen := n\<rparr> in
            Done (m, emit (''echo '' @ show_word (seen m) @ '': '' @ msg) effects)))"

definition message_produces_echo :: bool where
  "message_produces_echo =
     passes (exec_bind (run_step test_echo_step test_echo_default (Message ''hi''))
       (\<lambda>(out, m). Done (out = Some ''echo 1: hi'')))"

definition tick_produces_nothing :: bool where
  "tick_produces_nothing =
     passes (exec_bind (run_step test_echo_step test_echo_default (Tick 123))
       (\<lambda>(out, m). Done (out = None)))"

definition run_step_panics_on_double_emit :: bool where
  "run_step_panics_on_double_emit =
     should_panic ''emitted 2 outputs'' (run_step (double_emitter_step True) () (Message 1))"

definition run_step_all_returns_every_emit :: bool where
  "run_step_all_returns_every_emit =
     passes (exec_bind (run_step_all (double_emitter_step True) () (Message 1)) (\<lambda>(outs, m).
       exec_bind (run_step_all (double_emitter_step True) m (Tick 0)) (\<lambda>(outs', m).
         Done (outs = [1, 2] \<and> outs' = []))))"

text \<open>\<open>task_ctx\<close>: a mock clock set to 999.\<close>

definition task_ctx :: u64 where
  "task_ctx = 999"

definition fsm_task_ticks_at_recorded_input_tov_not_clock :: bool where
  "fsm_task_ticks_at_recorded_input_tov_not_clock =
     passes (exec_bind
       (fsm_task_process mock_clock slot_api slot_api tick_probe_step \<lparr>machine = tick_probe_default\<rparr>
          (set_tov slot_api (Tov_Time 42) fresh_slot) (fresh_slot :: (u32, u64, u64 \<times> u64) slot)
          task_ctx)
       (\<lambda>(res, task, output, w). Done (res = Inr () \<and> last_tick (machine task) = Some 42)))"

definition fsm_task_errors_on_double_emit :: bool where
  "fsm_task_errors_on_double_emit =
     passes (exec_bind
       (fsm_task_process mock_clock slot_api slot_api (double_emitter_step True) \<lparr>machine = ()\<rparr>
          (set_payload slot_api 1 fresh_slot) fresh_slot task_ctx)
       (\<lambda>(res, task, output, w). Done (result_ok res = None \<and> payload slot_api output = None)))"

definition fsm_batch_task_forwards_every_emit :: bool where
  "fsm_batch_task_forwards_every_emit =
     passes (exec_bind
       (fsm_batch_task_process mock_clock slot_api slot_api (double_emitter_step True)
          \<lparr>batch_machine = ()\<rparr> (set_payload slot_api 5 fresh_slot) fresh_slot task_ctx)
       (\<lambda>(res, task, output, w). exec_bind
         (fsm_batch_task_process mock_clock slot_api slot_api (double_emitter_step True) task
            fresh_slot output w)
         (\<lambda>(res', task, output', w).
           Done (res = Inr () \<and> payload slot_api output = Some (Batch [5, 6])
               \<and> res' = Inr () \<and> payload slot_api output' = None))))"

section \<open>\<open>replay.rs\<close> and \<open>rt.rs\<close>\<close>

text \<open>An \<open>f64\<close> is its bits, which is also how it is encoded.\<close>

definition f64_one :: u64 where "f64_one = 0x3FF0000000000000"
definition f64_two :: u64 where "f64_two = 0x4000000000000000"
definition f64_three :: u64 where "f64_three = 0x4008000000000000"
definition f64_nan :: u64 where "f64_nan = 0x7FF8000000000000"
definition f64_zero :: u64 where "f64_zero = 0"

definition rec :: "u64 list \<Rightarrow> u64 list \<Rightarrow> (u64, u64) recorded list" where
  "rec ids outputs =
     map (\<lambda>(id, output). \<lparr>rec_id = id, rec_input = id, rec_output = output\<rparr>) (zip ids outputs)"

definition test_gate :: "(u64, u64) recorded list \<Rightarrow> (u64 \<Rightarrow> u64) \<Rightarrow> gate_report exec" where
  "test_gate r step =
     replay_gate True (\<lambda>bits. Inr [bits] :: unit + u64 list) (\<lambda>_. '''') (\<lambda>_. '''') r
       (\<lambda>i s. Done (step i, s)) ()"

definition passes_identical_outputs_including_nan :: bool where
  "passes_identical_outputs_including_nan =
     passes (exec_bind
       (test_gate (rec [0, 1, 2] [f64_one, f64_nan, f64_three])
         (\<lambda>i. [f64_one, f64_nan, f64_three] ! unat i))
       (\<lambda>out. Done (passed out)))"

definition reports_first_divergence_and_keeps_counting :: bool where
  "reports_first_divergence_and_keeps_counting =
     passes (exec_bind
       (test_gate (rec [5, 6, 7] [f64_one, f64_two, f64_three])
         (\<lambda>i. if i = 6 \<or> i = 7 then f64_zero else f64_one))
       (\<lambda>out. Done (divergent out = 2
          \<and> (case first_divergence out of
               None \<Rightarrow> False
             | Some d \<Rightarrow> take (length ''copperlist 6:'') d = ''copperlist 6:''))))"

definition detects_id_gaps :: bool where
  "detects_id_gaps =
     passes (exec_bind (test_gate (rec [0, 1, 3] (replicate 3 f64_zero)) (\<lambda>_. f64_zero))
       (\<lambda>out. Done (id_gap_list out = [(1, 3)] \<and> \<not> passed out)))"

definition empty_recording_does_not_pass :: bool where
  "empty_recording_does_not_pass =
     passes (exec_bind (test_gate [] (\<lambda>_. f64_zero)) (\<lambda>out. Done (\<not> passed out)))"

definition normal_applies_cleanly ::
    "('w, 'c, 'p) os_api \<Rightarrow> (u8 \<Rightarrow> 'w \<Rightarrow> (string + unit) \<times> 'w) \<Rightarrow> 'w \<Rightarrow> bool" where
  "normal_applies_cleanly os set_fifo w = (fst (rt_apply os set_fifo rt_config_normal w) = Inr ())"

text \<open>The result that the test ignores, and the world after it.\<close>

definition pinning_to_available_core_does_not_panic ::
    "('w, 'c, 'p) os_api \<Rightarrow> (u8 \<Rightarrow> 'w \<Rightarrow> (string + unit) \<times> 'w) \<Rightarrow> 'w \<Rightarrow> (string + unit) option \<times> 'w"
  where
  "pinning_to_available_core_does_not_panic os set_fifo w =
     (case get_core_ids os w of
        (Some (first # ids), w) \<Rightarrow>
          let cfg = \<lparr>scheduler = Normal, affinity = [core_no os first]\<rparr>;
              (ignored, w) = rt_apply os set_fifo cfg w
          in (Some ignored, w)
      | (_, w) \<Rightarrow> (None, w))"

section \<open>\<open>registry.rs\<close>\<close>

definition KeyA :: rust_type where "KeyA = Rust_Type 1 ''KeyA''"
definition KeyB :: rust_type where "KeyB = Rust_Type 2 ''KeyB''"
definition KeyC :: rust_type where "KeyC = Rust_Type 3 ''KeyC''"
definition u8_ty :: rust_type where "u8_ty = Rust_Type 4 ''u8''"
definition u16_ty :: rust_type where "u16_ty = Rust_Type 5 ''u16''"

definition install_then_take_round_trips_once :: "u8 registry \<Rightarrow> bool" where
  "install_then_take_round_trips_once r =
     (case registry_run [Install KeyA u8_ty 5, Take KeyA u8_ty, Take KeyA u8_ty] r of
        Some ([Installed (Done ()), Taken (Inr v), Taken (Inl e)], r) \<Rightarrow> v = 5
      | _ \<Rightarrow> False)"

definition take_with_wrong_type_errors :: "u8 registry \<Rightarrow> bool" where
  "take_with_wrong_type_errors r =
     (case registry_run [Install KeyB u8_ty 5, Take KeyB u16_ty] r of
        Some ([Installed (Done ()), Taken (Inl e)], r) \<Rightarrow> True
      | _ \<Rightarrow> False)"

definition double_install_panics_test :: "u8 registry \<Rightarrow> bool" where
  "double_install_panics_test r =
     (case registry_run [Install KeyC u8_ty 1, Install KeyC u8_ty 2] r of
        Some ([Installed (Done ()), Installed x], r) \<Rightarrow> should_panic ''already installed'' x
      | _ \<Rightarrow> False)"

section \<open>The tests so far hold\<close>

lemma core_tests:
  "tick_has_no_message
   \<and> message_exposes_payload
   \<and> emit_then_take_preserves_order
   \<and> take_one_returns_first_and_clears
   \<and> take_one_reports_extra_emits_instead_of_dropping
   \<and> store_logic_is_pure_and_testable
   \<and> transport_event_is_a_copper_payload
   \<and> message_produces_echo
   \<and> tick_produces_nothing
   \<and> run_step_panics_on_double_emit
   \<and> run_step_all_returns_every_emit
   \<and> fsm_task_ticks_at_recorded_input_tov_not_clock
   \<and> fsm_task_errors_on_double_emit
   \<and> fsm_batch_task_forwards_every_emit"
  by code_simp

lemmas gate_test_defs =
  test_gate_def rec_def replay_gate_def gate_turn_def add_word_code passes_def passed_def Let_def
  f64_one_def f64_two_def f64_three_def f64_nan_def f64_zero_def

lemma digit_char_six: "digit_char 6 = CHR ''6''"
  by code_simp

lemma replay_tests:
  passes_identical_outputs_including_nan reports_first_divergence_and_keeps_counting
  detects_id_gaps empty_recording_does_not_pass
  by (simp_all add: passes_identical_outputs_including_nan_def
      reports_first_divergence_and_keeps_counting_def detects_id_gaps_def
      empty_recording_does_not_pass_def describe_divergence_def gate_test_defs show_word_def
      show_nat.simps digit_char_six numeral_3_eq_3)

lemma rt_test: "normal_applies_cleanly os set_fifo w"
  by (simp add: normal_applies_cleanly_def rt_apply_def rt_config_normal_def)

text \<open>Where the core list does not change, the core is found: only binding to it may fail.\<close>

lemma rt_pinning_test:
  assumes "get_core_ids os w = (Some (first # ids), w1)" and "get_core_ids os w1 = (Some (first # ids), w2)"
  shows "fst (pinning_to_available_core_does_not_panic os set_fifo w) =
           Some (if fst (set_for_current os first w2) then Inr ()
                 else Inl (''failed to pin to core '' @ show_word (core_no os first)))"
  by (simp add: pinning_to_available_core_does_not_panic_def assms rt_apply_def pin_core_def Let_def
      split: prod.splits)

lemma registry_tests:
  "install_then_take_round_trips_once None
   \<and> take_with_wrong_type_errors None
   \<and> double_install_panics_test None"
  by code_simp

section \<open>\<open>tasks.rs\<close>\<close>

text \<open>
  A test holds the far ends of its channels: \<open>feed_test\<close> is its \<open>tx.send\<close>, and what the tasks sent is
  \<open>sim_sent\<close>. The mock clock does not move by itself.
\<close>

definition test_channel :: "('i, 'o) sim_world" where
  "test_channel =
     \<lparr>sim_queue = [], sim_taken = [], sim_bursts = [], sim_sent = [], sim_open = True,
      sim_clock = 0, sim_period = 0\<rparr>"

definition feed_test :: "'i list \<Rightarrow> ('i, 'o) sim_world \<Rightarrow> ('i, 'o) sim_world" where
  "feed_test vs w = w\<lparr>sim_queue := sim_queue w @ vs\<rparr>"

definition set_clock :: "u64 \<Rightarrow> ('i, 'o) sim_world \<Rightarrow> ('i, 'o) sim_world" where
  "set_clock t w = w\<lparr>sim_clock := t\<rparr>"

definition ingress_passes_through_and_handles_empty :: bool where
  "ingress_passes_through_and_handles_empty =
     (let (a, w) = ingress_step sim_rx () (test_channel :: (u32, unit) sim_world);
          (b, w) = ingress_step sim_rx () (feed_test [7] w)
      in a = None \<and> b = Some 7)"

definition egress_forwards_present_payload_only :: bool where
  "egress_forwards_present_payload_only =
     (let (a, w) = egress_step sim_tx () None (test_channel :: (unit, u32) sim_world);
          (b, w') = egress_step sim_tx () (Some 9) w
      in a = Inr () \<and> sim_sent w = [] \<and> b = Inr () \<and> sim_sent w' = [9])"

definition cycle_step_drains_bounded_batch_and_reports_pending :: bool where
  "cycle_step_drains_bounded_batch_and_reports_pending =
     (let w = feed_test [0, 1, 2, 3, 4] (test_channel :: (u32, unit) sim_world);
          (c0, w) = cycle_step sim_rx () 3 77 w;
          (c1, w) = cycle_step sim_rx () 3 78 w;
          (c2, w) = cycle_step sim_rx () 3 79 w
      in events c0 = [0, 1, 2] \<and> pending c0 = 2 \<and> now_ns c0 = 77
       \<and> events c1 = [3, 4] \<and> pending c1 = 0 \<and> events c2 = [] \<and> now_ns c2 = 79)"

datatype ingress_probe = Ingress_Probe u32

datatype cycle_probe = Cycle_Probe u32

datatype batch_probe = Batch_Probe u32

definition probe_task :: rust_type where "probe_task = Rust_Type 10 ''Task''"
definition probe_end :: rust_type where "probe_end = Rust_Type 11 ''Channel end''"

definition ingress_task_stamps_tov_on_empty_cycles :: bool where
  "ingress_task_stamps_tov_on_empty_cycles =
     (case ingress_install probe_task probe_end () None of
        Some (Done u, r) \<Rightarrow>
          (case ingress_new probe_task probe_end r of
             Some (Inr task, r) \<Rightarrow>
               (let (res, out, w) = ingress_process sim_clk sim_rx slot_api task
                      (fresh_slot :: (ingress_probe, u64, u64 \<times> u64) slot)
                      (set_clock 1234 (test_channel :: (ingress_probe, unit) sim_world))
                in res = Inr () \<and> payload slot_api out = None
                 \<and> msg_tov slot_api out = Tov_Time 1234)
           | _ \<Rightarrow> False)
      | _ \<Rightarrow> False)"

definition cycle_ingress_task_emits_every_iteration :: bool where
  "cycle_ingress_task_emits_every_iteration =
     (case cycle_ingress_install probe_task probe_end () None of
        Some (Done u, r) \<Rightarrow>
          (case cycle_ingress_new (\<lambda>(cfg :: unit) key. Inr None) probe_task probe_end None r of
             Some (Inr task, r) \<Rightarrow>
               (let (res0, out0, w) = cycle_ingress_process sim_clk sim_rx slot_api task
                      (fresh_slot :: (cycle_probe cycle, u64, u64 \<times> u64) slot)
                      (set_clock 10 (test_channel :: (cycle_probe, unit) sim_world));
                    (res1, out1, w) = cycle_ingress_process sim_clk sim_rx slot_api task out0
                      (set_clock 20 (feed_test [Cycle_Probe 1, Cycle_Probe 2] w))
                in (case (payload slot_api out0, payload slot_api out1) of
                      (Some c0, Some c1) \<Rightarrow> now_ns c0 = 10 \<and> events c0 = []
                        \<and> now_ns c1 = 20 \<and> events c1 = [Cycle_Probe 1, Cycle_Probe 2]
                    | _ \<Rightarrow> False))
           | _ \<Rightarrow> False)
      | _ \<Rightarrow> False)"

definition batch_egress_forwards_each_value_in_order :: bool where
  "batch_egress_forwards_each_value_in_order =
     (case batch_egress_install probe_task probe_end () None of
        Some (Done u, r) \<Rightarrow>
          (case batch_egress_new probe_task probe_end r of
             Some (Inr task, r) \<Rightarrow>
               (let input = set_payload slot_api (Batch [Batch_Probe 1, Batch_Probe 2])
                      (fresh_slot :: (batch_probe batch, u64, u64 \<times> u64) slot);
                    (res, w) = batch_egress_process sim_tx slot_api task input
                      (test_channel :: (unit, batch_probe) sim_world)
                in res = Inr () \<and> sim_sent w = [Batch_Probe 1, Batch_Probe 2])
           | _ \<Rightarrow> False)
      | _ \<Rightarrow> False)"

lemma task_tests:
  "ingress_passes_through_and_handles_empty
   \<and> egress_forwards_present_payload_only
   \<and> cycle_step_drains_bounded_batch_and_reports_pending
   \<and> ingress_task_stamps_tov_on_empty_cycles
   \<and> cycle_ingress_task_emits_every_iteration
   \<and> batch_egress_forwards_each_value_in_order"
  by code_simp

section \<open>\<open>echo.rs\<close>\<close>

definition echo_formats_with_next_index :: bool where
  "echo_formats_with_next_index = (echo True echo_store_default ''hi'' = Done ''echo 1: hi'')"

definition echo_uses_current_count :: bool where
  "echo_uses_current_count = (echo True \<lparr>echo_count = 4\<rparr> ''hi'' = Done ''echo 5: hi'')"

definition machine_echoes_on_message_and_counts_up :: bool where
  "machine_echoes_on_message_and_counts_up =
     passes (exec_bind (run_step (echo_step True leaf_statig) (echo_machine_default leaf_statig)
         (Message (echo_msg_new ''hello'')))
       (\<lambda>(a, m). exec_bind (run_step (echo_step True leaf_statig) m (Message (echo_msg_new ''world'')))
       (\<lambda>(b, m). Done (a = Some (echo_msg_new ''echo 1: hello'')
                     \<and> b = Some (echo_msg_new ''echo 2: world'')))))"

definition machine_emits_nothing_on_tick :: bool where
  "machine_emits_nothing_on_tick =
     passes (exec_bind (run_step (echo_step True leaf_statig) (echo_machine_default leaf_statig) (Tick 123))
       (\<lambda>(out, m). Done (out = None)))"

definition statig_machine_is_initialized_before_first_step :: bool where
  "statig_machine_is_initialized_before_first_step =
     passes (let m0 = echo_machine_default leaf_statig in
       exec_bind (run_step (echo_step True leaf_statig) m0 (Message (echo_msg_new ''x''))) (\<lambda>(out, m).
         Done (echo_state_name (echo_sm m0) = ''Running'' \<and> echo_state_name (echo_sm m) = ''Running'')))"

lemma echo_tests:
  "echo_formats_with_next_index
   \<and> echo_uses_current_count
   \<and> machine_echoes_on_message_and_counts_up
   \<and> machine_emits_nothing_on_tick
   \<and> statig_machine_is_initialized_before_first_step"
  by code_simp

section \<open>\<open>watchdog.rs\<close>\<close>

definition test_cycle :: "u64 \<Rightarrow> nat \<Rightarrow> feed cycle" where
  "test_cycle now_t feeds = \<lparr>now_ns = now_t, events = map (Feed \<circ> of_nat) [0..<feeds], pending = 0\<rparr>"

definition test_step :: "watchdog_machine \<Rightarrow> u64 \<Rightarrow> nat \<Rightarrow> (alarm list \<times> watchdog_machine) exec" where
  "test_step m now_t feeds = run_step_all (watchdog_step leaf_statig) m (Message (test_cycle now_t feeds))"

text \<open>The steps of a test on a fresh machine: the alarms of each, and the name of the final state.\<close>

fun test_steps :: "(u64 \<times> nat) list \<Rightarrow> watchdog_machine \<Rightarrow> (alarm list list \<times> string) exec" where
  "test_steps [] m = Done ([], watchdog_state_name (wd_sm m))"
| "test_steps ((now_t, feeds) # cs) m =
     exec_bind (test_step m now_t feeds) (\<lambda>(out, m).
       exec_bind (test_steps cs m) (\<lambda>(outs, name). Done (out # outs, name)))"

abbreviation run_test where
  "run_test cs \<equiv> test_steps cs (watchdog_machine_default leaf_statig)"

definition store_expires_only_after_timeout :: bool where
  "store_expires_only_after_timeout =
     (let s = watchdog_store_new 10; fed = record_feed 100 s
      in \<not> expired s 1000 \<and> \<not> expired fed 110 \<and> expired fed 111 \<and> silent_ns fed 111 = 11)"

definition idle_ignores_check :: bool where
  "idle_ignores_check =
     (run_test [] = Done ([], ''Idle'') \<and> run_test [(10 * TIMEOUT_NS, 0)] = Done ([[]], ''Idle''))"

definition idle_arms_on_feed :: bool where
  "idle_arms_on_feed = (run_test [(0, 1)] = Done ([[Armed]], ''Armed''))"

definition armed_stays_armed_on_feed_and_within_timeout :: bool where
  "armed_stays_armed_on_feed_and_within_timeout =
     passes (exec_bind
       (run_test [(0, 1), (TIMEOUT_NS, 0), (TIMEOUT_NS + 1, 3), (2 * TIMEOUT_NS + 1, 0)])
       (\<lambda>(outs, name). Done (tl outs = [[], [], []] \<and> name = ''Armed'')))"

definition armed_trips_after_timeout :: bool where
  "armed_trips_after_timeout =
     passes (exec_bind (run_test [(0, 1), (TIMEOUT_NS + 1, 0)])
       (\<lambda>(outs, name). Done (tl outs = [[Tripped (TIMEOUT_NS + 1)]] \<and> name = ''Tripped'')))"

definition tripped_recovers_on_feed :: bool where
  "tripped_recovers_on_feed =
     passes (exec_bind
       (run_test [(0, 1), (TIMEOUT_NS + 1, 0), (3 * TIMEOUT_NS, 0), (3 * TIMEOUT_NS, 1)])
       (\<lambda>(outs, name). Done (drop 2 outs = [[], [Recovered]] \<and> name = ''Armed'')))"

definition feeds_in_a_cycle_are_dispatched_before_its_check :: bool where
  "feeds_in_a_cycle_are_dispatched_before_its_check =
     passes (exec_bind (run_test [(5, 2)]) (\<lambda>(outs, name). Done (outs = [[Armed]])))"

lemma watchdog_tests:
  "store_expires_only_after_timeout
   \<and> idle_ignores_check
   \<and> idle_arms_on_feed
   \<and> armed_stays_armed_on_feed_and_within_timeout
   \<and> armed_trips_after_timeout
   \<and> tripped_recovers_on_feed
   \<and> feeds_in_a_cycle_are_dispatched_before_its_check"
  by code_simp

end
