(* ===== verification/Spec2Isabelle.thy ===== *)
theory Spec2Isabelle
  imports Registry_Concurrent Pipeline Log_Dir Echo_Liveness Driver_Tests Unit_Tests
begin

text \<open>
  A verification library for msrs, a framework that runs finite state machine services on the
  copper-rs runtime so that every run can be replayed from its log.

  \<^bold>\<open>The program.\<close> A service is a machine (\<open>FsmSpec\<close>) that turns triggers into outputs, driven by one
  copper task (\<open>FsmTask\<close> or \<open>FsmBatchTask\<close>, \<open>crates/msrs-core\<close>). Ingress and egress tasks connect it
  to a transport, which runs on its own driver thread behind two channels (\<open>crates/msrs-transport\<close>);
  a process-wide registry hands the channel ends to the tasks, which the runtime constructs itself.
  Time and input enter the graph only through the ingress task, so the log of the message slots is
  enough to replay a run: \<open>replay.rs\<close> reads it back and compares a fresh machine with it. Two
  services are in the repository: \<open>examples/echo\<close> (one reply per message, \<open>FsmTask\<close>) and
  \<open>examples/watchdog\<close> (alarms on silence, \<open>CycleIngressTask\<close> and \<open>FsmBatchTask\<close>).

  \<^bold>\<open>The theories\<close>, in the order of their imports:

  \<^item> \<open>Prelude\<close>: calls that may panic (\<open>exec\<close>), \<open>Result\<close> helpers, checked and saturating arithmetic on
    words, decimal formatting with its injectivity.
  \<^item> \<open>Trigger\<close>, \<open>Effects\<close>: \<open>trigger.rs\<close> and \<open>effects.rs\<close>; the locale \<open>outbox_spec\<close> is the contract of the
    output buffer, interpreted on both ways of draining it.
  \<^item> \<open>Copper\<close>, \<open>Channels\<close>: the interfaces of copper-rs, statig and crossbeam as records of operations,
    their documented behaviour as the locales \<open>cu_msg\<close>, \<open>statig\<close>, \<open>rx_world\<close> and \<open>dag_world\<close>, and one
    executable instance of each (\<open>slot_api\<close>, \<open>leaf_statig\<close>, \<open>sim_world\<close>). In \<open>dag_world\<close> the other end
    of a channel may act during every operation, so all results hold under any interleaving of the
    transport thread with the graph.
  \<^item> \<open>Fsm_Task\<close>: \<open>fsm_task.rs\<close>. The test seams \<open>run_step\<close> and \<open>run_step_all\<close>, \<open>trigger_for\<close>, the two
    adapters on every branch, and what the documentation asks of a machine as the locales \<open>fsm_spec\<close>,
    \<open>single_emit_spec\<close> and \<open>tick_silent_spec\<close>, interpreted on both services and on the unit-test
    machines.
  \<^item> \<open>Registry\<close>: \<open>registry.rs\<close> with its once-cell, lock and poisoning, as an implementation of a typed
    map (\<open>slot_registry\<close>, \<open>registry_refines_map\<close>).
  \<^item> \<open>Registry_Concurrent\<close>: the same functions as step machines of any number of threads (\<open>reg_move\<close>,
    \<open>reg_step\<close>). A call without interference is the operation of \<open>Registry\<close>; every interleaving is
    linearizable, ends, keeps the types of the boxes and hands each value over once. \<open>reg_exec\<close> runs
    a given schedule.
  \<^item> \<open>Tasks\<close>: \<open>tasks.rs\<close>. The four tasks with \<open>install\<close>, \<open>new\<close> and \<open>process\<close>; \<open>source_task\<close> is the contract
    of an ingress task (never fails, no loss, order kept, progress), and both ingress tasks provide
    it; conservation of the drain and bounded delivery follow from it.
  \<^item> \<open>Replay\<close>: \<open>replay.rs\<close>. Reading a log, and the exact report and verdict of the replay gate.
  \<^item> \<open>Framework_Replay\<close>: the replay promise of README section 6.3 for an arbitrary machine. What \<open>FsmTask\<close>
    and \<open>FsmBatchTask\<close> have in common is the locale \<open>fsm_adapter\<close>; a run of either over stamped inputs
    is the run of the machine over the logged triggers, and its log passes the gate.
  \<^item> \<open>Rt\<close>, \<open>Driver\<close>: \<open>rt.rs\<close>, \<open>transport.rs\<close> and \<open>driver.rs\<close>.
  \<^item> \<open>Watchdog\<close>, \<open>Echo\<close>: the two machines, each with the service as its documentation describes it
    (\<open>watch_spec\<close>, \<open>echo_replies\<close>) and the proof that the machine implements it.
  \<^item> \<open>Dag\<close>, \<open>Watchdog_Service\<close>, \<open>Echo_Service\<close>: the graphs of the two \<open>main.rs\<close>: building the tasks,
    the iterations, the log, the replay and the checks, over any world that obeys the laws of the
    channels: replay determinism, what reaches the transport, and the negative control. \<open>Dag\<close> also
    holds what the programs use of an application around its iterations (\<open>app_runtime\<close>): the set-up
    of the log, and the start and stop of the tasks. What the DAG's operations keep of the world is a
    \<open>world_invariant\<close>; two extensions say that sends succeed (\<open>world_sends\<close>) or that a failed send is
    for good (\<open>world_closes\<close>).
  \<^item> \<open>Pipeline\<close>: the two graphs that README section 12 offers, around an arbitrary machine. The locale
    \<open>graph_transducer\<close> says what an iteration does to the channels and the log; both graphs provide it
    (\<open>cycle_graph\<close>, \<open>message_graph\<close>), and its loop runs the bare machine over the recorded triggers,
    takes the inbound messages in order and delivers a backlog. \<open>cycles_stamped\<close> says that the times of
    the logged cycles are readings of the clock made in their iterations. The loops of the two services are
    instances (\<open>watchdog_live_graph\<close>, \<open>echo_live_graph\<close>).
  \<^item> \<open>Bridge\<close>: what a spawned transport and the DAG share. The two channels (\<open>bridge\<close>), a transport as
    a program of atomic steps (\<open>transport_program\<close>), and the DAG's operations, before each of which the
    transport makes the steps a schedule prescribes. Every such transport gives a \<open>dag_world\<close>
    (\<open>transport_thread\<close>), so the results about tasks and services hold of the concurrent program, and
    an invariant of its steps (\<open>transport_invariant\<close>) is one of the whole run; one that holds only
    while the schedule keeps a pace, such as no timeout, is a \<open>paced_invariant\<close>, and one that also
    survives the drop of either end by the DAG, a \<open>dropping_invariant\<close>, holds in every world of
    \<open>dag_reach\<close>, whatever the DAG side does. A transport that never listens again once it has ended
    (\<open>quitting_transport\<close>) gives a \<open>world_closes\<close>.
  \<^item> \<open>Driver_Tests\<close>: the two transports of the tests of \<open>driver.rs\<close> on the bridge: the loopback keeps
    the order and answers everything unless it fails, and a bounded channel bounds the backlog, under
    every schedule and whatever the DAG does with its ends.
  \<^item> \<open>Watchdog_App\<close>, \<open>Echo_App\<close>, \<open>Spike_App\<close>: the three programs as wholes. The transports \<open>Pulse\<close> (two
    threads) and \<open>Feeder\<close> (with its timeout) as programs, \<open>run_live\<close> from spawning to joining, and
    \<open>main\<close> with every assertion; \<open>watchdog_deployment\<close>, \<open>echo_deployment\<close> and \<open>spike_deployment\<close> say what
    a program relies on outside the repository, each interpreted on an executable instance whose
    runs are evaluated. The end-to-end results over all schedules are here: what \<open>main\<close> can end in,
    that the alarms of a live run are those the service description gives for the logged cycles, and
    the timing of those cycles (\<open>two_silences\<close>) with which \<open>main\<close> of the watchdog succeeds.
  \<^item> \<open>Echo_Liveness\<close>: when \<open>main\<close> of the echo service does succeed, and when it cannot. \<open>prompt_inv\<close>
    follows the run of a transport that keeps pace, and \<open>turns_to_end\<close> measures what is left of it;
    \<open>late_world\<close> follows one that has too few turns to send the inputs before the loop ends.
  \<^item> \<open>Log_Dir\<close>: how each binary prepares the directory of its log, over a file system any of whose
    operations may fail (\<open>file_system\<close>), and the binaries from their first line on (\<open>echo_program\<close>,
    \<open>watchdog_program\<close>, \<open>spike_program\<close>).
  \<^item> \<open>Spike\<close>: the tasks and the gate of the integration spike.
  \<^item> \<open>Unit_Tests\<close>: the unit tests of the repository as definitions, evaluated on the model.

  \<^bold>\<open>Correspondence.\<close> Structures are records and enums are datatypes with the fields and variants of
  the source; integers are words of the source's width. A call that may panic has a result of type
  \<open>exec\<close>; \<open>Result\<close> is a sum with the error on the left. The parameter \<open>oc\<close> says whether the build
  checks integer overflow (debug) or wraps (release). Everything outside the program (clock,
  channels, operating system) is a world that is threaded through the calls. \<open>&mut\<close> arguments are
  returned. Threads are positions in their code (\<open>reg_pc\<close>, \<open>pulse_pc\<close>, \<open>feeder_pc\<close>) with one atomic
  operation per step, and a sleep is a point where the schedule may let others move; a call that
  blocks leaves its thread where it is. A \<open>main\<close> whose \<open>join\<close> has not returned when the schedule ends
  is \<open>None\<close>.

  \<^bold>\<open>Termination and bounds.\<close> All operations but four are total functions. The two loops that read a
  log are \<open>partial_function\<close>s; \<open>read_copperlists_returns\<close> shows that reading ends when records consume
  input. The live loop of the watchdog (\<open>watchdog_timed\<close>) runs by the clock, that is by the times
  \<open>elapsed_at\<close> of its checks, which \<open>iterations_within\<close> counts; it makes at most eighty iterations when
  a sleep lasts as long as it is asked to. The draining loop of \<open>try_iter\<close> is bounded by the batch
  size. Runs are lists of iterations of any length; where a counter or an id could overflow, the
  hypotheses say so (\<open>ids_in_range\<close>, fewer than \<open>2 ^ 64\<close> steps), and \<open>echo_counter_overflow\<close> shows what
  happens beyond. A registry call takes six steps on every path (\<open>steps_left\<close>), so \<open>k\<close> calls take at
  most \<open>6 * k\<close>. Joining \<open>Pulse\<close> takes one turn of the feeder thread per burst, of which there are two,
  and after that two turns of the driver thread per alarm and three more (\<open>driver_left\<close>). The echo
  program succeeds when the driver thread sends its inputs before the first iteration and gets, while
  \<open>main\<close> collects and joins, the turns that \<open>prompt_pace\<close> counts; it fails when that thread has fewer
  turns than there are inputs before the loop ends.

  \<^bold>\<open>Not modelled.\<close> The code of the libraries and the code generated by \<open>copper_runtime\<close>: one iteration
  is taken to call the tasks once, in graph order, on slots with arbitrary previous contents, and to
  succeed when they all do; whether an iteration with a task error fails or the loop goes on is left
  open. The tasks
  define no start or stop hook, so starting and stopping them, like setting up the log, can only fail
  or succeed. How long a sleep takes matters only for the number of iterations of the watchdog's loop.
  What the two services print is left out, as is a bounded channel of capacity zero, which no code
  here creates. The file system appears where the binaries prepare their log directories; the files
  the runtime writes are lists of copperlists. The marker trait \<open>Store\<close> has no behaviour; crate roots
  and build scripts hold none.
\<close>

end
